(* ===== verification/Prelude.thy ===== *)
theory Prelude
  imports Main "HOL-Library.Word"
begin

text \<open>
  The vocabulary the component theories share: the C integer types of
  \<^verbatim>\<open>include/types.h\<close> as words of their width, the reading of a C \<open>char\<close>
  as a signed byte, the collections the simplifier is fed with, and the
  generic facts on words, alignment and lists that several components use.
\<close>

unbundle bit_operations_syntax

section \<open>Machine types\<close>

type_synonym u8 = "8 word"
type_synonym u16 = "16 word"
type_synonym u32 = "32 word"
type_synonym u64 = "64 word"
type_synonym addr = "64 word"
type_synonym byte = "8 word"

text \<open>A character literal as the byte the compiler stores for it.\<close>

definition chr :: "char \<Rightarrow> byte" where
  "chr c = of_nat (of_char c)"

definition bytes_of :: "string \<Rightarrow> byte list" where
  "bytes_of s = map chr s"

section \<open>Collections\<close>

named_theorems mem_simps \<open>loads after stores\<close>
named_theorems frame_simps \<open>what an operation leaves alone\<close>

section \<open>Words\<close>

lemma unat_of_nat_u64 [simp]: "n < 18446744073709551616 \<Longrightarrow> unat (of_nat n :: u64) = n"
  by (simp add: unsigned_of_nat take_bit_nat_eq_self_iff)

lemma unat_lt_u64: "unat (a :: u64) < 18446744073709551616"
  by (rule order.strict_trans2 [OF unsigned_less]) simp

lemma unat_diff_split:
  fixes x a :: u64
  shows "unat (x - a) =
    (if unat a \<le> unat x then unat x - unat a else unat x + 18446744073709551616 - unat a)"
  by (simp add: unat_sub_if')

lemma unat_plus_u64:
  fixes a b :: u64
  shows "unat a + unat b < 18446744073709551616 \<Longrightarrow> unat (a + b) = unat a + unat b"
  by (simp add: unat_word_ariths)

lemma unat_plus_of_nat:
  fixes a :: u64
  shows "unat a + n < 18446744073709551616 \<Longrightarrow> unat (a + of_nat n) = unat a + n"
  by (simp add: unat_plus_u64)

lemma bit_below:
  fixes x :: "'a::len word"
  assumes "bit x n" "unat x < 2 ^ k"
  shows "n < k"
proof -
  have "take_bit k x = x"
    using assms(2) by (simp only: word_unat_eq_iff) (simp add: unsigned_take_bit_eq take_bit_nat_eq_self)
  with assms(1) show ?thesis
    by (metis bit_take_bit_iff)
qed

lemma unat_inc_less:
  fixes i n :: "'a::len word"
  assumes "i < n"
  shows "unat (i + 1) = Suc (unat i)"
proof -
  have "Suc (unat i) \<le> unat n"
    using assms by (simp add: word_less_nat_alt)
  also have "unat n < 2 ^ LENGTH('a)"
    by (rule unsigned_less)
  finally show ?thesis
    by (cases "LENGTH('a) = 1") (simp_all add: unat_word_ariths)
qed

lemma word_eq_of_unat: "unat a = unat b \<Longrightarrow> a = b"
  by (rule unsigned_word_eqI)

section \<open>Page alignment\<close>

definition page_aligned :: "addr \<Rightarrow> bool" where
  "page_aligned a \<longleftrightarrow> a AND 4095 = 0"

lemma page_aligned_unat: "page_aligned a \<longleftrightarrow> 4096 dvd unat a"
proof -
  have "a AND 4095 = take_bit 12 a"
    by (simp add: take_bit_eq_mask mask_eq_exp_minus_1)
  then have "page_aligned a \<longleftrightarrow> unat (take_bit 12 a) = 0"
    by (simp add: page_aligned_def unsigned_eq_0_iff)
  then have "page_aligned a \<longleftrightarrow> take_bit 12 (unat a) = 0"
    by (simp add: unsigned_take_bit_eq)
  then show ?thesis
    by (simp add: take_bit_eq_mod mod_eq_0_iff_dvd)
qed

lemma page_aligned_0 [simp]: "page_aligned 0"
  by (simp add: page_aligned_def)

lemma page_aligned_bit: "page_aligned a \<longleftrightarrow> (\<forall>n<12. \<not> bit a n)"
proof -
  have "a AND 4095 = take_bit 12 a"
    by (simp add: take_bit_eq_mask mask_eq_exp_minus_1)
  then show ?thesis
    by (auto simp: page_aligned_def bit_eq_iff bit_simps)
qed

lemma dvd_unat_add_u64:
  fixes a b :: u64
  assumes "d dvd unat a" "d dvd unat b" "d dvd 18446744073709551616"
  shows "d dvd unat (a + b)"
  using assms by (simp add: unat_word_ariths dvd_mod)

lemma dvd_unat_diff_u64:
  fixes a b :: u64
  assumes "d dvd unat a" "d dvd unat b" "d dvd 18446744073709551616"
  shows "d dvd unat (a - b)"
  using assms by (simp add: unat_diff_split dvd_diff_nat)

lemma page_aligned_add: "page_aligned a \<Longrightarrow> page_aligned b \<Longrightarrow> page_aligned (a + b)"
  unfolding page_aligned_unat by (rule dvd_unat_add_u64) simp_all

text \<open>Two distinct page-aligned addresses are a page apart, both ways round.\<close>

lemma page_aligned_apart:
  assumes "page_aligned a" "page_aligned b" "a \<noteq> b"
  shows "4096 \<le> unat (a - b)"
proof -
  have "4096 dvd unat (a - b)"
    using assms unfolding page_aligned_unat by (intro dvd_unat_diff_u64) simp_all
  moreover have "unat (a - b) \<noteq> 0"
    using assms(3) by (simp add: unat_eq_0)
  ultimately show ?thesis
    using dvd_imp_le by blast
qed

end
