(* ===== verification/Cmem.thy ===== *)
theory Cmem
  imports Prelude
begin

text \<open>
  The flat, byte-addressed memory the kernel runs in: physical memory, which
  HyperBench maps one to one, so that a C pointer is its 64-bit address. Loads and
  stores of 2, 4 and 8 bytes are little endian, as on x86-64. A memory is a total
  function, a store an update of it, so overlapping objects alias as they do on the
  machine.
\<close>

section \<open>Loads, stores and byte loops\<close>

type_synonym mem = "addr \<Rightarrow> byte"

definition byte_of :: "'a::len word \<Rightarrow> nat \<Rightarrow> byte" where
  "byte_of v i = ucast (drop_bit (8 * i) v)"

primrec load_le :: "nat \<Rightarrow> mem \<Rightarrow> addr \<Rightarrow> 'a::len word" where
  "load_le 0 m a = 0"
| "load_le (Suc n) m a = ucast (m a) OR push_bit 8 (load_le n m (a + 1))"

definition store_le :: "nat \<Rightarrow> mem \<Rightarrow> addr \<Rightarrow> 'a::len word \<Rightarrow> mem" where
  "store_le n m a v = (\<lambda>x. if unat (x - a) < n then byte_of v (unat (x - a)) else m x)"

definition load16 :: "mem \<Rightarrow> addr \<Rightarrow> u16" where "load16 = load_le 2"
definition load32 :: "mem \<Rightarrow> addr \<Rightarrow> u32" where "load32 = load_le 4"
definition load64 :: "mem \<Rightarrow> addr \<Rightarrow> u64" where "load64 = load_le 8"
definition store16 :: "mem \<Rightarrow> addr \<Rightarrow> u16 \<Rightarrow> mem" where "store16 = store_le 2"
definition store32 :: "mem \<Rightarrow> addr \<Rightarrow> u32 \<Rightarrow> mem" where "store32 = store_le 4"
definition store64 :: "mem \<Rightarrow> addr \<Rightarrow> u64 \<Rightarrow> mem" where "store64 = store_le 8"

text \<open>The bytes of an object, from its first address on.\<close>

definition read_bytes :: "mem \<Rightarrow> addr \<Rightarrow> nat \<Rightarrow> byte list" where
  "read_bytes m a n = map (\<lambda>i. m (a + of_nat i)) [0..<n]"

text \<open>
  An address is inside the \<open>n\<close> bytes at \<open>a\<close>. The difference is taken modulo
  $2^{64}$, so the region may wrap, as the machine's addresses do.
\<close>

definition in_range :: "addr \<Rightarrow> addr \<Rightarrow> nat \<Rightarrow> bool" where
  "in_range x a n \<longleftrightarrow> unat (x - a) < n"

text \<open>Two regions share no byte.\<close>

definition disj :: "addr \<Rightarrow> nat \<Rightarrow> addr \<Rightarrow> nat \<Rightarrow> bool" where
  "disj a n b k \<longleftrightarrow> (\<forall>x. \<not> (in_range x a n \<and> in_range x b k))"

section \<open>Bits of a load\<close>

lemma bit_load_le:
  "bit (load_le n m a :: 'a::len word) k \<longleftrightarrow>
     k < LENGTH('a) \<and> k < 8 * n \<and> bit (m (a + of_nat (k div 8))) (k mod 8)"
proof (induction n arbitrary: a k)
  case 0
  then show ?case by simp
next
  case (Suc n)
  show ?case
  proof (cases "k < 8")
    case True
    then show ?thesis by (auto simp: bit_simps)
  next
    case False
    then have "k div 8 = Suc ((k - 8) div 8)" "k mod 8 = (k - 8) mod 8"
      by (auto simp: le_div_geq le_mod_geq)
    moreover have "\<not> bit (m a) k"
      using False by (auto dest: bit_imp_le_length)
    ultimately show ?thesis
      using False by (auto simp: Suc.IH bit_simps algebra_simps)
  qed
qed

lemma bit_byte_of: "bit (byte_of (v :: 'a::len word) i) k \<longleftrightarrow> k < 8 \<and> bit v (8 * i + k)"
  by (auto simp: byte_of_def bit_simps)

lemma load_store_same:
  assumes "LENGTH('a::len) = 8 * n" "n < 18446744073709551616"
  shows "load_le n (store_le n m a (v :: 'a word)) a = v"
proof (rule bit_word_eqI)
  fix k assume k: "k < LENGTH('a)"
  then have "k div 8 < n"
    using assms by simp
  then have "unat (of_nat (k div 8) :: u64) = k div 8"
    using assms by simp
  then show "bit (load_le n (store_le n m a v) a :: 'a word) k = bit v k"
    using k \<open>k div 8 < n\<close> assms by (simp add: bit_load_le store_le_def bit_byte_of)
qed

lemma load_le_cong:
  assumes "\<And>i. i < n \<Longrightarrow> m (a + of_nat i) = m' (a + of_nat i)"
  shows "load_le n m a = load_le n m' a"
proof (rule bit_word_eqI)
  fix k
  show "bit (load_le n m a :: 'a word) k = bit (load_le n m' a :: 'a word) k"
    using assms [of "k div 8"] by (auto simp: bit_load_le)
qed

section \<open>Regions\<close>

lemma in_range_first [simp]: "in_range a a n \<longleftrightarrow> 0 < n"
  by (simp add: in_range_def)

lemma in_range_offset: "i < n \<Longrightarrow> i < 18446744073709551616 \<Longrightarrow> in_range (a + of_nat i) a n"
  by (simp add: in_range_def)

lemma in_range_iff_offset:
  "in_range x a n \<longleftrightarrow> (\<exists>i<n. i < 18446744073709551616 \<and> x = a + of_nat i)"
proof
  assume "in_range x a n"
  then have "unat (x - a) < n" by (simp add: in_range_def)
  moreover have "x = a + of_nat (unat (x - a))" by simp
  ultimately show "\<exists>i<n. i < 18446744073709551616 \<and> x = a + of_nat i"
    using unat_lt_u64 by blast
next
  assume "\<exists>i<n. i < 18446744073709551616 \<and> x = a + of_nat i"
  then show "in_range x a n" by (auto simp: in_range_def)
qed

lemma in_range_mono: "in_range x a n \<Longrightarrow> n \<le> k \<Longrightarrow> in_range x a k"
  by (simp add: in_range_def)

lemma disj_sym: "disj a n b k \<Longrightarrow> disj b k a n"
  by (auto simp: disj_def)

lemma disj_mono: "disj a n b k \<Longrightarrow> n' \<le> n \<Longrightarrow> k' \<le> k \<Longrightarrow> disj a n' b k'"
  unfolding disj_def by (blast intro: in_range_mono)

text \<open>
  Regions that start far enough apart, both ways round the address space, are
  disjoint.
\<close>

lemma disj_apart:
  assumes "n \<le> unat (b - a)" "k \<le> unat (a - b)"
  shows "disj a n b k"
proof -
  have False if "unat (x - a) < n" "unat (x - b) < k" for x
    using that assms unat_lt_u64 [of a] unat_lt_u64 [of b] unat_lt_u64 [of x]
    unfolding unat_diff_split by (simp split: if_splits)
  then show ?thesis
    by (auto simp: disj_def in_range_def)
qed

lemma page_disj:
  "page_aligned a \<Longrightarrow> page_aligned b \<Longrightarrow> a \<noteq> b \<Longrightarrow> disj a 4096 b 4096"
  by (intro disj_apart) (auto intro: page_aligned_apart)

section \<open>Loads after stores\<close>

lemma store_le_outside [mem_simps]: "\<not> in_range x a n \<Longrightarrow> store_le n m a v x = m x"
  by (simp add: store_le_def in_range_def)

lemma load_store_disj:
  assumes "disj a n b k" "n < 18446744073709551616"
  shows "load_le n (store_le k m b v) a = load_le n m a"
proof (rule load_le_cong)
  fix i assume "i < n"
  then have "\<not> in_range (a + of_nat i) b k"
    using assms in_range_offset [of i n a] by (auto simp: disj_def)
  then show "store_le k m b v (a + of_nat i) = m (a + of_nat i)"
    by (rule store_le_outside)
qed

lemma load64_store64_same [simp, mem_simps]: "load64 (store64 m a v) a = v"
  by (simp add: load64_def store64_def load_store_same)

lemma load32_store32_same [simp, mem_simps]: "load32 (store32 m a v) a = v"
  by (simp add: load32_def store32_def load_store_same)

lemma load16_store16_same [simp, mem_simps]: "load16 (store16 m a v) a = v"
  by (simp add: load16_def store16_def load_store_same)

lemma load64_store64_disj [mem_simps]:
  "disj a 8 b 8 \<Longrightarrow> load64 (store64 m b v) a = load64 m a"
  by (simp add: load64_def store64_def load_store_disj)

lemma store64_outside [mem_simps]: "\<not> in_range x a 8 \<Longrightarrow> store64 m a v x = m x"
  by (simp add: store64_def mem_simps)

lemma load64_cong:
  "(\<And>x. in_range x a 8 \<Longrightarrow> m x = m' x) \<Longrightarrow> load64 m a = load64 m' a"
  unfolding load64_def by (rule load_le_cong) (simp add: in_range_offset)

lemma load64_zero: "(\<And>x. in_range x a 8 \<Longrightarrow> m x = 0) \<Longrightarrow> load64 m a = 0"
  unfolding load64_def
  by (rule bit_word_eqI) (auto simp: bit_load_le in_range_offset)

section \<open>Reading objects\<close>

lemma length_read_bytes [simp]: "length (read_bytes m a n) = n"
  by (simp add: read_bytes_def)

lemma nth_read_bytes [simp]: "i < n \<Longrightarrow> read_bytes m a n ! i = m (a + of_nat i)"
  by (simp add: read_bytes_def)

lemma read_bytes_Suc: "read_bytes m a (Suc n) = m a # read_bytes m (a + 1) n"
  by (rule nth_equalityI) (auto simp: nth_Cons add.assoc split: nat.split)

lemma read_bytes_0 [simp]: "read_bytes m a 0 = []"
  by (simp add: read_bytes_def)

lemma read_bytes_cong:
  "(\<And>i. i < n \<Longrightarrow> m (a + of_nat i) = m' (a + of_nat i)) \<Longrightarrow>
   read_bytes m a n = read_bytes m' a n"
  by (simp add: read_bytes_def)

end
