(* ===== verification/Cstring.thy ===== *)
theory Cstring
  imports Cmem "HOL-Library.Sublist" "HOL-Library.Monad_Syntax"
begin

text \<open>
  The string functions of \<^verbatim>\<open>lib/string.c\<close>.

  A pointer the function only reads through is the list of bytes from that address
  to the end of the object it points into, so \<open>s++\<close> is the tail and reading past
  the end of the object is the result \<open>None\<close>. The copying functions, where the two
  regions may overlap, run on the flat memory of \<open>Cmem\<close>. A returned pointer is the
  offset from the argument it points into; a null result is an inner \<open>None\<close>. A
  \<open>char\<close> is signed, as gcc has it on x86-64, and a \<open>long\<close> is a 64-bit word.
\<close>

section \<open>Reading strings\<close>

fun strlen_from :: "u64 \<Rightarrow> byte list \<Rightarrow> u64 option" where
  "strlen_from len [] = None"
| "strlen_from len (c # buf) = (if c \<noteq> 0 then strlen_from (len + 1) buf else Some len)"

definition strlen :: "byte list \<Rightarrow> u64 option" where
  "strlen buf = strlen_from 0 buf"

fun strncmp :: "byte list \<Rightarrow> byte list \<Rightarrow> u64 \<Rightarrow> int option" where
  "strncmp (x # a) (y # b) n =
     (if n = 0 then Some 0
      else if x \<noteq> y \<or> x = 0 then Some (sint x - sint y)
      else strncmp a b (n - 1))"
| "strncmp a b n = (if n = 0 then Some 0 else None)"

definition SIZE_MAX :: u64 where
  "SIZE_MAX = 18446744073709551615"

definition strcmp :: "byte list \<Rightarrow> byte list \<Rightarrow> int option" where
  "strcmp a b = strncmp a b SIZE_MAX"

fun strchr_from :: "nat \<Rightarrow> byte list \<Rightarrow> byte \<Rightarrow> nat option option" where
  "strchr_from off [] c = None"
| "strchr_from off (x # s) c =
     (if x \<noteq> c then if x = 0 then Some None else strchr_from (Suc off) s c
      else Some (Some off))"

definition strchr :: "byte list \<Rightarrow> u32 \<Rightarrow> nat option option" where
  "strchr s c = strchr_from 0 s (ucast c)"

fun memcmp :: "byte list \<Rightarrow> byte list \<Rightarrow> u64 \<Rightarrow> int option" where
  "memcmp (x # a) (y # b) n =
     (if n = 0 then Some 0
      else if uint x - uint y \<noteq> 0 then Some (uint x - uint y)
      else memcmp a b (n - 1))"
| "memcmp a b n = (if n = 0 then Some 0 else None)"

fun memchr_from :: "nat \<Rightarrow> byte list \<Rightarrow> byte \<Rightarrow> u64 \<Rightarrow> nat option option" where
  "memchr_from off [] c n = (if n = 0 then Some None else None)"
| "memchr_from off (x # s) c n =
     (if n = 0 then Some None
      else if x = c then Some (Some off)
      else memchr_from (Suc off) s c (n - 1))"

definition memchr :: "byte list \<Rightarrow> u32 \<Rightarrow> u64 \<Rightarrow> nat option option" where
  "memchr s c n = memchr_from 0 s (ucast c) n"

function strstr_loop :: "nat \<Rightarrow> byte list \<Rightarrow> u64 \<Rightarrow> byte list \<Rightarrow> u64 \<Rightarrow> nat option option" where
  "strstr_loop off s1 l1 s2 l2 =
     (if l2 \<le> l1 then
        do { d \<leftarrow> memcmp s1 s2 l2;
             if d = 0 then Some (Some off)
             else strstr_loop (Suc off) (tl s1) (l1 - 1) s2 l2 }
      else Some None)"
  by pat_completeness auto
termination
proof (relation "measure (\<lambda>(off, s1, l1, s2, l2). unat l1)")
  fix off :: nat and s1 s2 :: "byte list" and l1 l2 :: u64 and d
  assume "l2 \<le> l1" "memcmp s1 s2 l2 = Some d" "d \<noteq> 0"
  moreover have "memcmp s1 s2 0 = Some 0"
    by (cases s1; cases s2) simp_all
  ultimately have "l1 \<noteq> 0"
    by (cases "l2 = 0") auto
  then show "((Suc off, tl s1, l1 - 1, s2, l2), (off, s1, l1, s2, l2))
      \<in> measure (\<lambda>(off, s1, l1, s2, l2). unat l1)"
    by (simp add: unat_minus_one unat_gt_0)
qed simp

declare strstr_loop.simps [simp del]

definition strstr :: "byte list \<Rightarrow> byte list \<Rightarrow> nat option option" where
  "strstr s1 s2 =
     do { l2 \<leftarrow> strlen s2;
          if l2 = 0 then Some (Some 0)
          else do { l1 \<leftarrow> strlen s1; strstr_loop 0 s1 l1 s2 l2 } }"

section \<open>Numbers\<close>

fun atol_blanks :: "byte list \<Rightarrow> byte list option" where
  "atol_blanks [] = None"
| "atol_blanks (c # s) = (if c = chr CHR '' '' \<or> c = 9 then atol_blanks s else Some (c # s))"

text \<open>
  The digit loop. The accumulator is a 64-bit word: the build has no optimisation
  and \<open>acc * 10 + c\<close> wraps.
\<close>

fun atol_digits :: "u64 \<Rightarrow> byte list \<Rightarrow> u64 option" where
  "atol_digits acc [] = None"
| "atol_digits acc (c # s) =
     (if c = 0 then Some acc
      else if sint c < 48 \<or> 57 < sint c then Some acc
      else atol_digits (acc * 10 + word_of_int (sint c - 48)) s)"

definition atol :: "byte list \<Rightarrow> u64 option" where
  "atol ptr =
     do { s \<leftarrow> atol_blanks ptr;
          case s of [] \<Rightarrow> None
          | c # s' \<Rightarrow>
              if c = chr CHR ''-'' then do { acc \<leftarrow> atol_digits 0 s'; Some (- acc) }
              else if c = chr CHR ''+'' then atol_digits 0 s'
              else atol_digits 0 s }"

section \<open>Writing strings\<close>

text \<open>
  \<open>strcat\<close> and \<open>strcpy\<close> write into the object \<open>dest\<close>; a store past its end is \<open>None\<close>.
  \<open>p\<close> is the offset of the cursor in \<open>dest\<close>.
\<close>

fun strcat_copy :: "byte list \<Rightarrow> nat \<Rightarrow> byte list \<Rightarrow> byte list option" where
  "strcat_copy dest p [] = None"
| "strcat_copy dest p (c # src) =
     (if p < length dest then
        if c \<noteq> 0 then strcat_copy (dest[p := c]) (Suc p) src else Some (dest[p := c])
      else None)"

definition strcat :: "byte list \<Rightarrow> byte list \<Rightarrow> byte list option" where
  "strcat dest src = do { n \<leftarrow> strlen dest; strcat_copy dest (unat n) src }"

definition strcpy :: "byte list \<Rightarrow> byte list \<Rightarrow> byte list option" where
  "strcpy dest src = (if dest = [] then None else strcat (dest[0 := 0]) src)"

text \<open>
  \<open>simple_glob\<close>, in two parts: up to the copy of the pattern, and the comparison
  after it. The local array \<open>copy\<close> has its (uninitialised) contents as an argument.
\<close>

definition glob_compare :: "bool \<Rightarrow> u64 \<Rightarrow> byte list \<Rightarrow> byte list \<Rightarrow> byte list \<Rightarrow> bool option" where
  "glob_compare star_start n copy text pattern =
     (let star_end = (0 < n \<and> pattern ! unat (n - 1) = chr CHR ''*'');
          n = (if star_end then n - 1 else n);
          copy = (if star_end then copy[unat n := 0] else copy)
      in
      if star_start \<and> star_end then do { r \<leftarrow> strstr text copy; Some (r \<noteq> None) }
      else if star_end then do { r \<leftarrow> strstr text copy; Some (r = Some 0) }
      else if star_start then
        do { text_len \<leftarrow> strlen text;
             if text_len < n then Some False
             else do { d \<leftarrow> strcmp (drop (unat (text_len - n)) text) copy; Some (d = 0) } }
      else do { d \<leftarrow> strcmp text copy; Some (d = 0) })"

definition simple_glob :: "byte list \<Rightarrow> byte list \<Rightarrow> byte list \<Rightarrow> bool option" where
  "simple_glob copy text pattern =
     do { n \<leftarrow> strlen pattern;
          if hd pattern = chr CHR ''*'' then
            do { copy \<leftarrow> strcpy copy (tl pattern);
                 glob_compare True (n - 1) copy text (tl pattern) }
          else
            do { copy \<leftarrow> strcpy copy pattern;
                 glob_compare False n copy text pattern } }"

section \<open>Memory regions\<close>

text \<open>\<open>memset\<close> and \<open>memcpy\<close>: the \<open>for\<close> loop over the index \<open>i\<close>.\<close>

function memset_loop :: "mem \<Rightarrow> addr \<Rightarrow> byte \<Rightarrow> u64 \<Rightarrow> u64 \<Rightarrow> mem" where
  "memset_loop m a c n i = (if i < n then memset_loop (m(a + i := c)) a c n (i + 1) else m)"
  by pat_completeness auto
termination
  by (relation "measure (\<lambda>(m, a, c, n, i). unat n - unat i)")
     (auto simp: unat_inc_less word_less_nat_alt)

function memcpy_loop :: "mem \<Rightarrow> addr \<Rightarrow> addr \<Rightarrow> u64 \<Rightarrow> u64 \<Rightarrow> mem" where
  "memcpy_loop m a b n i = (if i < n then memcpy_loop (m(a + i := m (b + i))) a b n (i + 1) else m)"
  by pat_completeness auto
termination
  by (relation "measure (\<lambda>(m, a, b, n, i). unat n - unat i)")
     (auto simp: unat_inc_less word_less_nat_alt)

declare memset_loop.simps [simp del] memcpy_loop.simps [simp del]

definition memset :: "mem \<Rightarrow> addr \<Rightarrow> u32 \<Rightarrow> u64 \<Rightarrow> mem" where
  "memset m s c n = memset_loop m s (ucast c) n 0"

definition memcpy :: "mem \<Rightarrow> addr \<Rightarrow> addr \<Rightarrow> u64 \<Rightarrow> mem" where
  "memcpy m dest src n = memcpy_loop m dest src n 0"

text \<open>\<open>memmove\<close>: \<open>while (n--)\<close> counts the remaining bytes down.\<close>

primrec memmove_fwd :: "nat \<Rightarrow> mem \<Rightarrow> addr \<Rightarrow> addr \<Rightarrow> mem" where
  "memmove_fwd 0 m d s = m"
| "memmove_fwd (Suc n) m d s = memmove_fwd n (m(d := m s)) (d + 1) (s + 1)"

primrec memmove_bwd :: "nat \<Rightarrow> mem \<Rightarrow> addr \<Rightarrow> addr \<Rightarrow> mem" where
  "memmove_bwd 0 m d s = m"
| "memmove_bwd (Suc n) m d s = memmove_bwd n (m(d - 1 := m (s - 1))) (d - 1) (s - 1)"

definition memmove :: "mem \<Rightarrow> addr \<Rightarrow> addr \<Rightarrow> u64 \<Rightarrow> mem" where
  "memmove m dest src n =
     (if dest \<le> src then memmove_fwd (unat n) m dest src
      else memmove_bwd (unat n) m (dest + n) (src + n))"


section \<open>Strings and their terminator\<close>

lemma strlen_from_cstring:
  "0 \<notin> set s \<Longrightarrow> strlen_from len (s @ 0 # r) = Some (len + of_nat (length s))"
  by (induction s arbitrary: len) (auto simp: algebra_simps)

lemma strlen_cstring [simp]: "0 \<notin> set s \<Longrightarrow> strlen (s @ 0 # r) = Some (of_nat (length s))"
  by (simp add: strlen_def strlen_from_cstring)

lemma strlen_from_unterminated: "0 \<notin> set s \<Longrightarrow> strlen_from len s = None"
  by (induction s arbitrary: len) auto

lemma unat_pred_less: "n \<noteq> 0 \<Longrightarrow> unat (n - 1 :: u64) = unat n - 1"
  by (simp add: unat_minus_one unat_gt_0)

lemma strncmp_cstring:
  assumes "0 \<notin> set a" "0 \<notin> set b" "length a < unat n"
  shows "\<exists>d. strncmp (a @ 0 # r) (b @ 0 # r') n = Some d \<and> (d = 0 \<longleftrightarrow> a = b)"
  using assms
proof (induction a arbitrary: b n)
  case Nil
  then show ?case
    by (cases b) (auto simp: unat_gt_0 signed_eq_0_iff)
next
  case (Cons x a)
  then have n: "n \<noteq> 0" by auto
  with Cons.prems have n1: "length a < unat (n - 1)"
    by (simp add: unat_pred_less)
  show ?case
  proof (cases b)
    case Nil
    then show ?thesis using Cons.prems n by (auto simp: signed_eq_0_iff)
  next
    case (Cons y b')
    then show ?thesis
      using Cons.IH [of b' "n - 1"] Cons.prems n n1 by (auto dest: signed_word_eqI)
  qed
qed

lemma strcmp_cstring:
  assumes "0 \<notin> set a" "0 \<notin> set b" "length a < 18446744073709551615"
  shows "\<exists>d. strcmp (a @ 0 # r) (b @ 0 # r') = Some d \<and> (d = 0 \<longleftrightarrow> a = b)"
  unfolding strcmp_def using assms by (intro strncmp_cstring) (simp_all add: SIZE_MAX_def)

lemma memcmp_take:
  assumes "unat n \<le> length a" "unat n \<le> length b"
  shows "\<exists>d. memcmp a b n = Some d \<and> (d = 0 \<longleftrightarrow> take (unat n) a = take (unat n) b)"
  using assms
proof (induction a b n rule: memcmp.induct)
  case (1 x a y b n)
  show ?case
  proof (cases "n = 0 \<or> uint x \<noteq> uint y")
    case True
    then show ?thesis
      by (cases "unat n") (auto simp: unat_eq_0)
  next
    case False
    then have "unat n = Suc (unat (n - 1))" "x = y" "n \<noteq> 0"
      by (auto simp: unat_pred_less unat_gt_0 unsigned_word_eqI)
    then show ?thesis
      using "1.IH" "1.prems" False by auto
  qed
qed (auto simp: unat_eq_0)

section \<open>Memory regions\<close>

lemma memset_loop_eq:
  "i \<le> n \<Longrightarrow> memset_loop m a c n i =
     (\<lambda>x. if unat i \<le> unat (x - a) \<and> unat (x - a) < unat n then c else m x)"
proof (induction m a c n i rule: memset_loop.induct)
  case (1 m a c n i)
  show ?case
  proof (cases "i < n")
    case True
    then have "i + 1 \<le> n" and i1: "unat (i + 1) = Suc (unat i)"
      by (auto simp: unat_inc_less word_le_nat_alt word_less_nat_alt)
    have "memset_loop m a c n i = memset_loop (m(a + i := c)) a c n (i + 1)"
      using True by (subst memset_loop.simps) simp
    also have "\<dots> = (\<lambda>x. if Suc (unat i) \<le> unat (x - a) \<and> unat (x - a) < unat n then c
             else (m(a + i := c)) x)"
      using "1.IH" [OF True \<open>i + 1 \<le> n\<close>] unfolding i1 .
    finally have "memset_loop m a c n i = \<dots>" .
    moreover have "x = a + i \<longleftrightarrow> unat (x - a) = unat i" for x
      by (metis add_diff_cancel_left' diff_add_cancel add.commute word_eq_of_unat)
    ultimately show ?thesis
      using True by (auto simp: fun_eq_iff word_less_nat_alt le_less_Suc_eq)
  next
    case False
    then show ?thesis
      using "1.prems" by (subst memset_loop.simps) (auto simp: fun_eq_iff)
  qed
qed

lemma memset_eq: "memset m a c n = (\<lambda>x. if in_range x a (unat n) then ucast c else m x)"
  by (simp add: memset_def memset_loop_eq in_range_def)

text \<open>
  A forward copy is right as long as the destination does not start inside the
  source, a backward copy as long as the source does not start inside the
  destination.
\<close>

lemma memmove_fwd_eq:
  assumes "d = s \<or> n \<le> unat (d - s)" "n < 18446744073709551616"
  shows "memmove_fwd n m d s = (\<lambda>x. if in_range x d n then m (s + (x - d)) else m x)"
  using assms
proof (induction n arbitrary: m d s)
  case 0
  then show ?case by (simp add: in_range_def)
next
  case (Suc n)
  show ?case
  proof
    fix x
    have IH: "memmove_fwd n (m(d := m s)) (d + 1) (s + 1) x =
        (if in_range x (d + 1) n then (m(d := m s)) (s + (x - d)) else (m(d := m s)) x)"
      using Suc.prems by (subst Suc.IH) (auto simp: algebra_simps)
    consider "x = d" | "x \<noteq> d" by blast
    then show "memmove_fwd (Suc n) m d s x =
        (if in_range x d (Suc n) then m (s + (x - d)) else m x)"
    proof cases
      case 1
      have "unat (- 1 :: u64) \<ge> n"
        using Suc.prems by (simp add: unsigned_minus_1_eq_mask mask_eq_exp_minus_1)
      then have "\<not> in_range d (d + 1) n"
        by (simp add: in_range_def)
      then show ?thesis using 1 IH by simp
    next
      case 2
      then have nz: "x - d \<noteq> 0" by simp
      then have "0 < unat (x - d)" by (simp only: unat_gt_0) simp
      then have sh: "in_range x (d + 1) n \<longleftrightarrow> in_range x d (Suc n)"
        using unat_pred_less [OF nz]
        by (auto simp: in_range_def diff_diff_eq [symmetric] simp del: unat_gt_0)
      have "s + (x - d) \<noteq> d" if "in_range x d (Suc n)"
      proof
        assume "s + (x - d) = d"
        then have "x - d = d - s" by (simp add: algebra_simps)
        then show False
          using that nz Suc.prems(1) by (auto simp: in_range_def)
      qed
      then show ?thesis
        using 2 by (auto simp: IH sh)
    qed
  qed
qed

lemma memmove_bwd_eq:
  assumes "d = s \<or> n \<le> unat (s - d)" "n < 18446744073709551616"
  shows "memmove_bwd n m (d + of_nat n) (s + of_nat n) =
    (\<lambda>x. if in_range x d n then m (s + (x - d)) else m x)"
  using assms
proof (induction n arbitrary: m)
  case 0
  then show ?case by (simp add: in_range_def)
next
  case (Suc n)
  let ?d = "d + of_nat n" and ?s = "s + of_nat n"
  have n: "unat (of_nat n :: u64) = n"
    using Suc.prems by simp
  show ?case
  proof
    fix x
    have IH: "memmove_bwd n (m(?d := m ?s)) ?d ?s x =
        (if in_range x d n then (m(?d := m ?s)) (s + (x - d)) else (m(?d := m ?s)) x)"
      using Suc.prems by (subst Suc.IH) auto
    have at: "x = ?d \<longleftrightarrow> unat (x - d) = n"
      by (metis n add_diff_cancel_left' diff_add_cancel add.commute word_eq_of_unat)
    have "s + (x - d) \<noteq> ?d" if "in_range x d n"
    proof
      assume "s + (x - d) = ?d"
      then have *: "s - d = of_nat n - (x - d)" by (simp add: algebra_simps)
      have "unat (of_nat n - (x - d)) = n - unat (x - d)"
        using that n by (simp add: in_range_def unat_diff_split)
      then show False
        using that Suc.prems(1) unfolding * [symmetric] in_range_def
        by (cases "d = s") auto
    qed
    then have "memmove_bwd n (m(?d := m ?s)) ?d ?s x =
        (if in_range x d (Suc n) then m (s + (x - d)) else m x)"
      using at by (auto simp: IH in_range_def less_Suc_eq)
    then show "memmove_bwd (Suc n) m (d + of_nat (Suc n)) (s + of_nat (Suc n)) x =
        (if in_range x d (Suc n) then m (s + (x - d)) else m x)"
      by (simp add: algebra_simps)
  qed
qed


lemma memcpy_loop_eq:
  assumes "i \<le> n" "a = b \<or> unat n \<le> unat (a - b)"
  shows "memcpy_loop m a b n i =
     (\<lambda>x. if unat i \<le> unat (x - a) \<and> unat (x - a) < unat n then m (b + (x - a)) else m x)"
  using assms
proof (induction m a b n i rule: memcpy_loop.induct)
  case (1 m a b n i)
  show ?case
  proof (cases "i < n")
    case True
    then have "i + 1 \<le> n" and i1: "unat (i + 1) = Suc (unat i)"
      by (auto simp: unat_inc_less word_le_nat_alt word_less_nat_alt)
    have "memcpy_loop m a b n i = memcpy_loop (m(a + i := m (b + i))) a b n (i + 1)"
      using True by (subst memcpy_loop.simps) simp
    also have "\<dots> = (\<lambda>x. if Suc (unat i) \<le> unat (x - a) \<and> unat (x - a) < unat n
             then (m(a + i := m (b + i))) (b + (x - a)) else (m(a + i := m (b + i))) x)"
      using "1.IH" [OF True \<open>i + 1 \<le> n\<close> "1.prems"(2)] unfolding i1 .
    finally have step: "memcpy_loop m a b n i = \<dots>" .
    have at: "x = a + i \<longleftrightarrow> unat (x - a) = unat i" for x
      by (metis add_diff_cancel_left' diff_add_cancel add.commute word_eq_of_unat)
    have src: "b + (x - a) \<noteq> a + i" if "Suc (unat i) \<le> unat (x - a)" "unat (x - a) < unat n" for x
    proof
      assume "b + (x - a) = a + i"
      then have *: "a - b = (x - a) - i" by (simp add: algebra_simps)
      then have "unat (a - b) = unat (x - a) - unat i"
        using that unfolding * by (subst unat_diff_split) simp
      then show False
        using that "1.prems"(2) by (cases "a = b") auto
    qed
    show ?thesis
    proof
      fix x
      consider "x = a + i" | "unat (x - a) < unat i" | "unat i < unat (x - a)"
        using at by (meson linorder_neqE_nat)
      then show "memcpy_loop m a b n i x =
          (if unat i \<le> unat (x - a) \<and> unat (x - a) < unat n then m (b + (x - a)) else m x)"
        using True src [of x] at [of x] unfolding step
        by cases (auto simp: word_less_nat_alt)
    qed
  next
    case False
    then show ?thesis
      using "1.prems" by (subst memcpy_loop.simps) (auto simp: fun_eq_iff)
  qed
qed

lemma memcpy_eq:
  "a = b \<or> unat n \<le> unat (a - b) \<Longrightarrow>
   memcpy m a b n = (\<lambda>x. if in_range x a (unat n) then m (b + (x - a)) else m x)"
  by (simp add: memcpy_def memcpy_loop_eq in_range_def)

section \<open>Searching\<close>

definition first_match :: "byte list \<Rightarrow> byte list \<Rightarrow> nat \<Rightarrow> nat option" where
  "first_match text pat off = List.find (\<lambda>i. prefix pat (drop i text)) [off..<Suc (length text)]"

lemma prefix_iff_take: "prefix p s \<longleftrightarrow> length p \<le> length s \<and> take (length p) s = p"
  by (metis append_eq_conv_conj append_take_drop_id length_take min.absorb2 prefix_def prefix_length_le)

lemma first_match_short:
  assumes "length text < off + length pat"
  shows "first_match text pat off = None"
proof -
  have "\<not> prefix pat (drop i text)" if "off \<le> i" "i \<le> length text" for i
    using assms that prefix_length_le [of pat "drop i text"] by auto
  then show ?thesis
    by (auto simp: first_match_def find_None_iff)
qed

lemma first_match_step:
  "off \<le> length text \<Longrightarrow> first_match text pat off =
     (if prefix pat (drop off text) then Some off else first_match text pat (Suc off))"
  by (simp add: first_match_def upt_conv_Cons del: upt_Suc)

lemma strstr_loop_first_match:
  assumes "pat \<noteq> []" "length text < 18446744073709551616" "off \<le> length text"
    "length pat < 18446744073709551616"
  shows "strstr_loop off (drop off text @ 0 # r) (of_nat (length text - off)) (pat @ 0 # r')
      (of_nat (length pat)) = Some (first_match text pat off)"
  using assms(3)
proof (induction "length text - off" arbitrary: off)
  case 0
  then have "off = length text" by simp
  moreover have "(of_nat (length pat) :: u64) \<noteq> 0"
    using assms by (metis length_0_conv unat_of_nat_u64 unsigned_0)
  ultimately show ?case
    using assms by (subst strstr_loop.simps) (simp add: first_match_short)
next
  case (Suc k)
  have len: "unat (of_nat (length pat) :: u64) = length pat"
    "unat (of_nat (length text - off) :: u64) = length text - off"
    using assms by simp_all
  show ?case
  proof (cases "length pat \<le> length text - off")
    case False
    then show ?thesis
      using len by (subst strstr_loop.simps) (simp add: first_match_short word_le_nat_alt)
  next
    case True
    obtain d where d: "memcmp (drop off text @ 0 # r) (pat @ 0 # r') (of_nat (length pat)) = Some d"
      "d = 0 \<longleftrightarrow> take (length pat) (drop off text) = pat"
      using memcmp_take [of "of_nat (length pat)" "drop off text @ 0 # r" "pat @ 0 # r'"] True len
      by auto
    then have d0: "d = 0 \<longleftrightarrow> prefix pat (drop off text)"
      using True by (simp add: prefix_iff_take)
    have tl: "tl (drop off text @ 0 # r) = drop (Suc off) text @ 0 # r"
      using Suc.hyps(2) by (simp add: tl_append2 drop_Suc tl_drop)
    have pred: "(of_nat (length text - off) :: u64) - 1 = of_nat (length text - Suc off)"
    proof -
      have *: "length text - off = Suc (length text - Suc off)"
        using Suc.hyps(2) by linarith
      show ?thesis unfolding * by simp
    qed
    have IH: "strstr_loop (Suc off) (drop (Suc off) text @ 0 # r) (of_nat (length text - Suc off))
        (pat @ 0 # r') (of_nat (length pat)) = Some (first_match text pat (Suc off))"
      using Suc.hyps(2) by (intro Suc.hyps(1)) simp_all
    have "strstr_loop off (drop off text @ 0 # r) (of_nat (length text - off)) (pat @ 0 # r')
        (of_nat (length pat)) =
      (if d = 0 then Some (Some off)
       else strstr_loop (Suc off) (tl (drop off text @ 0 # r)) (of_nat (length text - off) - 1)
         (pat @ 0 # r') (of_nat (length pat)))"
      using True len d(1) by (subst strstr_loop.simps) (simp add: word_le_nat_alt)
    then show ?thesis
      unfolding tl pred IH using d0 first_match_step [OF Suc.prems] by simp
  qed
qed

lemma strstr_cstring:
  assumes "0 \<notin> set text" "0 \<notin> set pat" "length text < 18446744073709551616"
    "length pat < 18446744073709551616"
  shows "strstr (text @ 0 # r) (pat @ 0 # r') = Some (first_match text pat 0)"
proof (cases "pat = []")
  case True
  then show ?thesis
    by (simp add: strstr_def strlen_def first_match_step)
next
  case False
  then have "(of_nat (length pat) :: u64) \<noteq> 0"
    using assms by (metis length_0_conv unat_of_nat_u64 unsigned_0)
  then show ?thesis
    using assms False strstr_loop_first_match [of pat "text" 0 r r']
    by (simp add: strstr_def)
qed

lemma first_match_None: "first_match text pat 0 = None \<longleftrightarrow> \<not> (\<exists>pre post. text = pre @ pat @ post)"
proof
  assume n: "first_match text pat 0 = None"
  have False if "text = pre @ pat @ post" for pre post
  proof -
    have "prefix pat (drop (length pre) text)" "length pre \<le> length text"
      using that by auto
    then show False
      using n unfolding first_match_def find_None_iff
      by (metis atLeastLessThan_iff le0 less_Suc_eq_le set_upt)
  qed
  then show "\<not> (\<exists>pre post. text = pre @ pat @ post)" by blast
next
  assume "\<not> (\<exists>pre post. text = pre @ pat @ post)"
  then have "\<not> prefix pat (drop i text)" for i
    by (metis append_take_drop_id prefix_def)
  then show "first_match text pat 0 = None"
    by (simp add: first_match_def find_None_iff)
qed

lemma first_match_Some_0: "first_match text pat 0 = Some 0 \<longleftrightarrow> prefix pat text"
proof -
  have "first_match text pat (Suc 0) \<noteq> Some 0"
    by (auto simp: first_match_def find_Some_iff simp del: upt_Suc)
  then show ?thesis
    by (subst first_match_step) auto
qed

section \<open>Copying strings\<close>

lemma strcat_copy_cstring:
  assumes "0 \<notin> set s" "p + length s < length dest"
  shows "strcat_copy dest p (s @ 0 # r) = Some (take p dest @ s @ 0 # drop (Suc (p + length s)) dest)"
  using assms
proof (induction s arbitrary: dest p)
  case Nil
  then show ?case by (simp add: upd_conv_take_nth_drop)
next
  case (Cons c s)
  then have "strcat_copy (dest[p := c]) (Suc p) (s @ 0 # r) =
      Some (take (Suc p) (dest[p := c]) @ s @ 0 # drop (Suc (Suc p + length s)) (dest[p := c]))"
    by simp
  then show ?case
    using Cons.prems by (auto simp: take_Suc_conv_app_nth)
qed

lemma strcat_copy_overrun:
  "0 \<notin> set s \<Longrightarrow> length dest \<le> p + length s \<Longrightarrow> strcat_copy dest p (s @ 0 # r) = None"
  by (induction s arbitrary: dest p) auto

lemma strcpy_cstring:
  assumes "0 \<notin> set s" "length s < length dest"
  shows "strcpy dest (s @ 0 # r) = Some (s @ 0 # drop (Suc (length s)) dest)"
  using assms
  by (cases dest) (auto simp: strcpy_def strcat_def strlen_def strcat_copy_cstring)


text \<open>What \<open>simple_glob\<close> is to compute: a star is allowed at either end of the pattern.\<close>

definition glob_matches :: "byte list \<Rightarrow> byte list \<Rightarrow> bool" where
  "glob_matches t pattern =
     (let star_start = (pattern \<noteq> [] \<and> hd pattern = chr CHR ''*'');
          q = (if star_start then tl pattern else pattern);
          star_end = (q \<noteq> [] \<and> last q = chr CHR ''*'');
          core = (if star_end then butlast q else q)
      in \<exists>pre post. t = pre @ core @ post \<and> (star_start \<or> pre = []) \<and> (star_end \<or> post = []))"

lemma suffix_eq_drop:
  "(\<exists>pre. t = pre @ q) \<longleftrightarrow> length q \<le> length t \<and> drop (length t - length q) t = q"
  by (metis add_diff_cancel_right' append_eq_conv_conj append_take_drop_id le_add2 length_append)

text \<open>The four ways the function ends, on a text and a core without terminators inside.\<close>

lemma glob_infix:
  assumes "0 \<notin> set t" "0 \<notin> set q" "length t < 18446744073709551615" "length q < 18446744073709551615"
  shows "strstr (t @ [0]) (q @ 0 # r) = Some (first_match t q 0)"
    and "first_match t q 0 \<noteq> None \<longleftrightarrow> (\<exists>pre post. t = pre @ q @ post)"
    and "first_match t q 0 = Some 0 \<longleftrightarrow> (\<exists>post. t = q @ post)"
  using assms first_match_None [of t q]
  by (auto simp: strstr_cstring first_match_Some_0 prefix_def)

lemma glob_suffix:
  assumes "0 \<notin> set t" "0 \<notin> set q" "length t < 18446744073709551615" "length q \<le> length t"
  shows "\<exists>d. strcmp (drop (length t - length q) (t @ [0])) (q @ 0 # r) = Some d \<and>
    (d = 0 \<longleftrightarrow> (\<exists>pre. t = pre @ q))"
proof -
  have "0 \<notin> set (drop (length t - length q) t)"
    using assms(1) by (auto dest: in_set_dropD)
  then show ?thesis
    using strcmp_cstring [of "drop (length t - length q) t" q "[]" r] assms
    by (simp add: suffix_eq_drop)
qed


lemma last_index_u64:
  assumes "q \<noteq> []" "length q < 18446744073709551616"
  shows "(of_nat (length q) - 1 :: u64) = of_nat (length (butlast q))"
    and "unat (of_nat (length q) - 1 :: u64) = length (butlast q)"
proof -
  show eq: "(of_nat (length q) - 1 :: u64) = of_nat (length (butlast q))"
    using assms(1) by (cases q) auto
  show "unat (of_nat (length q) - 1 :: u64) = length (butlast q)"
    unfolding eq using assms by simp
qed

lemma glob_star_end:
  assumes "length q < 18446744073709551616"
  shows "0 < (of_nat (length q) :: u64) \<and> (q @ r) ! unat (of_nat (length q) - 1 :: u64) = c
    \<longleftrightarrow> q \<noteq> [] \<and> last q = c"
proof (cases q rule: rev_cases)
  case (snoc q' x)
  have "0 < (of_nat (length q) :: u64)"
    using assms snoc by (metis length_0_conv snoc_eq_iff_butlast unat_of_nat_u64 unsigned_0 word_neq_0_conv)
  then show ?thesis
    using snoc assms last_index_u64(2) [of q] by (auto simp: nth_append)
qed simp

lemma glob_cut:
  assumes "q \<noteq> []"
  shows "(q @ 0 # r)[length (butlast q) := 0] = butlast q @ 0 # 0 # r"
  using assms by (cases q rule: rev_cases) (simp_all add: list_update_append)

text \<open>The comparison half, when the pattern ends in a star and when it does not.\<close>

lemma glob_compare_star:
  assumes "0 \<notin> set t" "0 \<notin> set q" "length t < 18446744073709551615" "length q < 18446744073709551615"
    and q: "q \<noteq> []" "last q = chr CHR ''*''"
  shows "glob_compare star_start (of_nat (length q)) (q @ 0 # r) (t @ [0]) (q @ [0]) =
    Some (\<exists>pre post. t = pre @ butlast q @ post \<and> (star_start \<or> pre = []))"
proof -
  have se: "(0 < (of_nat (length q) :: u64) \<and>
      (q @ [0]) ! unat (of_nat (length q) - 1 :: u64) = chr CHR ''*'') = True"
    using glob_star_end [of q "[0]"] assms by simp
  have cut: "(q @ 0 # r)[unat (of_nat (length q) - 1 :: u64) := 0] = butlast q @ 0 # 0 # r"
    using assms by (simp add: last_index_u64(2) glob_cut del: length_butlast)
  have "0 \<notin> set (butlast q)" "length (butlast q) < 18446744073709551615"
    using assms by (auto dest: in_set_butlastD)
  note found = glob_infix [OF assms(1) this(1) assms(3) this(2)]
  show ?thesis
    unfolding glob_compare_def Let_def se cut if_True
    using found(2,3) by (cases star_start) (simp_all add: found(1))
qed

lemma glob_compare_plain:
  assumes "0 \<notin> set t" "0 \<notin> set q" "length t < 18446744073709551615" "length q < 18446744073709551615"
    and q: "\<not> (q \<noteq> [] \<and> last q = chr CHR ''*'')"
  shows "glob_compare star_start (of_nat (length q)) (q @ 0 # r) (t @ [0]) (q @ [0]) =
    Some (\<exists>pre. t = pre @ q \<and> (star_start \<or> pre = []))"
proof -
  have se: "(0 < (of_nat (length q) :: u64) \<and>
      (q @ [0]) ! unat (of_nat (length q) - 1 :: u64) = chr CHR ''*'') = False"
    using glob_star_end [of q "[0]"] assms by simp
  have run: "glob_compare star_start (of_nat (length q)) (q @ 0 # r) (t @ [0]) (q @ [0]) =
      (if star_start then
         if length t < length q then Some False
         else do { d \<leftarrow> strcmp (drop (unat (of_nat (length t) - of_nat (length q) :: u64)) (t @ [0])) (q @ 0 # r);
                   Some (d = 0) }
       else do { d \<leftarrow> strcmp (t @ [0]) (q @ 0 # r); Some (d = 0) })"
    unfolding glob_compare_def Let_def se using assms by (simp add: word_less_nat_alt)
  show ?thesis
  proof (cases "star_start \<and> length q \<le> length t")
    case True
    then obtain d where "strcmp (drop (length t - length q) (t @ [0])) (q @ 0 # r) = Some d"
        "d = 0 \<longleftrightarrow> (\<exists>pre. t = pre @ q)"
      using glob_suffix [of t q r] assms by blast
    moreover have "unat (of_nat (length t) - of_nat (length q) :: u64) = length t - length q"
      using True assms by (simp flip: of_nat_diff)
    ultimately show ?thesis
      unfolding run using True by simp
  next
    case False
    then show ?thesis
      unfolding run using strcmp_cstring [of t q "[]" r] assms by auto
  qed
qed

lemma glob_compare_spec:
  assumes "0 \<notin> set t" "0 \<notin> set q" "length t < 18446744073709551615" "length q < 18446744073709551615"
  shows "glob_compare star_start (of_nat (length q)) (q @ 0 # r) (t @ [0]) (q @ [0]) =
    Some (let star_end = (q \<noteq> [] \<and> last q = chr CHR ''*'');
              core = (if star_end then butlast q else q)
          in \<exists>pre post. t = pre @ core @ post \<and> (star_start \<or> pre = []) \<and> (star_end \<or> post = []))"
proof (cases "q \<noteq> [] \<and> last q = chr CHR ''*''")
  case True
  then show ?thesis
    using glob_compare_star [OF assms] by (simp add: Let_def)
next
  case False
  show ?thesis
    by (simp add: glob_compare_plain [OF assms False] Let_def False)
qed

text \<open>
  C35. \<open>simple_glob\<close> decides glob matching with a star allowed at either end of the
  pattern, never reads or writes outside its objects, and its local copy of the
  pattern, one byte longer than the pattern, is large enough.
\<close>

theorem simple_glob_correct:
  assumes "0 \<notin> set t" "0 \<notin> set p" "length copy = Suc (length p)"
    "length t < 18446744073709551615" "length p < 18446744073709551615"
  shows "simple_glob copy (t @ [0]) (p @ [0]) = Some (glob_matches t p)"
proof (cases "p \<noteq> [] \<and> hd p = chr CHR ''*''")
  case True
  then obtain q where p: "p = chr CHR ''*'' # q" by (cases p) auto
  then have "strcpy copy (q @ [0]) = Some (q @ 0 # drop (Suc (length q)) copy)"
    using assms by (intro strcpy_cstring) auto
  then show ?thesis
    using assms p strlen_cstring [of p "[]"]
    by (simp add: simple_glob_def glob_compare_spec glob_matches_def)
next
  case False
  then have "hd (p @ [0]) \<noteq> chr CHR ''*''"
    by (cases p) (auto simp: chr_def)
  moreover have "strcpy copy (p @ [0]) = Some (p @ 0 # drop (Suc (length p)) copy)"
    using assms by (intro strcpy_cstring) auto
  ultimately show ?thesis
    using assms False strlen_cstring [of p "[]"] glob_compare_spec [of t p False]
    by (auto simp: simple_glob_def glob_matches_def Let_def)
qed


theorem simple_glob_witness:
  "simple_glob [7, 7, 7, 7, 7] (bytes_of ''memory'' @ [0]) (bytes_of ''mem*'' @ [0]) = Some True"
proof -
  have "glob_matches (bytes_of ''memory'') (bytes_of ''mem*'')"
    by (simp add: glob_matches_def bytes_of_def chr_def)
  then show ?thesis
    using simple_glob_correct [of "bytes_of ''memory''" "bytes_of ''mem*''" "[7, 7, 7, 7, 7]"]
    by (simp add: bytes_of_def chr_def)
qed

lemma memmove_eq:
  assumes "unat dest + unat n \<le> 18446744073709551616" "unat src + unat n \<le> 18446744073709551616"
  shows "memmove m dest src n = (\<lambda>x. if in_range x dest (unat n) then m (src + (x - dest)) else m x)"
proof (cases "dest \<le> src")
  case True
  have "dest = src \<or> unat n \<le> unat (dest - src)"
    using True assms by (cases "dest = src") (auto simp: unat_diff_split word_le_nat_alt dest: word_eq_of_unat)
  then show ?thesis
    using True by (simp add: memmove_def memmove_fwd_eq unat_lt_u64)
next
  case False
  have "dest = src \<or> unat n \<le> unat (src - dest)"
    using False assms by (auto simp: unat_diff_split word_le_nat_alt)
  then show ?thesis
    using False memmove_bwd_eq [of dest src "unat n" m] by (simp add: memmove_def unat_lt_u64)
qed

text \<open>
  \<open>memmove\<close> copies the \<open>n\<close> bytes at \<open>src\<close>, as they were before the call, to \<open>dest\<close>,
  whichever way the two regions overlap, and changes nothing outside the destination,
  provided neither region wraps around the end of the address space.
\<close>

theorem memmove_correct:
  assumes "unat dest + unat n \<le> 18446744073709551616" "unat src + unat n \<le> 18446744073709551616"
  shows "read_bytes (memmove m dest src n) dest (unat n) = read_bytes m src (unat n) \<and>
    (\<forall>x. \<not> in_range x dest (unat n) \<longrightarrow> memmove m dest src n x = m x)"
proof
  show "read_bytes (memmove m dest src n) dest (unat n) = read_bytes m src (unat n)"
    using unat_lt_u64 [of n]
    by (intro nth_equalityI) (simp_all add: memmove_eq [OF assms] in_range_offset)
  show "\<forall>x. \<not> in_range x dest (unat n) \<longrightarrow> memmove m dest src n x = m x"
    by (simp add: memmove_eq [OF assms])
qed

theorem memmove_witness:
  "read_bytes (memmove (\<lambda>x. ucast x) 2 0 4) 2 4 = [0, 1, 2, 3] \<and>
   memmove (\<lambda>x. ucast x) 2 0 4 9 = 9"
proof -
  have "\<not> in_range 9 2 4" by (simp add: in_range_def)
  then show ?thesis
    using memmove_correct [of 2 4 0 "\<lambda>x. ucast x"] by (simp add: read_bytes_def upt_rec)
qed

end
