(* ===== verification/Printf.thy ===== *)
theory Printf
  imports Cstring "HOL-Library.Signed_Division"
begin

text \<open>
  The formatted output of \<^verbatim>\<open>lib/printf.c\<close>.

  The destination of \<open>vsnprintf\<close> is an object, a list of bytes, with a cursor; a
  store outside of it, a read past the terminator of a string, an index outside the
  digit table and a missing or ill-typed variadic argument are the result \<open>None\<close>.
  The fields \<open>remain\<close> and \<open>added\<close> of \<open>pstream\<close> and the width \<open>npad\<close> are C \<open>int\<close>s, kept
  as 32-bit words and compared through \<open>sint\<close>. A variadic argument is an eight-byte
  slot, or the string a \<open>char *\<close> slot points to.
\<close>

section \<open>Streams and padding\<close>

record pstream =
  buf :: "byte list"
  buffer :: nat
  remain :: u32
  added :: u32

record strprops =
  pad :: byte
  npad :: u32
  alternate :: bool

definition addchar :: "pstream \<Rightarrow> byte \<Rightarrow> pstream option" where
  "addchar p c =
     (if remain p \<noteq> 0 then
        if buffer p < length (buf p) then
          Some (p\<lparr>buf := (buf p)[buffer p := c], buffer := Suc (buffer p),
                  remain := remain p - 1, added := added p + 1\<rparr>)
        else None
      else Some (p\<lparr>added := added p + 1\<rparr>))"

lemma sint_pred_u32: "0 < sint (n :: u32) \<Longrightarrow> sint (n - 1) = sint n - 1"
proof -
  assume "0 < sint n"
  moreover have "sint n < 2147483648" "- 2147483648 \<le> sint n"
    using sint_lt [of n] sint_ge [of n] by simp_all
  ultimately have "signed_take_bit 31 (sint n - 1) = sint n - 1"
    by (intro signed_take_bit_int_eq_self) simp_all
  moreover have "sint (word_of_int (sint n - 1) :: u32) = signed_take_bit 31 (sint n - 1)"
    by (simp only: signed_of_int) simp
  ultimately show ?thesis by simp
qed

lemma sint_succ_u32: "sint (n :: u32) < 0 \<Longrightarrow> sint (n + 1) = sint n + 1"
proof -
  assume "sint n < 0"
  moreover have "sint n < 2147483648" "- 2147483648 \<le> sint n"
    using sint_lt [of n] sint_ge [of n] by simp_all
  ultimately have "signed_take_bit 31 (sint n + 1) = sint n + 1"
    by (intro signed_take_bit_int_eq_self) simp_all
  moreover have "sint (word_of_int (sint n + 1) :: u32) = signed_take_bit 31 (sint n + 1)"
    by (simp only: signed_of_int) simp
  ultimately show ?thesis by simp
qed

function pad_left :: "pstream \<Rightarrow> byte \<Rightarrow> u32 \<Rightarrow> (pstream \<times> u32) option" where
  "pad_left p c n =
     (if 0 < sint n then do { p \<leftarrow> addchar p c; pad_left p c (n - 1) } else Some (p, n))"
  by pat_completeness auto
termination
  by (relation "measure (\<lambda>(p, c, n). nat (sint n))") (auto simp: sint_pred_u32)

function pad_right :: "pstream \<Rightarrow> byte \<Rightarrow> u32 \<Rightarrow> pstream option" where
  "pad_right p c n =
     (if sint n < 0 then do { p \<leftarrow> addchar p c; pad_right p c (n + 1) } else Some p)"
  by pat_completeness auto
termination
  by (relation "measure (\<lambda>(p, c, n). nat (- sint n))") (auto simp: sint_succ_u32)

declare pad_left.simps [simp del] pad_right.simps [simp del]

fun put_str :: "pstream \<Rightarrow> byte list \<Rightarrow> pstream option" where
  "put_str p [] = None"
| "put_str p (c # s) = (if c \<noteq> 0 then do { p \<leftarrow> addchar p c; put_str p s } else Some p)"

definition print_str :: "pstream \<Rightarrow> byte list \<Rightarrow> strprops \<Rightarrow> pstream option" where
  "print_str p s props =
     do { (p, np) \<leftarrow>
            (if 0 < sint (npad props)
             then do { len \<leftarrow> strlen s; pad_left p (pad props) (npad props - ucast len) }
             else Some (p, npad props));
          p \<leftarrow> put_str p s;
          if sint np < 0
          then do { len \<leftarrow> strlen s; pad_right p (chr CHR '' '') (np + ucast len) }
          else Some p }"

section \<open>Numbers\<close>

definition digits :: "byte list" where
  "digits = bytes_of ''0123456789abcdef''"

text \<open>
  The local array of a conversion is the list of the bytes written so far, with the
  array's size \<open>cap\<close> as a bound. The division truncates, as C has it.
\<close>

definition push :: "nat \<Rightarrow> byte list \<Rightarrow> byte \<Rightarrow> byte list option" where
  "push cap b c = (if length b < cap then Some (b @ [c]) else None)"

partial_function (option) conv_digits :: "int \<Rightarrow> int \<Rightarrow> nat \<Rightarrow> byte list \<Rightarrow> byte list option" where
  "conv_digits n base cap b =
     (if n = 0 then Some b
      else if 0 \<le> n smod base \<and> n smod base < 16 then
        do { b \<leftarrow> push cap b (digits ! nat (n smod base)); conv_digits (n sdiv base) base cap b }
      else None)"

function rev_loop :: "byte list \<Rightarrow> nat \<Rightarrow> byte list" where
  "rev_loop b i =
     (if i < length b div 2
      then rev_loop (b[i := b ! (length b - 1 - i), length b - 1 - i := b ! i]) (Suc i)
      else b)"
  by pat_completeness auto
termination
  by (relation "measure (\<lambda>(b, i). length b div 2 - i)") auto

declare rev_loop.simps [simp del]

definition print_int :: "pstream \<Rightarrow> u64 \<Rightarrow> int \<Rightarrow> strprops \<Rightarrow> pstream option" where
  "print_int ps n base props =
     do { b \<leftarrow> conv_digits (if sint n < 0 then sint (- n) else sint n) base 26 [];
          b \<leftarrow> (if sint n < 0 then push 26 b (chr CHR ''-'') else Some b);
          b \<leftarrow> (if b = [] then push 26 b (chr CHR ''0'') else Some b);
          b \<leftarrow> push 26 (rev_loop b 0) 0;
          print_str ps b props }"

definition print_unsigned :: "pstream \<Rightarrow> u64 \<Rightarrow> int \<Rightarrow> strprops \<Rightarrow> pstream option" where
  "print_unsigned ps n base props =
     do { b \<leftarrow> conv_digits (uint n) base 27 [];
          (ps, b, props) \<leftarrow>
            (if b = [] then do { b \<leftarrow> push 27 b (chr CHR ''0''); Some (ps, b, props) }
             else if alternate props \<and> base = 16 then
               if pad props = chr CHR ''0'' then
                 do { ps \<leftarrow> addchar ps (chr CHR ''0'');
                      ps \<leftarrow> addchar ps (chr CHR ''x'');
                      Some (ps, b,
                        if 0 < sint (npad props)
                        then props\<lparr>npad := (if 0 < sint (npad props - 2) then npad props - 2 else 0)\<rparr>
                        else props) }
               else
                 do { b \<leftarrow> push 27 b (chr CHR ''x'');
                      b \<leftarrow> push 27 b (chr CHR ''0'');
                      Some (ps, b, props) }
             else Some (ps, b, props));
          b \<leftarrow> push 27 (rev_loop b 0) 0;
          print_str ps b props }"

section \<open>Format strings\<close>

fun digit_run :: "byte list \<Rightarrow> nat option" where
  "digit_run [] = None"
| "digit_run (c # f) =
     (if 48 \<le> sint c \<and> sint c \<le> 57 then map_option Suc (digit_run f) else Some 0)"

definition fmtnum :: "byte list \<Rightarrow> (u32 \<times> byte list) option" where
  "fmtnum fmt =
     (case fmt of [] \<Rightarrow> None
      | c # f \<Rightarrow>
          do { len \<leftarrow> (if c = chr CHR ''-'' then map_option Suc (digit_run f) else digit_run fmt);
               num \<leftarrow> atol fmt;
               Some (ucast num, drop len fmt) })"

lemma fmtnum_length: "fmtnum fmt = Some (w, fmt') \<Longrightarrow> length fmt' \<le> length fmt"
  by (auto simp: fmtnum_def split: list.splits if_splits bind_splits)

lemma fmtnum_progress:
  "fmtnum (c # f) = Some (w, fmt') \<Longrightarrow> c = chr CHR ''-'' \<or> (48 \<le> sint c \<and> sint c \<le> 57) \<Longrightarrow>
   length fmt' < Suc (length f)"
  by (auto simp: fmtnum_def split: if_splits bind_splits)

text \<open>
  The flags, width and length modifiers after a percent sign: the part of the
  \<open>switch\<close> whose cases end in \<open>goto morefmt\<close>. It stops at the conversion character.
\<close>

function morefmt :: "byte list \<Rightarrow> nat \<Rightarrow> strprops \<Rightarrow> (byte \<times> nat \<times> strprops \<times> byte list) option" where
  "morefmt [] nlong props = None"
| "morefmt (f # fmt) nlong props =
     (if f = chr CHR ''#'' then morefmt fmt nlong (props\<lparr>alternate := True\<rparr>)
      else if f = chr CHR ''0'' then
        do { (w, fmt) \<leftarrow> fmtnum fmt;
             morefmt fmt nlong (props\<lparr>pad := chr CHR ''0'', npad := w\<rparr>) }
      else if (49 \<le> sint f \<and> sint f \<le> 57) \<or> f = chr CHR ''-'' then
        do { (w, fmt) \<leftarrow> fmtnum (f # fmt); morefmt fmt nlong (props\<lparr>npad := w\<rparr>) }
      else if f = chr CHR ''l'' then morefmt fmt (Suc nlong) props
      else if f = chr CHR ''t'' \<or> f = chr CHR ''z'' then morefmt fmt 1 props
      else Some (f, nlong, props, fmt))"
  by pat_completeness auto
termination
  by (relation "measure (\<lambda>(fmt, nlong, props). length fmt)")
     (auto dest: fmtnum_length fmtnum_progress)

datatype va_arg = VInt u64 | VStr "byte list"

definition va_next :: "va_arg list \<Rightarrow> (u64 \<times> va_arg list) option" where
  "va_next va = (case va of VInt w # va \<Rightarrow> Some (w, va) | _ \<Rightarrow> None)"

text \<open>\<open>va_arg\<close> at the types \<open>int\<close> and \<open>unsigned\<close>, and at the 64-bit types.\<close>

definition va_signed :: "nat \<Rightarrow> u64 \<Rightarrow> u64" where
  "va_signed nlong w = (if nlong = 0 then word_of_int (sint (ucast w :: u32)) else w)"

definition va_unsigned :: "nat \<Rightarrow> u64 \<Rightarrow> u64" where
  "va_unsigned nlong w = (if nlong = 0 then ucast (ucast w :: u32) else w)"

text \<open>
  The cases of the \<open>switch\<close> that print: the conversions. The terminator, which the
  code hands back to the outer loop, is the case of \<open>vsn_loop\<close>.
\<close>

definition convert :: "pstream \<Rightarrow> byte \<Rightarrow> nat \<Rightarrow> strprops \<Rightarrow> va_arg list \<Rightarrow>
    (pstream \<times> va_arg list) option" where
  "convert s f nlong props va =
     (if f = chr CHR ''%'' then do { s \<leftarrow> addchar s (chr CHR ''%''); Some (s, va) }
      else if f = chr CHR ''c'' then
        do { (w, va) \<leftarrow> va_next va; s \<leftarrow> addchar s (ucast w); Some (s, va) }
      else if f = chr CHR ''d'' then
        do { (w, va) \<leftarrow> va_next va; s \<leftarrow> print_int s (va_signed nlong w) 10 props; Some (s, va) }
      else if f = chr CHR ''u'' then
        do { (w, va) \<leftarrow> va_next va; s \<leftarrow> print_unsigned s (va_unsigned nlong w) 10 props;
             Some (s, va) }
      else if f = chr CHR ''x'' then
        do { (w, va) \<leftarrow> va_next va; s \<leftarrow> print_unsigned s (va_unsigned nlong w) 16 props;
             Some (s, va) }
      else if f = chr CHR ''p'' then
        do { (w, va) \<leftarrow> va_next va; s \<leftarrow> print_unsigned s w 16 (props\<lparr>alternate := True\<rparr>);
             Some (s, va) }
      else if f = chr CHR ''s'' then
        (case va of VStr str # va \<Rightarrow> do { s \<leftarrow> print_str s str props; Some (s, va) }
         | _ \<Rightarrow> None)
      else do { s \<leftarrow> addchar s f; Some (s, va) })"

definition props0 :: strprops where
  "props0 = \<lparr>pad = chr CHR '' '', npad = 0, alternate = False\<rparr>"

lemma morefmt_length: "morefmt fmt nlong props = Some (f, nl, pr, fmt') \<Longrightarrow> length fmt' < length fmt"
proof (induction fmt nlong props rule: morefmt.induct)
  case (2 f fmt nlong props)
  then show ?case
    by (fastforce split: if_splits bind_splits dest: fmtnum_length fmtnum_progress)
qed simp

function vsn_loop :: "pstream \<Rightarrow> byte list \<Rightarrow> va_arg list \<Rightarrow> pstream option" where
  "vsn_loop s [] va = None"
| "vsn_loop s (f # fmt) va =
     (if f = 0 then Some s
      else if f \<noteq> chr CHR ''%'' then do { s \<leftarrow> addchar s f; vsn_loop s fmt va }
      else do { (f, nlong, props, fmt) \<leftarrow> morefmt fmt 0 props0;
                if f = 0 then vsn_loop s (f # fmt) va
                else do { (s, va) \<leftarrow> convert s f nlong props va; vsn_loop s fmt va } })"
  by pat_completeness auto
termination
  by (relation "measure (\<lambda>(s, fmt, va). length fmt)")
     (auto dest!: morefmt_length)

definition vsnprintf :: "byte list \<Rightarrow> u32 \<Rightarrow> byte list \<Rightarrow> va_arg list \<Rightarrow> (byte list \<times> u32) option" where
  "vsnprintf b sz fmt va =
     do { s \<leftarrow> vsn_loop \<lparr>buf = b, buffer = 0, remain = sz - 1, added = 0\<rparr> fmt va;
          if buffer s < length (buf s) then Some ((buf s)[buffer s := 0], added s) else None }"

definition snprintf :: "byte list \<Rightarrow> u32 \<Rightarrow> byte list \<Rightarrow> va_arg list \<Rightarrow> (byte list \<times> u32) option" where
  "snprintf b sz fmt va = vsnprintf b sz fmt va"

definition BUFSZ :: nat where
  "BUFSZ = 2000"

text \<open>
  \<open>vprintf\<close> and \<open>printf\<close> format into a local buffer, whose first content is \<open>junk\<close>, and hand it
  to \<open>puts\<close>; in a \<open>__BARE_METAL\<close> build \<open>printf\<close> hands it to \<open>console_puts\<close> instead. The output
  function is an argument, on a state of its own.
\<close>

definition vprintf :: "(byte list \<Rightarrow> 's \<Rightarrow> 's option) \<Rightarrow> byte list \<Rightarrow> byte list \<Rightarrow> va_arg list \<Rightarrow>
    's \<Rightarrow> ('s \<times> u32) option" where
  "vprintf puts junk fmt va st =
     do { (b, r) \<leftarrow> vsnprintf junk (of_nat BUFSZ) fmt va; st \<leftarrow> puts b st; Some (st, r) }"

definition printf :: "bool \<Rightarrow> (byte list \<Rightarrow> 's \<Rightarrow> 's option) \<Rightarrow> (byte list \<Rightarrow> 's \<Rightarrow> 's option) \<Rightarrow>
    byte list \<Rightarrow> byte list \<Rightarrow> va_arg list \<Rightarrow> 's \<Rightarrow> ('s \<times> u32) option" where
  "printf bare_metal console_puts puts junk fmt va st =
     do { (b, r) \<leftarrow> vsnprintf junk (of_nat BUFSZ) fmt va;
          st \<leftarrow> (if bare_metal then console_puts b st else puts b st); Some (st, r) }"

section \<open>Binary numbers\<close>

definition BINSTR_SZ :: nat where
  "BINSTR_SZ = 80"

text \<open>The \<open>for (;;)\<close> loop of \<open>binstr\<close>: \<open>c\<close> is the cursor in \<open>out\<close>, \<open>i\<close> the bit counter.\<close>

function binstr_loop :: "u64 \<Rightarrow> byte list \<Rightarrow> nat \<Rightarrow> nat \<Rightarrow> (byte list \<times> nat) option" where
  "binstr_loop x out c i =
     (if length out \<le> c then None
      else let out = out[c := (if bit x (64 - i - 1) then chr CHR ''1'' else chr CHR ''0'')];
               c = Suc c; i = Suc i
           in if i = 64 then (if c < length out then Some (out[c := 0], c) else None)
              else if i mod 4 = 0 then
                (if c < length out then binstr_loop x (out[c := 39]) (Suc c) i else None)
              else binstr_loop x out c i)"
  by pat_completeness auto
termination
  by (relation "measure (\<lambda>(x, out, c, i). length out - c)") auto

declare binstr_loop.simps [simp del]

definition binstr :: "u64 \<Rightarrow> byte list \<Rightarrow> byte list option" where
  "binstr x out =
     do { (out, c) \<leftarrow> binstr_loop x out 0 0; if c + 1 = BINSTR_SZ then Some out else None }"

definition print_binstr :: "bool \<Rightarrow> (byte list \<Rightarrow> 's \<Rightarrow> 's option) \<Rightarrow> (byte list \<Rightarrow> 's \<Rightarrow> 's option) \<Rightarrow>
    byte list \<Rightarrow> byte list \<Rightarrow> u64 \<Rightarrow> 's \<Rightarrow> ('s \<times> u32) option" where
  "print_binstr bare_metal console_puts puts junk out x st =
     do { out \<leftarrow> binstr x out;
          printf bare_metal console_puts puts junk (bytes_of ''%s'' @ [0]) [VStr out] st }"


section \<open>What a stream receives\<close>

fun emit :: "pstream \<Rightarrow> byte list \<Rightarrow> pstream option" where
  "emit p [] = Some p"
| "emit p (c # s) = do { p \<leftarrow> addchar p c; emit p s }"

lemma emit_append: "emit p (s @ t) = do { p \<leftarrow> emit p s; emit p t }"
  by (induction s arbitrary: p) (auto split: bind_splits)

lemma put_str_emit: "0 \<notin> set s \<Longrightarrow> put_str p (s @ 0 # r) = emit p s"
  by (induction s arbitrary: p) (auto intro!: Option.bind_cong)

lemma pad_left_emit:
  "pad_left p c n =
     do { p \<leftarrow> emit p (replicate (nat (sint n)) c); Some (p, if 0 < sint n then 0 else n) }"
proof (induction p c n rule: pad_left.induct)
  case (1 p c n)
  show ?case
  proof (cases "0 < sint n")
    case True
    have "nat (sint n) = Suc (nat (sint (n - 1)))"
      using True by (simp add: sint_pred_u32)
    moreover have "(if 0 < sint (n - 1) then 0 else n - 1) = 0"
    proof (cases "sint n = 1")
      case True
      then have "sint n = sint (1 :: u32)" by simp
      then have "n = 1" by (rule signed_word_eqI)
      then show ?thesis by simp
    qed (use True in \<open>simp add: sint_pred_u32\<close>)
    ultimately show ?thesis
      using True by (subst pad_left.simps) (auto simp: "1.IH" intro!: Option.bind_cong)
  qed (subst pad_left.simps, simp)
qed

lemma pad_right_emit: "pad_right p c n = emit p (replicate (nat (- sint n)) c)"
proof (induction p c n rule: pad_right.induct)
  case (1 p c n)
  show ?case
  proof (cases "sint n < 0")
    case True
    then have "nat (- sint n) = Suc (nat (- sint (n + 1)))"
      by (simp add: sint_succ_u32)
    then show ?thesis
      using True by (subst pad_right.simps) (auto simp: "1.IH" intro!: Option.bind_cong)
  qed (subst pad_right.simps, simp)
qed

text \<open>A string in a field of \<open>w\<close> characters, flush right, or flush left for a negative \<open>w\<close>.\<close>

definition field :: "byte \<Rightarrow> int \<Rightarrow> byte list \<Rightarrow> byte list" where
  "field c w s =
     (if 0 < w then replicate (nat w - length s) c @ s
      else s @ replicate (nat (- w) - length s) (chr CHR '' ''))"

lemma sint_range_u32: "- 2147483648 \<le> sint (n :: u32)" "sint (n :: u32) < 2147483648"
  using sint_lt [of n] sint_ge [of n] by simp_all

lemma sint_of_int_u32:
  "- 2147483648 \<le> k \<Longrightarrow> k < 2147483648 \<Longrightarrow> sint (word_of_int k :: u32) = k"
  by (simp add: signed_of_int signed_take_bit_int_eq_self)

lemma ucast_of_nat_u32: "(ucast (of_nat l :: u64) :: u32) = of_nat l"
  by (rule bit_word_eqI) (simp add: bit_simps)

lemma sint_minus_len:
  assumes "0 < sint (n :: u32)" "l < 2147483648"
  shows "sint (n - ucast (of_nat l :: u64)) = sint n - int l"
proof -
  have "n - ucast (of_nat l :: u64) = word_of_int (sint n - int l)"
    by (simp add: ucast_of_nat_u32)
  moreover have "sint (word_of_int (sint n - int l) :: u32) = sint n - int l"
    using assms sint_range_u32 [of n] by (intro sint_of_int_u32) simp_all
  ultimately show ?thesis by simp
qed

lemma sint_plus_len:
  assumes "sint (n :: u32) < 0" "l < 2147483648"
  shows "sint (n + ucast (of_nat l :: u64)) = sint n + int l"
proof -
  have "n + ucast (of_nat l :: u64) = word_of_int (sint n + int l)"
    by (simp add: ucast_of_nat_u32)
  moreover have "sint (word_of_int (sint n + int l) :: u32) = sint n + int l"
    using assms sint_range_u32 [of n] by (intro sint_of_int_u32) simp_all
  ultimately show ?thesis by simp
qed

lemma print_str_emit:
  assumes "0 \<notin> set s" "length s < 2147483648"
  shows "print_str p (s @ 0 # r) props = emit p (field (pad props) (sint (npad props)) s)"
proof (cases "0 < sint (npad props)")
  case True
  define n where "n = npad props - ucast (of_nat (length s) :: u64)"
  define np where "np = (if 0 < sint n then 0 else n)"
  have "sint n = sint (npad props) - int (length s)"
    using True assms by (simp add: n_def sint_minus_len)
  then have len: "nat (sint n) = nat (sint (npad props)) - length s"
    by simp
  have right: "pad_right q c (np + ucast (of_nat (length s) :: u64)) = Some q" if "sint np < 0" for q c
    using True that by (simp add: pad_right_emit np_def n_def split: if_splits)
  have "print_str p (s @ 0 # r) props =
      do { p \<leftarrow> emit p (replicate (nat (sint n)) (pad props));
           p \<leftarrow> emit p s;
           if sint np < 0 then pad_right p (chr CHR '' '') (np + ucast (of_nat (length s) :: u64))
           else Some p }"
    unfolding print_str_def strlen_cstring [OF assms(1)]
    using True assms by (simp add: pad_left_emit put_str_emit np_def flip: n_def cong: if_cong)
  also have "\<dots> = do { p \<leftarrow> emit p (replicate (nat (sint n)) (pad props)); emit p s }"
    using right by (auto intro!: Option.bind_cong split: bind_splits)
  finally show ?thesis
    using True by (simp add: field_def emit_append len)
next
  case False
  have "nat (- sint (npad props + ucast (of_nat (length s) :: u64))) =
      nat (- sint (npad props)) - length s" if "sint (npad props) < 0"
    using that assms by (simp add: sint_plus_len)
  then show ?thesis
    using False assms
    by (cases "sint (npad props) < 0")
       (simp_all add: print_str_def put_str_emit pad_right_emit field_def emit_append)
qed


section \<open>Numerals\<close>

text \<open>The digits of a number, least significant first, and the numeral of a number.\<close>

fun rdigits :: "nat \<Rightarrow> nat \<Rightarrow> byte list" where
  "rdigits b n = (if n = 0 \<or> b < 2 then [] else digits ! (n mod b) # rdigits b (n div b))"

declare rdigits.simps [simp del]

definition numeral_of :: "nat \<Rightarrow> nat \<Rightarrow> byte list" where
  "numeral_of b n = (if n = 0 then [chr CHR ''0''] else rev (rdigits b n))"

definition signed_numeral :: "int \<Rightarrow> byte list" where
  "signed_numeral k = (if k < 0 then [chr CHR ''-''] else []) @ numeral_of 10 (nat \<bar>k\<bar>)"

lemma rdigits_0 [simp]: "rdigits b 0 = []"
  by (simp add: rdigits.simps)

lemma rdigits_pos: "0 < n \<Longrightarrow> 2 \<le> b \<Longrightarrow> rdigits b n = digits ! (n mod b) # rdigits b (n div b)"
  by (subst rdigits.simps) simp

lemma rdigits_eq_Nil: "2 \<le> b \<Longrightarrow> rdigits b n = [] \<longleftrightarrow> n = 0"
  by (subst rdigits.simps) simp

lemma rdigits_length: "2 \<le> b \<Longrightarrow> n < b ^ k \<Longrightarrow> length (rdigits b n) \<le> k"
proof (induction k arbitrary: n)
  case 0
  then show ?case by simp
next
  case (Suc k)
  then have "n div b < b ^ k"
    by (simp add: less_mult_imp_div_less mult.commute)
  then show ?case
    using Suc by (cases "n = 0") (simp_all add: rdigits_pos)
qed

lemma digits_nonzero: "d < 16 \<Longrightarrow> digits ! d \<noteq> 0"
proof -
  assume "d < 16"
  then have "d \<in> set [0..<16]" by simp
  then show ?thesis
    by (auto simp: digits_def bytes_of_def chr_def upt_rec)
qed

lemma mod_less_16: "2 \<le> b \<Longrightarrow> b \<le> 16 \<Longrightarrow> n mod b < (16 :: nat)"
  by (rule less_le_trans [of _ b]) simp_all

lemma rdigits_no_nul: "2 \<le> b \<Longrightarrow> b \<le> 16 \<Longrightarrow> 0 \<notin> set (rdigits b n)"
proof (induction b n rule: rdigits.induct)
  case (1 b n)
  have "n mod b < 16"
    using 1 by (simp add: mod_less_16)
  then show ?case
    using 1 digits_nonzero [of "n mod b"] by (subst rdigits.simps) auto
qed

lemma conv_digits_eq:
  assumes "2 \<le> b" "b \<le> 16" "length acc + length (rdigits b n) \<le> cap"
  shows "conv_digits (int n) (int b) cap acc = Some (acc @ rdigits b n)"
  using assms
proof (induction b n arbitrary: acc rule: rdigits.induct)
  case (1 b n)
  show ?case
  proof (cases "n = 0")
    case True
    then show ?thesis by (simp add: conv_digits.simps)
  next
    case False
    have r: "int n smod int b = int (n mod b)" "int n sdiv int b = int (n div b)"
      by (simp_all add: signed_modulo_int_def signed_divide_int_def zmod_int zdiv_int sgn_if)
    have m: "n mod b < 16"
      using 1 by (simp add: mod_less_16)
    have "conv_digits (int (n div b)) (int b) cap (acc @ [digits ! (n mod b)]) =
        Some ((acc @ [digits ! (n mod b)]) @ rdigits b (n div b))"
      using False 1 by (intro "1.IH") (simp_all add: rdigits_pos)
    then show ?thesis
      using False 1 m by (subst conv_digits.simps) (simp add: r push_def rdigits_pos)
  qed
qed

lemma length_rev_loop [simp]: "length (rev_loop b i) = length b"
  by (induction b i rule: rev_loop.induct) (subst rev_loop.simps, simp)

lemma nth_rev_loop:
  "k < length b \<Longrightarrow> rev_loop b i ! k =
     (if i \<le> k \<and> i + k < length b then b ! (length b - 1 - k) else b ! k)"
proof (induction b i rule: rev_loop.induct)
  case (1 b i)
  show ?case
  proof (cases "i < length b div 2")
    case True
    then show ?thesis
      using 1 by (subst rev_loop.simps) (auto simp: nth_list_update)
  next
    case False
    then have "b ! (length b - 1 - k) = b ! k" if "i \<le> k" "i + k < length b"
    proof -
      have "length b - 1 - k = k" using that False by linarith
      then show ?thesis by simp
    qed
    then show ?thesis
      using False by (subst rev_loop.simps) auto
  qed
qed

lemma rev_loop_rev: "rev_loop b 0 = rev b"
  by (rule nth_equalityI) (simp_all add: nth_rev_loop rev_nth)


lemma numeral_no_nul: "2 \<le> b \<Longrightarrow> b \<le> 16 \<Longrightarrow> 0 \<notin> set (numeral_of b n)"
  by (simp add: numeral_of_def rdigits_no_nul chr_def)

lemma rdigits_length_u64: "b = 10 \<or> b = 16 \<Longrightarrow> n < 18446744073709551616 \<Longrightarrow> length (rdigits b n) \<le> 20"
  using rdigits_length [of b n 20] by auto

text \<open>What \<open>print_unsigned\<close> prints: the numeral in its field, after \<open>0x\<close> with the \<open>#\<close> flag.\<close>

definition unsigned_text :: "strprops \<Rightarrow> nat \<Rightarrow> nat \<Rightarrow> byte list" where
  "unsigned_text props base n =
     (let w = sint (npad props); s = numeral_of base n in
      if n \<noteq> 0 \<and> alternate props \<and> base = 16 then
        if pad props = chr CHR ''0''
        then bytes_of ''0x'' @ field (pad props) (if 0 < w then max (w - 2) 0 else w) s
        else field (pad props) w (bytes_of ''0x'' @ s)
      else field (pad props) w s)"

lemma push_Some: "length b < cap \<Longrightarrow> push cap b c = Some (b @ [c])"
  by (simp add: push_def)

lemma width_less_2:
  "0 < sint (w :: u32) \<Longrightarrow> sint (if 0 < sint (w - 2) then w - 2 else 0) = max (sint w - 2) 0"
  using sint_minus_len [of w 2] by (simp add: ucast_of_nat_u32)

lemma print_unsigned_emit:
  assumes base: "base = 10 \<or> base = 16"
  shows "print_unsigned p n (int base) props = emit p (unsigned_text props base (unat n))"
proof -
  let ?d = "rdigits base (unat n)"
  have b: "2 \<le> base" "base \<le> 16" using base by auto
  have len: "length ?d \<le> 20"
    using base by (intro rdigits_length_u64) (auto simp: unat_lt_u64)
  have conv: "conv_digits (uint n) (int base) 27 [] = Some ?d"
    using conv_digits_eq [of base "[]" "unat n" 27] b len by simp
  have nul: "0 \<notin> set ?d" using b by (rule rdigits_no_nul)
  have nil: "?d = [] \<longleftrightarrow> unat n = 0" using b(1) by (rule rdigits_eq_Nil)
  have str: "print_str q (s @ [0]) pr = emit q (field (pad pr) (sint (npad pr)) s)"
    if "0 \<notin> set s" "length s < 27" for q s pr
    using that print_str_emit [of s q "[]" pr] by simp
  consider "unat n = 0" | "unat n \<noteq> 0" "\<not> (alternate props \<and> base = 16)"
    | "unat n \<noteq> 0" "alternate props" "base = 16" "pad props = chr CHR ''0''"
    | "unat n \<noteq> 0" "alternate props" "base = 16" "pad props \<noteq> chr CHR ''0''"
    by blast
  then show ?thesis
  proof cases
    case 1
    then show ?thesis
      using str [of "[chr CHR ''0'']"] conv nil
      by (simp add: print_unsigned_def push_Some rev_loop_rev unsigned_text_def numeral_of_def Let_def chr_def)
  next
    case 2
    have "print_unsigned p n (int base) props = print_str p (rev ?d @ [0]) props"
      using 2 conv nil len by (auto simp: print_unsigned_def push_Some rev_loop_rev)
    then show ?thesis
      using 2 str [of "rev ?d"] nul len by (auto simp: unsigned_text_def numeral_of_def Let_def)
  next
    case 3
    let ?pr = "if 0 < sint (npad props)
      then props\<lparr>npad := (if 0 < sint (npad props - 2) then npad props - 2 else 0)\<rparr> else props"
    have w: "sint (npad ?pr) = (if 0 < sint (npad props) then max (sint (npad props) - 2) 0 else sint (npad props))"
      "pad ?pr = pad props"
      using width_less_2 [of "npad props"] by simp_all
    have "print_unsigned p n (int base) props =
        do { q \<leftarrow> emit p (bytes_of ''0x''); print_str q (rev ?d @ [0]) ?pr }"
      using 3 conv nil len
      by (auto simp: print_unsigned_def push_Some rev_loop_rev bytes_of_def split: bind_splits)
    also have "\<dots> = do { q \<leftarrow> emit p (bytes_of ''0x''); emit q (field (pad ?pr) (sint (npad ?pr)) (rev ?d)) }"
      using str [of "rev ?d"] nul len by simp
    finally show ?thesis
      using 3 unfolding w by (simp add: unsigned_text_def numeral_of_def Let_def emit_append)
  next
    case 4
    have "print_unsigned p n (int base) props = print_str p (bytes_of ''0x'' @ rev ?d @ [0]) props"
      using 4 conv nil len by (auto simp: print_unsigned_def push_Some rev_loop_rev bytes_of_def)
    then show ?thesis
      using 4 str [of "bytes_of ''0x'' @ rev ?d"] nul len
      by (auto simp: unsigned_text_def numeral_of_def Let_def bytes_of_def chr_def)
  qed
qed

lemma print_int_emit:
  assumes "sint n \<noteq> - 9223372036854775808"
  shows "print_int p n 10 props = emit p (field (pad props) (sint (npad props)) (signed_numeral (sint n)))"
proof -
  define k where "k = nat \<bar>sint n\<bar>"
  have range: "- 9223372036854775808 \<le> sint n" "sint n < 9223372036854775808"
    using sint_ge [of n] sint_lt [of n] by simp_all
  have "sint (- n) = - sint n"
    using assms range signed_take_bit_int_eq_self [of 63 "- sint n"] by (simp add: sint_word_ariths)
  then have k: "(if sint n < 0 then sint (- n) else sint n) = int k"
    by (simp add: k_def)
  have len: "length (rdigits 10 k) \<le> 20"
    using range by (intro rdigits_length_u64) (auto simp: k_def)
  have nul: "0 \<notin> set (rdigits 10 k)" by (rule rdigits_no_nul) simp_all
  have nil: "rdigits 10 k = [] \<longleftrightarrow> k = 0" by (rule rdigits_eq_Nil) simp
  have conv: "conv_digits (int k) 10 26 [] = Some (rdigits 10 k)"
    using conv_digits_eq [of 10 "[]" k 26] len by simp
  have "print_int p n 10 props = print_str p (signed_numeral (sint n) @ [0]) props"
    unfolding print_int_def k conv
    using len nil by (auto simp: push_Some rev_loop_rev signed_numeral_def numeral_of_def k_def)
  moreover have "0 \<notin> set (signed_numeral (sint n))" "length (signed_numeral (sint n)) < 2147483648"
    using nul len by (auto simp: signed_numeral_def numeral_of_def chr_def k_def)
  ultimately show ?thesis
    using print_str_emit [of "signed_numeral (sint n)" p "[]" props] by simp
qed


section \<open>The text of a format\<close>

text \<open>
  The specification: the whole text a format and its arguments stand for, with no
  buffer. It is undefined where the code has no defined behaviour: a missing
  argument, a string without terminator, the most negative \<open>long long\<close>.
\<close>

definition conv_text :: "byte \<Rightarrow> nat \<Rightarrow> strprops \<Rightarrow> va_arg list \<Rightarrow> (byte list \<times> va_arg list) option" where
  "conv_text f nlong props va =
     (if f = chr CHR ''%'' then Some ([chr CHR ''%''], va)
      else if f = chr CHR ''c'' then do { (w, va) \<leftarrow> va_next va; Some ([ucast w], va) }
      else if f = chr CHR ''d'' then
        do { (w, va) \<leftarrow> va_next va;
             let k = sint (va_signed nlong w) in
             if k = - 9223372036854775808 then None
             else Some (field (pad props) (sint (npad props)) (signed_numeral k), va) }
      else if f = chr CHR ''u'' then
        do { (w, va) \<leftarrow> va_next va; Some (unsigned_text props 10 (unat (va_unsigned nlong w)), va) }
      else if f = chr CHR ''x'' then
        do { (w, va) \<leftarrow> va_next va; Some (unsigned_text props 16 (unat (va_unsigned nlong w)), va) }
      else if f = chr CHR ''p'' then
        do { (w, va) \<leftarrow> va_next va; Some (unsigned_text (props\<lparr>alternate := True\<rparr>) 16 (unat w), va) }
      else if f = chr CHR ''s'' then
        (case va of VStr str # va \<Rightarrow>
            if 0 \<in> set str \<and> length str < 2147483648
            then Some (field (pad props) (sint (npad props)) (takeWhile (\<lambda>c. c \<noteq> 0) str), va)
            else None
         | _ \<Rightarrow> None)
      else Some ([f], va))"

function render :: "byte list \<Rightarrow> va_arg list \<Rightarrow> byte list option" where
  "render [] va = None"
| "render (f # fmt) va =
     (if f = 0 then Some []
      else if f \<noteq> chr CHR ''%'' then do { out \<leftarrow> render fmt va; Some (f # out) }
      else do { (f, nlong, props, fmt) \<leftarrow> morefmt fmt 0 props0;
                if f = 0 then render (f # fmt) va
                else do { (s, va) \<leftarrow> conv_text f nlong props va;
                          out \<leftarrow> render fmt va; Some (s @ out) } })"
  by pat_completeness auto
termination
  by (relation "measure (\<lambda>(fmt, va). length fmt)") (auto dest!: morefmt_length)

lemma cstring_decomp:
  assumes "0 \<in> set (s :: byte list)"
  shows "s = takeWhile (\<lambda>c. c \<noteq> 0) s @ 0 # tl (dropWhile (\<lambda>c. c \<noteq> 0) s)"
proof -
  have "dropWhile (\<lambda>c. c \<noteq> 0) s \<noteq> []"
    using assms by (simp add: dropWhile_eq_Nil_conv)
  then have "dropWhile (\<lambda>c. c \<noteq> 0) s = 0 # tl (dropWhile (\<lambda>c. c \<noteq> 0) s)"
    using hd_dropWhile [of "\<lambda>c. c \<noteq> 0" s] by (metis list.collapse)
  then show ?thesis
    by (metis takeWhile_dropWhile_id)
qed

lemma print_str_takeWhile:
  assumes "0 \<in> set s" "length s < 2147483648"
  shows "print_str p s props = emit p (field (pad props) (sint (npad props)) (takeWhile (\<lambda>c. c \<noteq> 0) s))"
proof -
  have "0 \<notin> set (takeWhile (\<lambda>c. c \<noteq> 0) s)"
    by (auto dest: set_takeWhileD)
  moreover have "length (takeWhile (\<lambda>c. c \<noteq> 0) s) < 2147483648"
    using assms(2) length_takeWhile_le [of "\<lambda>c. c \<noteq> 0" s] by simp
  ultimately show ?thesis
    using print_str_emit [of "takeWhile (\<lambda>c. c \<noteq> 0) s" p] cstring_decomp [OF assms(1)] by metis
qed

lemma convert_emit:
  assumes "conv_text f nlong props va = Some (out, va')"
  shows "convert s f nlong props va = do { s \<leftarrow> emit s out; Some (s, va') }"
proof -
  consider "f = chr CHR ''%''" | "f = chr CHR ''c''" | "f = chr CHR ''d''" | "f = chr CHR ''u''"
    | "f = chr CHR ''x''" | "f = chr CHR ''p''" | "f = chr CHR ''s''"
    | "f \<notin> {chr CHR ''%'', chr CHR ''c'', chr CHR ''d'', chr CHR ''u'', chr CHR ''x'', chr CHR ''p'', chr CHR ''s''}"
    by blast
  then show ?thesis
  proof cases
    case 7
    then show ?thesis
      using assms
      by (auto simp: convert_def conv_text_def chr_def print_str_takeWhile
          split: list.splits va_arg.splits if_splits)
  qed (use assms print_unsigned_emit [of 10] print_unsigned_emit [of 16] in
      \<open>auto simp: convert_def conv_text_def chr_def Let_def print_int_emit va_next_def
        split: list.splits va_arg.splits if_splits bind_splits\<close>)
qed

lemma vsn_loop_emit: "render fmt va = Some out \<Longrightarrow> vsn_loop s fmt va = emit s out"
proof (induction s fmt va arbitrary: out rule: vsn_loop.induct)
  case (2 s f fmt va)
  show ?case
  proof (cases "f = 0 \<or> f \<noteq> chr CHR ''%''")
    case True
    then show ?thesis
      using 2 by (auto split: bind_splits if_splits)
  next
    case False
    then obtain f' nl pr fmt' where m: "morefmt fmt 0 props0 = Some (f', nl, pr, fmt')"
      using "2.prems" by (auto split: bind_splits)
    show ?thesis
    proof (cases "f' = 0")
      case True
      then show ?thesis
        using "2.prems" "2.IH"(2) False m by auto
    next
      case nz: False
      then obtain t va' rest where c: "conv_text f' nl pr va = Some (t, va')"
          "render fmt' va' = Some rest" "out = t @ rest"
        using "2.prems" False m by (auto split: bind_splits)
      have "convert s f' nl pr va = do { s \<leftarrow> emit s t; Some (s, va') }"
        using c(1) by (rule convert_emit)
      then show ?thesis
        using "2.prems" "2.IH"(3) False nz m c
        by (auto simp: emit_append split: bind_splits)
    qed
  qed
qed simp


section \<open>Where the text goes\<close>

lemma u32_pred_nat: "(n :: u32) \<noteq> 0 \<Longrightarrow> unat (n - 1) = unat n - 1"
  by (simp add: unat_minus_one unat_gt_0)

lemma emit_eq:
  assumes "buffer p + unat (remain p) < length (buf p)"
  shows "emit p s =
    (let k = min (length s) (unat (remain p)) in
     Some (p\<lparr>buf := take (buffer p) (buf p) @ take k s @ drop (buffer p + k) (buf p),
             buffer := buffer p + k, remain := remain p - of_nat k,
             added := added p + of_nat (length s)\<rparr>))"
  using assms
proof (induction s arbitrary: p)
  case Nil
  then show ?case by simp
next
  case (Cons c s)
  show ?case
  proof (cases "remain p = 0")
    case True
    then show ?thesis
      using Cons by (simp add: addchar_def Let_def algebra_simps)
  next
    case False
    let ?q = "p\<lparr>buf := (buf p)[buffer p := c], buffer := Suc (buffer p),
      remain := remain p - 1, added := added p + 1\<rparr>"
    obtain r where r: "unat (remain p) = Suc r" "unat (remain p - 1) = r"
      using False u32_pred_nat [OF False] unat_eq_0 [of "remain p"]
      by (cases "unat (remain p)") auto
    have "addchar p c = Some ?q"
      using False Cons.prems by (simp add: addchar_def)
    moreover have "emit ?q s =
      (let k = min (length s) (unat (remain ?q)) in
       Some (?q\<lparr>buf := take (buffer ?q) (buf ?q) @ take k s @ drop (buffer ?q + k) (buf ?q),
               buffer := buffer ?q + k, remain := remain ?q - of_nat k,
               added := added ?q + of_nat (length s)\<rparr>))"
      using Cons.prems r by (intro Cons.IH) simp
    ultimately show ?thesis
      using Cons.prems r by (simp add: Let_def take_Suc_conv_app_nth algebra_simps)
  qed
qed

text \<open>With no room counted, a stream whose \<open>remain\<close> is not 0 overruns its object.\<close>

lemma emit_overrun:
  assumes "length (buf p) < buffer p + length s" "buffer p \<le> length (buf p)"
    "length (buf p) - buffer p < unat (remain p)"
  shows "emit p s = None"
  using assms
proof (induction s arbitrary: p)
  case (Cons c s)
  have nz: "remain p \<noteq> 0" using Cons.prems(3) by auto
  then show ?case
    using Cons u32_pred_nat [OF nz] by (auto simp: addchar_def)
qed simp

lemma vsnprintf_eq:
  assumes "render fmt va = Some out" "sz \<noteq> 0" "unat sz \<le> length b"
  defines "k \<equiv> min (length out) (unat sz - 1)"
  shows "vsnprintf b sz fmt va = Some (take k out @ 0 # drop (Suc k) b, of_nat (length out))"
proof -
  have r: "unat (sz - 1) = unat sz - 1"
    using assms(2) by (rule u32_pred_nat)
  moreover have "0 < unat sz"
    using assms(2) by (simp only: unat_gt_0) simp
  ultimately have "unat (sz - 1) < length b"
    using assms(3) by linarith
  then have "emit \<lparr>buf = b, buffer = 0, remain = sz - 1, added = 0\<rparr> out =
      Some \<lparr>buf = take k out @ drop k b, buffer = k, remain = sz - 1 - of_nat k,
            added = of_nat (length out)\<rparr>"
    by (simp add: emit_eq Let_def k_def r)
  moreover have "k < length b" "length (take k out) = k"
    using \<open>unat (sz - 1) < length b\<close> r by (auto simp: k_def)
  ultimately show ?thesis
    using vsn_loop_emit [OF assms(1)]
    by (simp add: vsnprintf_def list_update_append Cons_nth_drop_Suc [symmetric])
qed



text \<open>
  Called with size 0, \<open>vsnprintf\<close> does not stop at the end of the destination: \<open>remain\<close>
  starts at -1, which counts as room, and any text longer than the destination is
  stored past its end.
\<close>

theorem vsnprintf_size_0_overruns:
  assumes "render fmt va = Some out" "length b < length out" "length b < 4294967295"
  shows "vsnprintf b 0 fmt va = None"
proof -
  have "emit \<lparr>buf = b, buffer = 0, remain = 0 - 1, added = 0\<rparr> out = None"
    using assms(2,3) by (intro emit_overrun) (simp_all add: unsigned_minus_1_eq_mask mask_eq_exp_minus_1)
  then show ?thesis
    using vsn_loop_emit [OF assms(1)] by (simp add: vsnprintf_def)
qed

theorem vsnprintf_size_0_witness: "vsnprintf [7, 7] 0 (bytes_of ''abc'' @ [0]) [] = None"
  using vsnprintf_size_0_overruns [of "bytes_of ''abc'' @ [0]" "[]" "bytes_of ''abc''" "[7, 7]"]
  by (simp add: bytes_of_def chr_def)

text \<open>
  The most negative \<open>long long\<close> cannot be printed: negating it leaves it negative, and
  the digit table is read at a negative index.
\<close>

theorem print_int_llong_min: "print_int p 9223372036854775808 10 props = None"
  by (simp add: print_int_def conv_digits.simps signed_modulo_int_def)


section \<open>Reading a printed number back\<close>

lemma atol_digits_append:
  assumes "\<forall>c \<in> set ds. 48 \<le> sint c \<and> sint c \<le> 57"
  shows "atol_digits acc (ds @ t) =
    atol_digits (foldl (\<lambda>a c. a * 10 + word_of_int (sint c - 48)) acc ds) t"
  using assms
proof (induction ds arbitrary: acc)
  case (Cons c ds)
  have "c \<noteq> 0" using Cons.prems by auto
  then show ?case using Cons by auto
qed simp

lemma decimal_digit: "d < 10 \<Longrightarrow> sint (digits ! d) = 48 + int d"
proof -
  assume "d < 10"
  then have "d \<in> set [0..<10]" by simp
  then show ?thesis
    by (auto simp: digits_def bytes_of_def chr_def upt_rec)
qed

lemma rdigits_decimal: "\<forall>c \<in> set (rdigits 10 n). 48 \<le> sint c \<and> sint c \<le> 57"
proof (induction n rule: less_induct)
  case (less n)
  show ?case
  proof (cases "n = 0")
    case False
    then show ?thesis
      using less [of "n div 10"] decimal_digit [of "n mod 10"] by (auto simp: rdigits_pos)
  qed simp
qed

lemma rdigits_value:
  "foldr (\<lambda>c a. a * 10 + word_of_int (sint c - 48)) (rdigits 10 n) 0 = (of_nat n :: u64)"
proof (induction n rule: less_induct)
  case (less n)
  show ?case
  proof (cases "n = 0")
    case False
    have "(of_nat (n div 10) :: u64) * 10 + of_nat (n mod 10) = of_nat (n div 10 * 10 + n mod 10)"
      by (simp only: of_nat_add of_nat_mult of_nat_numeral)
    moreover have "(word_of_int (sint (digits ! (n mod 10)) - 48) :: u64) = of_nat (n mod 10)"
      by (simp only: decimal_digit) simp
    ultimately show ?thesis
      using False less [of "n div 10"] by (simp add: rdigits_pos)
  qed simp
qed

lemma atol_digits_numeral: "atol_digits 0 (numeral_of 10 n @ 0 # r) = Some (of_nat n)"
proof (cases "n = 0")
  case True
  then show ?thesis by (simp add: numeral_of_def chr_def)
next
  case False
  then have "atol_digits 0 (numeral_of 10 n @ 0 # r) =
      atol_digits (foldl (\<lambda>a c. a * 10 + word_of_int (sint c - 48)) 0 (rev (rdigits 10 n))) (0 # r)"
    using rdigits_decimal [of n] by (simp add: numeral_of_def atol_digits_append)
  then show ?thesis
    by (simp only: foldl_conv_foldr rev_rev_ident rdigits_value) simp
qed

lemma numeral_first_digit:
  obtains c ds where "numeral_of 10 n = c # ds" "48 \<le> sint c" "sint c \<le> 57"
proof -
  have "numeral_of 10 n \<noteq> []"
    by (simp add: numeral_of_def rdigits_eq_Nil)
  moreover have "\<forall>c \<in> set (numeral_of 10 n). 48 \<le> sint c \<and> sint c \<le> 57"
    using rdigits_decimal [of n] by (simp add: numeral_of_def chr_def)
  ultimately show ?thesis
    using that by (metis list.exhaust list.set_intros(1))
qed

lemma atol_numeral: "atol (numeral_of 10 n @ 0 # r) = Some (of_nat n)"
proof -
  obtain c ds where c: "numeral_of 10 n = c # ds" "48 \<le> sint c" "sint c \<le> 57"
    by (rule numeral_first_digit)
  then have "c \<noteq> chr CHR '' ''" "c \<noteq> 9" "c \<noteq> chr CHR ''-''" "c \<noteq> chr CHR ''+''"
    by (auto simp: chr_def)
  then show ?thesis
    using c atol_digits_numeral [of n r] by (simp add: atol_def)
qed

text \<open>
  \<open>atol\<close> reads back the decimal numeral that a \<open>%d\<close> or \<open>%ld\<close> conversion prints: the
  signed number it stands for, for every \<open>long\<close>.
\<close>

theorem atol_signed_numeral: "atol (signed_numeral (sint n) @ 0 # r) = Some (n :: u64)"
proof (cases "sint n < 0")
  case False
  then show ?thesis
    using atol_numeral [of "nat (sint n)" r] by (simp add: signed_numeral_def)
next
  case True
  have "atol (chr CHR ''-'' # numeral_of 10 k @ 0 # r) = Some (- of_nat k)" for k
    by (simp add: atol_def chr_def atol_digits_numeral)
  then show ?thesis
    using True by (simp add: signed_numeral_def)
qed

section \<open>Binary strings\<close>

text \<open>The text of \<open>binstr\<close> from bit counter \<open>i\<close> on: 64 bits, an apostrophe before each group of four.\<close>

definition bit_char :: "u64 \<Rightarrow> nat \<Rightarrow> byte" where
  "bit_char x i = (if bit x (63 - i) then chr CHR ''1'' else chr CHR ''0'')"

definition bit_text :: "u64 \<Rightarrow> nat \<Rightarrow> byte list" where
  "bit_text x i =
     concat (map (\<lambda>j. (if j mod 4 = 0 \<and> i < j then [39] else []) @ [bit_char x j]) [i..<64])"

lemma length_bit_text: "length (bit_text x 0) = 79"
  by (simp add: bit_text_def length_concat upt_rec)

lemma bit_text_step:
  assumes "i < 63"
  shows "bit_text x i = bit_char x i # (if Suc i mod 4 = 0 then [39] else []) @ bit_text x (Suc i)"
proof -
  have "map (\<lambda>j. (if j mod 4 = 0 \<and> i < j then [39] else []) @ [bit_char x j]) [Suc (Suc i)..<64] =
      map (\<lambda>j. (if j mod 4 = 0 \<and> Suc i < j then [39] else []) @ [bit_char x j]) [Suc (Suc i)..<64]"
    by (rule map_cong) auto
  then show ?thesis
    using assms by (simp add: bit_text_def upt_conv_Cons del: map_eq_conv)
qed

lemma bit_text_last: "bit_text x 63 = [bit_char x 63]"
  by (simp add: bit_text_def upt_rec)

lemma take_Suc_update: "c < length xs \<Longrightarrow> take (Suc c) (xs[c := v]) = take c xs @ [v]"
  by (simp add: take_Suc_conv_app_nth)

lemma update_two:
  "Suc c < length xs \<Longrightarrow> xs[c := v, Suc c := w] = take c xs @ v # w # drop (Suc (Suc c)) xs"
  by (simp add: upd_conv_take_nth_drop [of "Suc c"] take_Suc_update)

lemma binstr_loop_text:
  assumes "i < 64" "c + length (bit_text x i) < length out"
  shows "binstr_loop x out c i =
    Some (take c out @ bit_text x i @ 0 # drop (Suc (c + length (bit_text x i))) out,
          c + length (bit_text x i))"
  using assms
proof (induction "63 - i" arbitrary: out c i)
  case 0
  then have i: "i = 63" by simp
  with 0 show ?case
    by (subst binstr_loop.simps) (simp add: bit_text_last bit_char_def update_two)
next
  case (Suc k)
  then have i: "i < 63" and k: "k = 63 - Suc i" by auto
  let ?sep = "if Suc i mod 4 = 0 then [39] else [] :: byte list"
  let ?out = "if Suc i mod 4 = 0 then out[c := bit_char x i, Suc c := 39] else out[c := bit_char x i]"
  let ?c = "Suc (c + length ?sep)"
  note step = bit_text_step [OF i, of x]
  have bounds: "?c + length (bit_text x (Suc i)) < length ?out"
    using Suc.prems step by (cases "Suc i mod 4 = 0") simp_all
  have "binstr_loop x out c i = binstr_loop x ?out ?c (Suc i)"
    using bounds i by (subst binstr_loop.simps) (auto simp: bit_char_def Let_def)
  also have "\<dots> = Some (take ?c ?out @ bit_text x (Suc i) @ 0 #
      drop (Suc (?c + length (bit_text x (Suc i)))) ?out, ?c + length (bit_text x (Suc i)))"
    using Suc.hyps(1) [OF k _ bounds] i by simp
  also have "take ?c ?out = take c out @ bit_char x i # ?sep"
    using bounds by (auto simp: take_Suc_update update_two)
  finally show ?case
    using step by simp
qed

lemma bit_text_no_nul: "0 \<notin> set (bit_text x i)"
  by (auto simp: bit_text_def bit_char_def chr_def)

lemma binstr_eq:
  assumes "length out = BINSTR_SZ"
  shows "binstr x out = Some (bit_text x 0 @ [0])"
  using assms binstr_loop_text [of 0 0 x out] by (simp add: binstr_def BINSTR_SZ_def length_bit_text)

lemma render_string:
  assumes "0 \<notin> set s" "length s < 2147483647"
  shows "render (bytes_of ''%s'' @ [0]) [VStr (s @ [0])] = Some s"
proof -
  have "takeWhile (\<lambda>c. c \<noteq> 0) (s @ [0]) = s"
    using assms(1) by (subst takeWhile_append2) auto
  then show ?thesis
    using assms(2) by (simp add: bytes_of_def chr_def props0_def conv_text_def field_def)
qed

section \<open>Printing to a character sink\<close>

text \<open>
  What \<open>printf\<close> relies on in its output function: in a state where the device makes progress,
  a terminated string is shown as the device shows it, and the state stays such a state.
\<close>

locale char_sink =
  fixes sink_puts :: "byte list \<Rightarrow> 's \<Rightarrow> 's option"
    and written :: "'s \<Rightarrow> 'v"
    and emit :: "byte list \<Rightarrow> 'v \<Rightarrow> 'v"
    and ready :: "'s \<Rightarrow> bool"
  assumes puts_cstring: "ready st \<Longrightarrow> 0 \<notin> set s \<Longrightarrow> length s < 2 ^ 64 \<Longrightarrow>
    \<exists>st'. sink_puts (s @ 0 # r) st = Some st' \<and> ready st' \<and> written st' = emit s (written st)"
begin

lemma vprintf_written:
  assumes "ready st" "render fmt va = Some out" "0 \<notin> set out" "length junk = BUFSZ"
  shows "\<exists>st'. vprintf sink_puts junk fmt va st = Some (st', of_nat (length out)) \<and>
    ready st' \<and> written st' = emit (take (BUFSZ - 1) out) (written st)"
proof -
  let ?k = "min (length out) (unat (of_nat BUFSZ :: u32) - 1)"
  have "vsnprintf junk (of_nat BUFSZ) fmt va =
      Some (take ?k out @ 0 # drop (Suc ?k) junk, of_nat (length out))"
    using assms by (intro vsnprintf_eq) (simp_all add: BUFSZ_def)
  then have v: "vsnprintf junk (of_nat BUFSZ) fmt va =
      Some (take (BUFSZ - 1) out @ 0 # drop (Suc ?k) junk, of_nat (length out))"
    by (simp add: BUFSZ_def min_def)
  have "0 \<notin> set (take (BUFSZ - 1) out)"
    using assms(3) by (meson in_set_takeD)
  moreover have "length (take (BUFSZ - 1) out) < 2 ^ 64"
    by (simp add: BUFSZ_def min_def)
  ultimately obtain st' where "sink_puts (take (BUFSZ - 1) out @ 0 # drop (Suc ?k) junk) st = Some st'"
    "ready st'" "written st' = emit (take (BUFSZ - 1) out) (written st)"
    using puts_cstring [OF assms(1)] by blast
  with v show ?thesis
    by (simp add: vprintf_def)
qed

lemma printf_written:
  assumes "ready st" "render fmt va = Some out" "0 \<notin> set out" "length junk = BUFSZ"
    and "(if bare_metal then cp else p) = sink_puts"
  shows "\<exists>st'. printf bare_metal cp p junk fmt va st = Some (st', of_nat (length out)) \<and>
    ready st' \<and> written st' = emit (take (BUFSZ - 1) out) (written st)"
  using vprintf_written [OF assms(1-4)] assms(5) by (cases bare_metal) (simp_all add: printf_def vprintf_def)

lemma print_binstr_written:
  assumes "ready st" "length junk = BUFSZ" "length out = BINSTR_SZ"
  shows "\<exists>st'. print_binstr False cp sink_puts junk out x st = Some (st', 79) \<and>
    ready st' \<and> written st' = emit (bit_text x 0) (written st)"
proof -
  have "binstr x out = Some (bit_text x 0 @ [0])"
    using assms(3) by (rule binstr_eq)
  moreover have "render (bytes_of ''%s'' @ [0]) [VStr (bit_text x 0 @ [0])] = Some (bit_text x 0)"
    by (rule render_string [OF bit_text_no_nul]) (simp add: length_bit_text)
  moreover have "take (BUFSZ - 1) (bit_text x 0) = bit_text x 0"
    by (simp add: BUFSZ_def length_bit_text)
  ultimately show ?thesis
    using printf_written [OF assms(1) _ bit_text_no_nul assms(2), of "bytes_of ''%s'' @ [0]" _ x 0 False cp]
    by (auto simp: print_binstr_def length_bit_text)
qed

end

end
