(* ===== verification/Ports.thy ===== *)
theory Ports
  imports Prelude
begin

text \<open>
  Port input and output (\<open>include/io.h\<close>). The devices are the environment: \<open>inputs n p\<close> is what
  the \<open>n\<close>-th port read returns when it reads port \<open>p\<close>. The machine's side is the
  list of accesses in program order, in which the accesses to memory-mapped devices and to
  model-specific registers (see \<open>Apic\<close>) stand too.
\<close>

datatype io_event =
  OutB u16 u8
| OutW u16 u16
| OutL u16 u32
| InB u16
| InW u16
| InL u16
| RdMem u64
| WrMem u64 u32
| WrMem16 u64 u16
| RdMsr u32
| WrMsr u32 u64

record io =
  inputs :: "nat \<Rightarrow> u16 \<Rightarrow> u32"
  reads :: nat
  accesses :: "io_event list"

section \<open>The access functions\<close>

text \<open>A port number is an \<open>unsigned long\<close> of which the instruction takes 16 bits.\<close>

definition inb :: "u64 \<Rightarrow> 'a io_scheme \<Rightarrow> u8 \<times> 'a io_scheme" where
  "inb port s = (ucast (inputs s (reads s) (ucast port)),
     s\<lparr>reads := Suc (reads s), accesses := accesses s @ [InB (ucast port)]\<rparr>)"

definition inw :: "u64 \<Rightarrow> 'a io_scheme \<Rightarrow> u16 \<times> 'a io_scheme" where
  "inw port s = (ucast (inputs s (reads s) (ucast port)),
     s\<lparr>reads := Suc (reads s), accesses := accesses s @ [InW (ucast port)]\<rparr>)"

definition inl :: "u64 \<Rightarrow> 'a io_scheme \<Rightarrow> u32 \<times> 'a io_scheme" where
  "inl port s = (inputs s (reads s) (ucast port),
     s\<lparr>reads := Suc (reads s), accesses := accesses s @ [InL (ucast port)]\<rparr>)"

definition outb :: "u8 \<Rightarrow> u64 \<Rightarrow> 'a io_scheme \<Rightarrow> 'a io_scheme" where
  "outb v port s = s\<lparr>accesses := accesses s @ [OutB (ucast port) v]\<rparr>"

definition outw :: "u16 \<Rightarrow> u64 \<Rightarrow> 'a io_scheme \<Rightarrow> 'a io_scheme" where
  "outw v port s = s\<lparr>accesses := accesses s @ [OutW (ucast port) v]\<rparr>"

definition outl :: "u32 \<Rightarrow> u64 \<Rightarrow> 'a io_scheme \<Rightarrow> 'a io_scheme" where
  "outl v port s = s\<lparr>accesses := accesses s @ [OutL (ucast port) v]\<rparr>"

text \<open>\<open>rep outsb\<close>: \<open>len\<close> bytes from \<open>buf\<close>, read in order; \<^term>\<open>None\<close> when \<open>buf\<close> is shorter.\<close>

definition outbs :: "byte list \<Rightarrow> nat \<Rightarrow> u64 \<Rightarrow> 'a io_scheme \<Rightarrow> 'a io_scheme option" where
  "outbs b len port s =
     (if len \<le> length b
      then Some (s\<lparr>accesses := accesses s @ map (OutB (ucast port)) (take len b)\<rparr>) else None)"

definition virt_to_phys :: "u64 \<Rightarrow> u64" where
  "virt_to_phys virt = virt"

definition phys_to_virt :: "u64 \<Rightarrow> u64" where
  "phys_to_virt phys = phys"

section \<open>What reaches a port\<close>

fun out_byte :: "u16 \<Rightarrow> io_event \<Rightarrow> byte list" where
  "out_byte p (OutB q v) = (if p = q then [v] else [])"
| "out_byte p _ = []"

definition port_bytes :: "u16 \<Rightarrow> io_event list \<Rightarrow> byte list" where
  "port_bytes p es = concat (map (out_byte p) es)"

lemma port_bytes_append [simp]: "port_bytes p (es @ fs) = port_bytes p es @ port_bytes p fs"
  by (simp add: port_bytes_def)

lemma port_bytes_Nil [simp]: "port_bytes p [] = []"
  by (simp add: port_bytes_def)

lemma port_bytes_Cons [simp]: "port_bytes p (e # es) = out_byte p e @ port_bytes p es"
  by (simp add: port_bytes_def)

lemma port_bytes_map_OutB [simp]: "port_bytes p (map (OutB p) bs) = bs"
  by (induction bs) auto

end
