(* ===== verification/Spinlock.thy ===== *)
theory Spinlock
  imports Prelude "HOL-Library.Monad_Syntax"
begin

text \<open>
  The spin lock of \<open>include/spinlock.h\<close>: the operations on the lock word as one CPU runs them, and
  their interleaving over any number of CPUs as a step relation, with mutual exclusion.
\<close>

section \<open>The operations\<close>

record spinlock =
  lock_v :: u32

text \<open>\<open>__sync_lock_test_and_set\<close> stores the new value and returns the old one, atomically.\<close>

definition sync_lock_test_and_set :: "spinlock \<Rightarrow> u32 \<Rightarrow> u32 \<times> spinlock" where
  "sync_lock_test_and_set l x = (lock_v l, l\<lparr>lock_v := x\<rparr>)"

definition sync_lock_release :: "spinlock \<Rightarrow> spinlock" where
  "sync_lock_release l = l\<lparr>lock_v := 0\<rparr>"

text \<open>The loop of \<open>spin_lock\<close> when no other CPU runs; \<^term>\<open>None\<close> when it never ends.\<close>

partial_function (option) spin_lock :: "spinlock \<Rightarrow> spinlock option" where
  "spin_lock l = (case sync_lock_test_and_set l 1 of (old, l) \<Rightarrow> if old \<noteq> 0 then spin_lock l else Some l)"

definition spin_unlock :: "spinlock \<Rightarrow> spinlock" where
  "spin_unlock l = sync_lock_release l"

lemma spin_lock_free [simp]: "lock_v l = 0 \<Longrightarrow> spin_lock l = Some (l\<lparr>lock_v := 1\<rparr>)"
  by (subst spin_lock.simps) (simp add: sync_lock_test_and_set_def)

lemma spin_unlock_v [simp]: "lock_v (spin_unlock l) = 0"
  by (simp add: spin_unlock_def sync_lock_release_def)

text \<open>A lock word that is set stays set: the loop has no result.\<close>

lemma spin_lock_result:
  assumes "spin_lock l = Some l'"
  shows "lock_v l = 0"
  by (rule spin_lock.raw_induct [of "\<lambda>l _. lock_v l = 0", OF _ assms])
     (fastforce simp: sync_lock_test_and_set_def split: if_splits)

lemma spin_lock_held: "lock_v l \<noteq> 0 \<Longrightarrow> spin_lock l = None"
  using spin_lock_result by (cases "spin_lock l") auto

section \<open>Interleavings\<close>

text \<open>
  Each CPU is before \<open>spin_lock\<close>, in its loop, between it and \<open>spin_unlock\<close>, or past it. One step is
  one atomic access to the lock word by one CPU.
\<close>

datatype phase = Outside | Spinning | Critical

record 'c lock_sys =
  word :: spinlock
  at :: "'c \<Rightarrow> phase"

inductive lock_step :: "'c lock_sys \<Rightarrow> 'c lock_sys \<Rightarrow> bool" where
  enter: "at s c = Outside \<Longrightarrow> lock_step s (s\<lparr>at := (at s)(c := Spinning)\<rparr>)"
| spin: "at s c = Spinning \<Longrightarrow> sync_lock_test_and_set (word s) 1 = (old, l) \<Longrightarrow> old \<noteq> 0 \<Longrightarrow>
    lock_step s (s\<lparr>word := l\<rparr>)"
| acquire: "at s c = Spinning \<Longrightarrow> sync_lock_test_and_set (word s) 1 = (old, l) \<Longrightarrow> old = 0 \<Longrightarrow>
    lock_step s (s\<lparr>word := l, at := (at s)(c := Critical)\<rparr>)"
| release: "at s c = Critical \<Longrightarrow>
    lock_step s (s\<lparr>word := spin_unlock (word s), at := (at s)(c := Outside)\<rparr>)"

inductive_cases lock_stepE: "lock_step s s'"

definition lock_init :: "'c lock_sys" where
  "lock_init = \<lparr>word = \<lparr>lock_v = 0\<rparr>, at = \<lambda>_. Outside\<rparr>"

text \<open>The word is 0 when no CPU is between the calls, and 1 when exactly one is.\<close>

definition critical :: "('c \<Rightarrow> phase) \<Rightarrow> 'c set" where
  "critical ph = {c. ph c = Critical}"

lemma critical_upd:
  "critical (ph(c := p)) = (if p = Critical then insert c (critical ph) else critical ph - {c})"
  by (auto simp: critical_def)

lemma in_critical: "ph c = Critical \<Longrightarrow> critical ph = {d} \<Longrightarrow> d = c"
  by (auto simp: critical_def)

lemma not_critical: "ph c \<noteq> Critical \<Longrightarrow> c \<notin> critical ph"
  by (simp add: critical_def)

definition lock_inv :: "'c lock_sys \<Rightarrow> bool" where
  "lock_inv s \<longleftrightarrow> (lock_v (word s) = 0 \<and> critical (at s) = {}) \<or>
     (lock_v (word s) = 1 \<and> (\<exists>c. critical (at s) = {c}))"

lemma lock_inv_init: "lock_inv lock_init"
  by (simp add: lock_inv_def lock_init_def critical_def)

lemma lock_inv_step: "lock_step s s' \<Longrightarrow> lock_inv s \<Longrightarrow> lock_inv s'"
  by (erule lock_stepE)
     (auto simp: lock_inv_def sync_lock_test_and_set_def critical_upd not_critical dest: in_critical)

lemma lock_inv_reachable: "lock_step\<^sup>*\<^sup>* lock_init s \<Longrightarrow> lock_inv s"
  by (induction rule: rtranclp_induct) (simp_all add: lock_inv_init lock_inv_step)

text \<open>
  C36. Under every interleaving of \<open>spin_lock\<close> and \<open>spin_unlock\<close> calls on any set of CPUs, at most
  one CPU is between the two calls, and the lock word is 1 exactly when one is.
\<close>

theorem spinlock_mutual_exclusion:
  assumes "lock_step\<^sup>*\<^sup>* lock_init s"
  shows "(\<forall>c d. at s c = Critical \<longrightarrow> at s d = Critical \<longrightarrow> c = d) \<and>
    (lock_v (word s) = 1 \<longleftrightarrow> (\<exists>c. at s c = Critical))"
  using lock_inv_reachable [OF assms] by (auto simp: lock_inv_def critical_def set_eq_iff)

theorem spinlock_witness:
  "\<exists>s. lock_step\<^sup>*\<^sup>* lock_init s \<and> at s (0 :: nat) = Critical \<and> at s 1 = Spinning \<and>
     lock_v (word s) = 1"
proof -
  define s1 :: "nat lock_sys" where "s1 = lock_init\<lparr>at := (at lock_init)(0 := Spinning)\<rparr>"
  define s2 where "s2 = s1\<lparr>at := (at s1)(1 := Spinning)\<rparr>"
  define s3 where "s3 = s2\<lparr>word := \<lparr>lock_v = 1\<rparr>, at := (at s2)(0 := Critical)\<rparr>"
  have "lock_step\<^sup>*\<^sup>* lock_init lock_init" by simp
  also have "lock_step lock_init s1"
    unfolding s1_def by (rule enter) (simp add: lock_init_def)
  also have "lock_step s1 s2"
    unfolding s2_def by (rule enter) (simp add: s1_def lock_init_def)
  also have "lock_step s2 s3"
    unfolding s3_def
    by (rule acquire [where old = 0])
       (simp_all add: sync_lock_test_and_set_def lock_init_def s1_def s2_def)
  finally have reach: "lock_step\<^sup>*\<^sup>* lock_init s3" .
  have here: "at s3 0 = Critical" "at s3 1 = Spinning"
    by (simp_all add: s3_def s2_def)
  then have "lock_v (word s3) = 1"
    using spinlock_mutual_exclusion [OF reach] by auto
  with reach here show ?thesis
    by blast
qed

end
