(* ===== verification/Serial.thy ===== *)
theory Serial
  imports Printf Ports Spinlock
begin

text \<open>
  The serial console of \<open>x86_64/serial.c\<close> and \<open>exit\<close>/\<open>abort\<close>: port accesses against an arbitrary
  device, in the build with \<open>USE_SERIAL\<close> and in the default one. What the line receives is read off
  the accesses the way a 16550 does, by the divisor latch bit of the line control register.
\<close>

section \<open>The model\<close>

record serial = io +
  lock :: spinlock
  serial_inited :: u32

definition serial_iobase :: u64 where
  "serial_iobase = 0x3f8"

text \<open>The \<open>do ... while\<close> loop of \<open>serial_outb\<close>; \<^term>\<open>None\<close> when the status bit never comes.\<close>

partial_function (option) lsr_wait :: "serial \<Rightarrow> serial option" where
  "lsr_wait s = (case inb (serial_iobase + 0x05) s of (lsr, s) \<Rightarrow>
     if lsr AND 0x20 = 0 then lsr_wait s else Some s)"

definition serial_outb :: "byte \<Rightarrow> serial \<Rightarrow> serial option" where
  "serial_outb ch s = do { s \<leftarrow> lsr_wait s; Some (outb ch (serial_iobase + 0x00) s) }"

definition serial_init :: "serial \<Rightarrow> serial" where
  "serial_init s =
     (let (lcr, s) = inb (serial_iobase + 0x03) s;
          lcr = lcr OR 0x80;
          s = outb lcr (serial_iobase + 0x03) s;
          s = outb 0x01 (serial_iobase + 0x00) s;
          s = outb 0x00 (serial_iobase + 0x01) s;
          (lcr, s) = inb (serial_iobase + 0x03) s;
          lcr = lcr AND NOT 0x80
      in outb lcr (serial_iobase + 0x03) s)"

text \<open>\<open>for (i = 0; i < len; i++) serial_outb(buf[i])\<close>.\<close>

fun serial_outs :: "byte list \<Rightarrow> nat \<Rightarrow> serial \<Rightarrow> serial option" where
  "serial_outs b 0 s = Some s"
| "serial_outs [] (Suc n) s = None"
| "serial_outs (c # b) (Suc n) s = do { s \<leftarrow> serial_outb c s; serial_outs b n s }"

definition print_serial :: "bool \<Rightarrow> byte list \<Rightarrow> serial \<Rightarrow> serial option" where
  "print_serial use_serial b s =
     do { len \<leftarrow> strlen b;
          if use_serial then
            let s = (if serial_inited s = 0 then (serial_init s)\<lparr>serial_inited := 1\<rparr> else s)
            in serial_outs b (unat len) s
          else outbs b (unat len) 0x3f8 s }"

definition puts :: "bool \<Rightarrow> byte list \<Rightarrow> serial \<Rightarrow> serial option" where
  "puts use_serial b s =
     do { l \<leftarrow> spin_lock (lock s);
          s \<leftarrow> print_serial use_serial b (s\<lparr>lock := l\<rparr>);
          Some (s\<lparr>lock := spin_unlock (lock s)\<rparr>) }"

definition exit :: "bool \<Rightarrow> u32 \<Rightarrow> serial \<Rightarrow> serial" where
  "exit use_serial code s =
     (if use_serial then
        fold (\<lambda>c s. outb c 0x8900 s) (bytes_of ''Shutdown'') (outl code 0xf4 s)
      else outl code 0xf4 s)"

partial_function (option) wait :: "bool \<Rightarrow> unit option" where
  "wait bare_metal = (if bare_metal then wait bare_metal else Some ())"

definition is_transmit_empty :: "serial \<Rightarrow> bool \<times> serial" where
  "is_transmit_empty s = (case inb (serial_iobase + 5) s of (lsr, s) \<Rightarrow> (lsr AND 0x20 \<noteq> 0, s))"

partial_function (option) transmit_wait :: "serial \<Rightarrow> serial option" where
  "transmit_wait s = (case is_transmit_empty s of (idle, s) \<Rightarrow>
     if \<not> idle then transmit_wait s else Some s)"

definition serial_putc :: "byte \<Rightarrow> serial \<Rightarrow> serial option" where
  "serial_putc ch s = do { s \<leftarrow> transmit_wait s; Some (outb ch serial_iobase s) }"

section \<open>What the line receives\<close>

text \<open>
  A byte written to the base port goes out on the line when the divisor latch access bit, bit 7 of
  the last value written to the line control register, is clear.
\<close>

fun dlab :: "bool \<Rightarrow> io_event list \<Rightarrow> bool" where
  "dlab d [] = d"
| "dlab d (OutB p b # es) = dlab (if p = 0x3fb then bit b 7 else d) es"
| "dlab d (_ # es) = dlab d es"

fun line :: "bool \<Rightarrow> io_event list \<Rightarrow> byte list" where
  "line d [] = []"
| "line d (OutB p b # es) =
     (if p = 0x3f8 \<and> \<not> d then [b] else []) @ line (if p = 0x3fb then bit b 7 else d) es"
| "line d (_ # es) = line d es"

lemma dlab_append [simp]: "dlab d (es @ fs) = dlab (dlab d es) fs"
  by (induction d es rule: dlab.induct) auto

lemma line_append [simp]: "line d (es @ fs) = line d es @ line (dlab d es) fs"
  by (induction d es rule: line.induct) auto

lemma dlab_data [simp]: "dlab d (map (OutB 0x3f8) bs) = d"
  by (induction bs) auto

lemma line_data [simp]: "line False (map (OutB 0x3f8) bs) = bs"
  by (induction bs) auto

definition sent :: "serial \<Rightarrow> byte list" where
  "sent s = line False (accesses s)"

text \<open>The transmitter empties again and again, from the current read on.\<close>

definition drains :: "serial \<Rightarrow> bool" where
  "drains s \<longleftrightarrow> (\<forall>n. \<exists>m \<ge> n. bit (inputs s m 0x3fd) 5)"

definition serial_ready :: "serial \<Rightarrow> bool" where
  "serial_ready s \<longleftrightarrow> drains s \<and> lock_v (lock s) = 0 \<and> \<not> dlab False (accesses s)"

lemma lsr_bit: "(ucast (w :: u32) :: u8) AND 0x20 = 0 \<longleftrightarrow> \<not> bit w 5"
proof -
  have "(0x20 :: u8) = push_bit 5 1" by simp
  then have "x AND 0x20 = 0 \<longleftrightarrow> \<not> bit x 5" for x :: u8
    by (metis and_exp_eq_0_iff_not_bit push_bit_of_1)
  then show ?thesis
    by (simp add: bit_simps)
qed

lemma lsr_wait_returns:
  assumes "reads s \<le> m" "bit (inputs s m 0x3fd) 5"
  shows "\<exists>k es. set es \<subseteq> {InB 0x3fd} \<and>
    lsr_wait s = Some (s\<lparr>reads := k, accesses := accesses s @ es\<rparr>)"
  using assms
proof (induction "m - reads s" arbitrary: s)
  case 0
  then have "reads s = m" by simp
  with 0 show ?case
    by (subst lsr_wait.simps)
       (auto simp: inb_def serial_iobase_def lsr_bit intro!: exI [of _ "[InB 0x3fd]"])
next
  case (Suc d)
  show ?case
  proof (cases "bit (inputs s (reads s) 0x3fd) 5")
    case True
    then show ?thesis
      by (subst lsr_wait.simps)
         (auto simp: inb_def serial_iobase_def lsr_bit intro!: exI [of _ "[InB 0x3fd]"])
  next
    case False
    let ?s = "s\<lparr>reads := Suc (reads s), accesses := accesses s @ [InB 0x3fd]\<rparr>"
    have "lsr_wait s = lsr_wait ?s"
      using False by (subst lsr_wait.simps) (simp add: inb_def serial_iobase_def lsr_bit)
    moreover have "d = m - reads ?s" "reads ?s \<le> m" "bit (inputs ?s m 0x3fd) 5"
      using Suc.hyps(2) Suc.prems by auto
    then obtain k es where "set es \<subseteq> {InB 0x3fd}"
      "lsr_wait ?s = Some (?s\<lparr>reads := k, accesses := accesses ?s @ es\<rparr>)"
      using Suc.hyps(1) [of ?s] by blast
    ultimately show ?thesis
      by (intro exI [of _ k] exI [of _ "InB 0x3fd # es"]) simp
  qed
qed


lemma reads_silent:
  "set es \<subseteq> {InB p} \<Longrightarrow> dlab d es = d" "set es \<subseteq> {InB p} \<Longrightarrow> line d es = []"
  by (induction es) auto

text \<open>\<open>s'\<close> is \<open>s\<close> after the bytes \<open>bs\<close> went out.\<close>

definition sends :: "byte list \<Rightarrow> serial \<Rightarrow> serial \<Rightarrow> bool" where
  "sends bs s s' \<longleftrightarrow> inputs s' = inputs s \<and> lock s' = lock s \<and>
     \<not> dlab False (accesses s') \<and> sent s' = sent s @ bs"

lemma sends_trans: "sends bs s s' \<Longrightarrow> sends cs s' s'' \<Longrightarrow> sends (bs @ cs) s s''"
  by (simp add: sends_def)

lemma serial_outb_sends:
  assumes "drains s" "\<not> dlab False (accesses s)"
  shows "\<exists>s'. serial_outb c s = Some s' \<and> sends [c] s s'"
proof -
  obtain m where "reads s \<le> m" "bit (inputs s m 0x3fd) 5"
    using assms(1) by (auto simp: drains_def)
  then obtain k es where "set es \<subseteq> {InB 0x3fd}"
    "lsr_wait s = Some (s\<lparr>reads := k, accesses := accesses s @ es\<rparr>)"
    using lsr_wait_returns by blast
  then show ?thesis
    using assms(2)
    by (simp add: serial_outb_def outb_def serial_iobase_def sends_def sent_def reads_silent)
qed

lemma serial_outs_sends:
  assumes "drains s" "\<not> dlab False (accesses s)" "n \<le> length b"
  shows "\<exists>s'. serial_outs b n s = Some s' \<and> sends (take n b) s s'"
  using assms
proof (induction b n s rule: serial_outs.induct)
  case (1 b s)
  then show ?case by (simp add: sends_def)
next
  case (3 c b n s)
  obtain t where t: "serial_outb c s = Some t" "sends [c] s t"
    using serial_outb_sends 3 by blast
  then have "drains t" "\<not> dlab False (accesses t)"
    using 3 by (auto simp: sends_def drains_def)
  then obtain s' where "serial_outs b n t = Some s'" "sends (take n b) t s'"
    using 3 t(1) by auto
  then show ?case
    using t sends_trans by fastforce
qed simp

lemma serial_init_sends:
  assumes "\<not> dlab False (accesses s)"
  shows "sends [] s (serial_init s)"
  using assms
  by (simp add: serial_init_def Let_def inb_def outb_def serial_iobase_def sends_def sent_def bit_simps)

lemma print_serial_sends:
  assumes "drains s" "\<not> dlab False (accesses s)" "0 \<notin> set b" "length b < 2 ^ 64"
  shows "\<exists>s'. print_serial u (b @ 0 # r) s = Some s' \<and> sends b s s'"
proof (cases u)
  case True
  let ?s = "if serial_inited s = 0 then (serial_init s)\<lparr>serial_inited := 1\<rparr> else s"
  have 1: "sends [] s ?s"
    using serial_init_sends [OF assms(2)] assms(2) by (simp add: sends_def sent_def)
  then have "drains ?s" "\<not> dlab False (accesses ?s)"
    using assms(1) by (auto simp: sends_def drains_def)
  then obtain s' where "serial_outs (b @ 0 # r) (length b) ?s = Some s'" "sends b ?s s'"
    using serial_outs_sends [of ?s "length b" "b @ 0 # r"] by auto
  then show ?thesis
    using True assms(3,4) sends_trans [OF 1] by (auto simp: print_serial_def Let_def)
next
  case False
  then show ?thesis
    using assms by (simp add: print_serial_def outbs_def sends_def sent_def)
qed

lemma puts_sends:
  assumes "serial_ready s" "0 \<notin> set b" "length b < 2 ^ 64"
  shows "\<exists>s'. puts u (b @ 0 # r) s = Some s' \<and> serial_ready s' \<and> inputs s' = inputs s \<and> sent s' = sent s @ b"
proof -
  let ?s = "s\<lparr>lock := (lock s)\<lparr>lock_v := 1\<rparr>\<rparr>"
  have "drains ?s" "\<not> dlab False (accesses ?s)"
    using assms(1) by (auto simp: serial_ready_def drains_def)
  then obtain s' where "print_serial u (b @ 0 # r) ?s = Some s'" "sends b ?s s'"
    using print_serial_sends assms(2,3) by blast
  then show ?thesis
    using assms(1) by (auto simp: puts_def serial_ready_def sends_def sent_def drains_def)
qed

text \<open>The serial port is a character sink, in both builds, so \<open>printf\<close> prints on it.\<close>

interpretation serial_sink: char_sink "puts use_serial" sent "\<lambda>b out. out @ b" serial_ready
  using puts_sends by unfold_locales blast

text \<open>The same with the answers of the device, which output does not change.\<close>

definition serial_at :: "(nat \<Rightarrow> u16 \<Rightarrow> u32) \<Rightarrow> serial \<Rightarrow> bool" where
  "serial_at answers s \<longleftrightarrow> serial_ready s \<and> inputs s = answers"

interpretation serial_sink_at: char_sink "puts use_serial" sent "\<lambda>b out. out @ b" "serial_at answers"
proof
  fix s and b r :: "byte list"
  assume "serial_at answers s" "0 \<notin> set b" "length b < 2 ^ 64"
  then show "\<exists>s'. puts use_serial (b @ 0 # r) s = Some s' \<and> serial_at answers s' \<and> sent s' = sent s @ b"
    using puts_sends [of s b use_serial r] by (auto simp: serial_at_def)
qed

text \<open>
  C22. On a serial port whose transmitter keeps draining, with the lock free, \<open>printf\<close> ends,
  returns the length of its text and puts the text, cut to the 1999 bytes of its buffer, on the
  line, in the build with \<open>USE_SERIAL\<close> and in the one without; the lock is free again.
\<close>

theorem serial_printf_correct:
  assumes "serial_ready s" "render fmt va = Some out" "0 \<notin> set out" "length junk = BUFSZ"
  shows "\<exists>s'. printf False cp (puts use_serial) junk fmt va s = Some (s', of_nat (length out)) \<and>
    serial_ready s' \<and> sent s' = sent s @ take (BUFSZ - 1) out"
  using assms by (rule serial_sink.printf_written) simp

theorem serial_printf_witness:
  "\<exists>s'. printf False (\<lambda>_ _. None) (puts True) (replicate 2000 0) (bytes_of ''hi'' @ [0]) []
      \<lparr>inputs = \<lambda>n p. if p = 0x3fd \<and> even n then 0x20 else 0, reads = 0, accesses = [],
       lock = \<lparr>lock_v = 0\<rparr>, serial_inited = 0\<rparr> = Some (s', 2) \<and> sent s' = bytes_of ''hi''"
proof -
  let ?s = "\<lparr>inputs = \<lambda>n p. if p = 0x3fd \<and> even n then 0x20 else 0, reads = 0, accesses = [],
       lock = \<lparr>lock_v = 0\<rparr>, serial_inited = 0\<rparr>"
  have "\<exists>m \<ge> n. bit (inputs ?s m 0x3fd) 5" for n
    by (rule exI [of _ "2 * n"]) (simp add: bit_numeral_rec)
  then have "drains ?s"
    by (simp add: drains_def)
  then have ready: "serial_ready ?s"
    by (simp add: serial_ready_def)
  have "render (bytes_of ''hi'' @ [0]) [] = Some (bytes_of ''hi'')" "0 \<notin> set (bytes_of ''hi'')"
    by (simp_all add: bytes_of_def chr_def)
  from serial_printf_correct [OF ready this, of "replicate 2000 0" "\<lambda>_ _. None" True]
  show ?thesis
    by (auto simp: BUFSZ_def bytes_of_def sent_def)
qed

section \<open>Ending the run\<close>

definition ABORT_EXIT_STATUS :: u32 where
  "ABORT_EXIT_STATUS = 63"

definition abort :: "bool \<Rightarrow> serial \<Rightarrow> serial" where
  "abort use_serial s = exit use_serial ABORT_EXIT_STATUS s"

text \<open>Nothing of \<open>exit\<close> reaches the line, and the status device gets the code first.\<close>

lemma exit_accesses:
  "accesses (exit u code s) = accesses s @ OutL 0xf4 code #
     (if u then map (OutB 0x8900) (bytes_of ''Shutdown'') else [])"
  by (simp add: exit_def outl_def outb_def bytes_of_def)

lemma exit_silent: "sent (exit u code s) = sent s"
  by (simp add: sent_def exit_accesses bytes_of_def)

text \<open>A \<open>printf\<close> by code that interrupts a holder of the lock on the same CPU never returns.\<close>

lemma puts_while_locked: "lock_v (lock s) \<noteq> 0 \<Longrightarrow> puts u b s = None"
  by (simp add: puts_def spin_lock_held)

end
