(* ===== verification/Heap.thy ===== *)
theory Heap
  imports Cstring Printf Spinlock
begin

text \<open>
  The page allocator of \<open>x86_64/heap.c\<close>: the free list threaded through the first word of each free
  page, its construction at boot, allocation with \<open>__fast_zero_page\<close> (\<open>x86_64/util.S\<close>), and the
  downward allocator of virtual pages. The file's globals are the fields of a record beside the
  flat memory \<open>ram\<close>; calls of \<open>printf\<close> are recorded with their arguments.
\<close>

section \<open>The model\<close>

record heap =
  ram :: mem
  vfree_top :: addr
  vlock :: spinlock
  heap_base :: addr
  heap_end :: addr
  freelist :: addr
  first_mem_init :: bool
  start_cr3 :: addr
  cr3 :: addr
  printed :: "(byte list \<times> va_arg list) list"

definition PAGE_SIZE :: u64 where
  "PAGE_SIZE = push_bit 12 1"

definition kprintf :: "string \<Rightarrow> va_arg list \<Rightarrow> heap \<Rightarrow> heap" where
  "kprintf fmt va s = s\<lparr>printed := printed s @ [(bytes_of fmt @ [0], va)]\<rparr>"

text \<open>
  The boot information is read where the boot loader left it (\<open>include/multiboot.h\<close>): the offsets of
  \<open>struct mbi_bootinfo\<close> and of the packed, 24-byte \<open>mmap_entry_t\<close>.
\<close>

definition mbi_mem_upper :: "mem \<Rightarrow> addr \<Rightarrow> u32" where "mbi_mem_upper m p = load32 m (p + 8)"
definition mbi_mmap_length :: "mem \<Rightarrow> addr \<Rightarrow> u32" where "mbi_mmap_length m p = load32 m (p + 44)"
definition mbi_mmap_addr :: "mem \<Rightarrow> addr \<Rightarrow> u32" where "mbi_mmap_addr m p = load32 m (p + 48)"
definition mmap_entry_length :: "mem \<Rightarrow> addr \<Rightarrow> u64" where "mmap_entry_length m e = load64 m (e + 12)"

definition mmap_entry_size :: u64 where
  "mmap_entry_size = 24"

text \<open>The \<open>for\<close> loop of \<open>get_memory_map\<close>: the bound is a 32-bit sum, the cursor a 64-bit pointer.\<close>

function mmap_loop :: "mem \<Rightarrow> addr \<Rightarrow> u32 \<Rightarrow> u64 \<Rightarrow> u64" where
  "mmap_loop m mmap bound acc =
     (if mmap < ucast bound
      then mmap_loop m (mmap + mmap_entry_size) bound (acc + mmap_entry_length m mmap)
      else acc)"
  by pat_completeness auto
termination
proof (relation "measure (\<lambda>(m, a, b, e). 2 ^ 33 - unat a)")
  fix m a b e
  assume "(a :: addr) < ucast (b :: u32)"
  then have "unat a < take_bit 64 (unat b)"
    by (simp add: word_less_nat_alt unsigned_ucast_eq)
  also have "\<dots> \<le> unat b"
    by simp
  also have "\<dots> < 4294967296"
    by (rule order.strict_trans2 [OF unsigned_less]) simp
  finally show "((m :: mem, a + mmap_entry_size, b, e + mmap_entry_length m a), m, a, b, e)
      \<in> measure (\<lambda>(m, a, b, e). 2 ^ 33 - unat a)"
    by (simp add: mmap_entry_size_def unat_plus_u64)
qed simp

declare mmap_loop.simps [simp del]

definition get_memory_map :: "addr \<Rightarrow> heap \<Rightarrow> heap" where
  "get_memory_map mboot s =
     (let mmap_addr = mbi_mmap_addr (ram s) mboot; mmap_length = mbi_mmap_length (ram s) mboot
      in s\<lparr>heap_end := mmap_loop (ram s) (ucast mmap_addr) (mmap_addr + mmap_length) 0\<rparr>)"

text \<open>The loop of \<open>get_free_pages\<close>: it stops only when the next page is exactly the end.\<close>

partial_function (option) link_loop :: "mem \<Rightarrow> addr \<Rightarrow> addr \<Rightarrow> (mem \<times> addr) option" where
  "link_loop m p e =
     (if p + PAGE_SIZE \<noteq> e then link_loop (store64 m p (p + PAGE_SIZE)) (p + PAGE_SIZE) e
      else Some (m, p))"

definition get_free_pages :: "addr \<Rightarrow> u64 \<Rightarrow> heap \<Rightarrow> (heap \<times> addr) option" where
  "get_free_pages p sz s =
     (if sz = 0 then Some (s, 0)
      else let old_freelist = freelist s; s = s\<lparr>freelist := p\<rparr> in
        do { (m, q) \<leftarrow> link_loop (ram s) p (p + sz);
             Some (s\<lparr>ram := store64 m q old_freelist\<rparr>, freelist s) })"

text \<open>The block of \<open>early_mem_init\<close> that runs on its first call only.\<close>

definition first_mem_setup :: "bool \<Rightarrow> addr \<Rightarrow> addr \<Rightarrow> heap \<Rightarrow> heap" where
  "first_mem_setup bare_metal base_addr bootinfo s =
     (if \<not> first_mem_init s then
        let s = s\<lparr>first_mem_init := True\<rparr>;
            s = get_memory_map bootinfo s;
            s = s\<lparr>heap_base := (base_addr + PAGE_SIZE - 1) AND (- PAGE_SIZE)\<rparr>;
            s = s\<lparr>heap_end := heap_end s AND (- PAGE_SIZE)\<rparr>
        in if bare_metal then
             kprintf ''Total Memory: %ld MB\<newline>'' [VInt (drop_bit 20 (heap_end s))]
               (kprintf ''Memory End: %lx B\<newline>'' [VInt (heap_end s)]
                 (kprintf ''Memory Start: %lx B\<newline>'' [VInt (heap_base s)] s))
           else s
      else s)"

definition early_mem_init :: "bool \<Rightarrow> addr \<Rightarrow> addr \<Rightarrow> heap \<Rightarrow> heap option" where
  "early_mem_init bare_metal base_addr bootinfo s =
     (let end_of_memory = ucast (mbi_mem_upper (ram s) bootinfo) * 1024;
          s = kprintf ''mbi->mem_upper = %lx\<newline>'' [VInt end_of_memory] s;
          s = first_mem_setup bare_metal base_addr bootinfo s;
          s = s\<lparr>freelist := 0\<rparr>
      in do { (s, _) \<leftarrow> get_free_pages (heap_base s) (end_of_memory - heap_base s) s; Some s })"

text \<open>\<open>rep stosq\<close> with a zero \<open>rax\<close>: \<open>n\<close> quadwords from \<open>a\<close> on.\<close>

primrec stosq_zero :: "nat \<Rightarrow> mem \<Rightarrow> addr \<Rightarrow> mem" where
  "stosq_zero 0 m a = m"
| "stosq_zero (Suc n) m a = stosq_zero n (store64 m a 0) (a + 8)"

definition fast_zero_page :: "mem \<Rightarrow> addr \<Rightarrow> mem" where
  "fast_zero_page m page = stosq_zero 0x200 m page"

definition heap_alloc_page :: "heap \<Rightarrow> addr \<times> heap" where
  "heap_alloc_page s =
     (if freelist s = 0 then (0, kprintf ''freelist uninitialized!\<newline>'' [] s)
      else let page = freelist s; s = s\<lparr>freelist := load64 (ram s) (freelist s)\<rparr>
           in (page, s\<lparr>ram := fast_zero_page (ram s) page\<rparr>))"

definition alloc_vpages :: "u64 \<Rightarrow> heap \<Rightarrow> (addr \<times> heap) option" where
  "alloc_vpages nr s =
     do { l \<leftarrow> spin_lock (vlock s);
          let s = s\<lparr>vlock := l, vfree_top := vfree_top s - PAGE_SIZE * nr\<rparr>;
          let s = s\<lparr>vlock := spin_unlock (vlock s)\<rparr>;
          Some (vfree_top s, s) }"

section \<open>The free list\<close>

lemma PAGE_SIZE_eq [simp]: "PAGE_SIZE = 4096"
  by (simp add: PAGE_SIZE_def)

text \<open>The pages of the list that starts at \<open>p\<close>, in order.\<close>

fun flist :: "mem \<Rightarrow> addr \<Rightarrow> addr list \<Rightarrow> bool" where
  "flist m p [] \<longleftrightarrow> p = 0"
| "flist m p (q # qs) \<longleftrightarrow> p = q \<and> q \<noteq> 0 \<and> flist m (load64 m q) qs"

definition free_pages :: "heap \<Rightarrow> addr list \<Rightarrow> bool" where
  "free_pages s ps \<longleftrightarrow>
     flist (ram s) (freelist s) ps \<and> distinct ps \<and> (\<forall>p \<in> set ps. page_aligned p \<and> p \<noteq> 0)"

lemma load64_frame:
  assumes "\<And>x. in_range x p 4096 \<Longrightarrow> m' x = m x"
  shows "load64 m' p = load64 m p"
  using assms in_range_mono [of _ p 8 4096] by (intro load64_cong) simp

lemma flist_frame:
  assumes "flist m p ps" "\<And>q x. q \<in> set ps \<Longrightarrow> in_range x q 4096 \<Longrightarrow> m' x = m x"
  shows "flist m' p ps"
  using assms
proof (induction ps arbitrary: p)
  case (Cons q qs)
  then have "load64 m' q = load64 m q"
    by (intro load64_frame) auto
  with Cons show ?case by auto
qed simp

text \<open>The list is determined by the memory: it is the same for every reader.\<close>

lemma flist_unique: "flist m p ps \<Longrightarrow> flist m p qs \<Longrightarrow> ps = qs"
proof (induction ps arbitrary: p qs)
  case Nil
  then show ?case by (cases qs) auto
next
  case (Cons a ps)
  then show ?case by (cases qs) auto
qed

lemma stosq_zero_eq:
  "8 * n < 18446744073709551616 \<Longrightarrow> stosq_zero n m a = (\<lambda>x. if in_range x a (8 * n) then 0 else m x)"
proof (induction n arbitrary: m a)
  case 0
  then show ?case by (simp add: in_range_def)
next
  case (Suc n)
  have z: "store64 m a 0 x = (if in_range x a 8 then 0 else m x)" for x
    by (simp add: store64_def store_le_def in_range_def byte_of_def)
  have "in_range x a (8 * Suc n) \<longleftrightarrow> in_range x a 8 \<or> in_range x (a + 8) (8 * n)" for x
  proof -
    have "unat (x - (a + 8)) = (if 8 \<le> unat (x - a) then unat (x - a) - 8
        else unat (x - a) + 18446744073709551616 - 8)"
      using unat_diff_split [of "x - a" 8] by (simp add: diff_diff_eq)
    then show ?thesis
      using Suc.prems by (auto simp: in_range_def)
  qed
  moreover have "stosq_zero n (store64 m a 0) (a + 8) =
      (\<lambda>x. if in_range x (a + 8) (8 * n) then 0 else store64 m a 0 x)"
    using Suc.prems by (intro Suc.IH) simp
  ultimately show ?case
    by (simp add: fun_eq_iff z)
qed

lemma fast_zero_page_eq:
  "fast_zero_page m p = (\<lambda>x. if in_range x p 4096 then 0 else m x)"
  by (simp add: fast_zero_page_def stosq_zero_eq)


section \<open>Building the list\<close>

text \<open>The memory once the first \<open>k\<close> pages from \<open>p\<close> on are linked to their successors.\<close>

primrec linked :: "nat \<Rightarrow> mem \<Rightarrow> addr \<Rightarrow> mem" where
  "linked 0 m p = m"
| "linked (Suc k) m p = linked k (store64 m p (p + 4096)) (p + 4096)"

definition pages :: "addr \<Rightarrow> nat \<Rightarrow> addr list" where
  "pages p n = map (\<lambda>i. p + 4096 * of_nat i) [0..<n]"

lemma length_pages [simp]: "length (pages p n) = n"
  by (simp add: pages_def)

lemma pages_0 [simp]: "pages p 0 = []"
  by (simp add: pages_def)

lemma pages_Suc: "pages p (Suc n) = p # pages (p + 4096) n"
  by (simp add: pages_def upt_conv_Cons map_Suc_upt [symmetric] o_def algebra_simps del: upt_Suc)

lemma page_offset_unat: "i < 4503599627370496 \<Longrightarrow> unat (4096 * of_nat i :: u64) = 4096 * i"
  by (simp add: unat_word_ariths)

lemma page_offset_inj:
  assumes "i < 4503599627370496" "j < 4503599627370496"
  shows "4096 * of_nat i = 4096 * (of_nat j :: u64) \<longleftrightarrow> i = j"
proof
  assume "4096 * of_nat i = 4096 * (of_nat j :: u64)"
  then have "unat (4096 * of_nat i :: u64) = unat (4096 * of_nat j :: u64)"
    by (rule arg_cong)
  then show "i = j"
    unfolding page_offset_unat [OF assms(1)] page_offset_unat [OF assms(2)] by simp
qed simp

lemma distinct_pages: "n \<le> 4503599627370496 \<Longrightarrow> distinct (pages p n)"
  by (auto simp: pages_def distinct_map inj_on_def page_offset_inj)

lemma pages_aligned: "page_aligned p \<Longrightarrow> q \<in> set (pages p n) \<Longrightarrow> page_aligned q"
proof -
  have "page_aligned (4096 * of_nat i)" for i
    by (simp add: page_aligned_unat unat_word_ariths dvd_mod)
  then show "page_aligned p \<Longrightarrow> q \<in> set (pages p n) \<Longrightarrow> page_aligned q"
    by (auto simp: pages_def intro: page_aligned_add)
qed

text \<open>Without wrapping round the top of memory, the pages are above \<open>p\<close>, hence not at 0.\<close>

lemma pages_nonzero:
  assumes "p \<noteq> 0" "unat p + 4096 * n \<le> 18446744073709551616" "q \<in> set (pages p n)"
  shows "q \<noteq> 0"
proof -
  obtain i where i: "i < n" "q = p + 4096 * of_nat i"
    using assms(3) by (auto simp: pages_def)
  then have "i < 4503599627370496"
    using assms(2) by linarith
  then have "unat q = unat p + 4096 * i"
    using i assms(2) by (simp add: page_offset_unat unat_plus_u64)
  moreover have "0 < unat p"
    using assms(1) by (simp only: unat_gt_0) simp
  ultimately show ?thesis
    by auto
qed

lemma link_loop_eq:
  "k < 4503599627370496 \<Longrightarrow>
   link_loop m p (p + 4096 * of_nat (Suc k)) = Some (linked k m p, p + 4096 * of_nat k)"
proof (induction k arbitrary: m p)
  case 0
  then show ?case by (subst link_loop.simps) simp
next
  case (Suc k)
  have "p + 4096 * of_nat 1 \<noteq> p + 4096 * (of_nat (Suc (Suc k)) :: u64)"
  proof (cases "Suc (Suc k) < 4503599627370496")
    case True
    then show ?thesis using page_offset_inj [of 1 "Suc (Suc k)"] by simp
  next
    case False
    then have "Suc (Suc k) = 4503599627370496"
      using Suc.prems by simp
    then have "4096 * (of_nat (Suc (Suc k)) :: u64) = 4096 * of_nat 4503599627370496"
      by (simp only:)
    then show ?thesis by simp
  qed
  then have "link_loop m p (p + 4096 * of_nat (Suc (Suc k))) =
      link_loop (store64 m p (p + 4096)) (p + 4096) (p + 4096 + 4096 * of_nat (Suc k))"
    by (subst link_loop.simps) (simp add: algebra_simps)
  also have "\<dots> = Some (linked k (store64 m p (p + 4096)) (p + 4096), p + 4096 + 4096 * of_nat k)"
    by (rule Suc.IH) (use Suc.prems in simp)
  finally show ?case by (simp add: algebra_simps)
qed

lemma linked_frame:
  "(\<And>q. q \<in> set (pages p k) \<Longrightarrow> \<not> in_range x q 4096) \<Longrightarrow> linked k m p x = m x"
proof (induction k arbitrary: m p)
  case (Suc k)
  then have "\<not> in_range x p 4096"
    by (simp add: pages_Suc)
  then have "\<not> in_range x p 8"
    using in_range_mono by fastforce
  then show ?case
    using Suc by (simp add: pages_Suc store64_outside)
qed simp

lemma store64_page_frame: "\<not> in_range x p 4096 \<Longrightarrow> store64 m p v x = m x"
  using in_range_mono [of x p 8 4096] by (intro store64_outside) auto

lemma page_not_in_other:
  assumes "page_aligned a" "page_aligned b" "a \<noteq> b" "in_range x a 4096"
  shows "\<not> in_range x b 4096"
  using page_disj [OF assms(1-3)] assms(4) by (auto simp: disj_def)

text \<open>What the loop and the last store build: the new pages in order, then the old list.\<close>

lemma flist_linked:
  assumes "Suc k < 4503599627370496" "page_aligned p"
    "\<And>q. q \<in> set (pages p (Suc k)) \<Longrightarrow> q \<noteq> 0"
    "flist m old qs" "\<And>q. q \<in> set qs \<Longrightarrow> page_aligned q" "set (pages p (Suc k)) \<inter> set qs = {}"
  shows "flist (store64 (linked k m p) (p + 4096 * of_nat k) old) p (pages p (Suc k) @ qs)"
  using assms
proof (induction k arbitrary: m p)
  case 0
  have "flist (store64 m p old) old qs"
  proof (rule flist_frame [OF "0.prems"(4)])
    fix q x assume "q \<in> set qs" "in_range x q 4096"
    then show "store64 m p old x = m x"
      using 0 page_not_in_other [of q p x] by (intro store64_page_frame) (auto simp: pages_Suc)
  qed
  with 0 show ?case by (simp add: pages_Suc)
next
  case (Suc k)
  let ?m = "store64 m p (p + 4096)" and ?p = "p + 4096"
  let ?f = "store64 (linked k ?m ?p) (?p + 4096 * of_nat k) old"
  have aligned: "page_aligned ?p"
    using Suc.prems(2) by (rule page_aligned_add) (simp add: page_aligned_def)
  have distinct: "p \<notin> set (pages ?p (Suc k))"
    using distinct_pages [of "Suc (Suc k)" p] Suc.prems(1) by (simp add: pages_Suc [of p])
  have "flist ?m old qs"
  proof (rule flist_frame [OF Suc.prems(4)])
    fix q x assume "q \<in> set qs" "in_range x q 4096"
    then show "?m x = m x"
      using Suc.prems page_not_in_other [of q p x] by (intro store64_page_frame) (auto simp: pages_Suc)
  qed
  then have "flist ?f ?p (pages ?p (Suc k) @ qs)"
    using Suc.prems aligned by (intro Suc.IH) (auto simp: pages_Suc [of p])
  moreover have "load64 ?f p = load64 ?m p"
  proof (rule load64_frame)
    fix x assume x: "in_range x p 4096"
    have "\<not> in_range x q 4096" if "q \<in> set (pages ?p (Suc k))" for q
      using that distinct x Suc.prems(2) pages_aligned [OF aligned that]
      by (intro page_not_in_other [of p q x]) auto
    moreover have "set (pages ?p k) \<subseteq> set (pages ?p (Suc k))"
      "?p + 4096 * of_nat k \<in> set (pages ?p (Suc k))"
      by (auto simp: pages_def)
    ultimately show "?f x = ?m x"
      by (subst store64_page_frame) (auto intro!: linked_frame)
  qed
  ultimately show ?case
    using Suc.prems(3) by (simp add: pages_Suc [of p] algebra_simps)
qed

lemma get_free_pages_eq:
  assumes "page_aligned p" "p \<noteq> 0" "0 < n" "unat p + 4096 * n \<le> 18446744073709551616"
    "free_pages s qs" "set (pages p n) \<inter> set qs = {}"
  shows "\<exists>m. get_free_pages p (4096 * of_nat n) s = Some (s\<lparr>freelist := p, ram := m\<rparr>, p) \<and>
    free_pages (s\<lparr>freelist := p, ram := m\<rparr>) (pages p n @ qs) \<and>
    (\<forall>x. (\<forall>q \<in> set (pages p n). \<not> in_range x q 4096) \<longrightarrow> m x = ram s x)"
proof -
  obtain k where k: "n = Suc k"
    using assms(3) by (cases n) auto
  have "0 < unat p"
    using assms(2) by (simp only: unat_gt_0) simp
  then have n: "Suc k < 4503599627370496"
    using assms(4) unfolding k by simp
  have "unat (4096 * of_nat n :: u64) = 4096 * n"
    using n k by (intro page_offset_unat) simp
  then have nz: "4096 * of_nat n \<noteq> (0 :: u64)"
    using k by (metis mult_is_0 nat.simps(3) unsigned_0 zero_neq_numeral)
  define m where "m = store64 (linked k (ram s) p) (p + 4096 * of_nat k) (freelist s)"
  have "get_free_pages p (4096 * of_nat n) s = Some (s\<lparr>freelist := p, ram := m\<rparr>, p)"
    using nz link_loop_eq [of k "ram s" p] n unfolding k
    by (simp add: get_free_pages_def m_def Let_def)
  moreover have "flist m p (pages p n @ qs)"
    using assms(1,5,6) n pages_nonzero [OF assms(2,4)] unfolding m_def k
    by (intro flist_linked) (auto simp: free_pages_def)
  then have "free_pages (s\<lparr>freelist := p, ram := m\<rparr>) (pages p n @ qs)"
    using assms(5,6) n k pages_nonzero [OF assms(2,4)] pages_aligned [OF assms(1)]
    by (auto simp: free_pages_def intro!: distinct_pages)
  moreover have "m x = ram s x" if "\<forall>q \<in> set (pages p n). \<not> in_range x q 4096" for x
  proof -
    have "p + 4096 * of_nat k \<in> set (pages p n)" "set (pages p k) \<subseteq> set (pages p n)"
      by (auto simp: k pages_def)
    then show ?thesis
      using that unfolding m_def by (subst store64_page_frame) (auto intro!: linked_frame)
  qed
  ultimately show ?thesis by blast
qed

text \<open>
  Given a page-aligned region of whole pages that does not reach round the top of memory,
  \<open>get_free_pages\<close> returns it, puts exactly its pages, in address order, in front of the free list
  and writes nowhere else.
\<close>

theorem get_free_pages_correct:
  assumes "page_aligned p" "p \<noteq> 0" "0 < n" "unat p + 4096 * n \<le> 18446744073709551616"
    "free_pages s qs" "set (pages p n) \<inter> set qs = {}"
  shows "\<exists>m. get_free_pages p (4096 * of_nat n) s = Some (s\<lparr>freelist := p, ram := m\<rparr>, p) \<and>
    free_pages (s\<lparr>freelist := p, ram := m\<rparr>) (pages p n @ qs) \<and>
    (\<forall>x. (\<forall>q \<in> set (pages p n). \<not> in_range x q 4096) \<longrightarrow> m x = ram s x)"
  using assms by (rule get_free_pages_eq)

definition boot_heap :: heap where
  "boot_heap = \<lparr>ram = \<lambda>_. 0, vfree_top = 0, vlock = \<lparr>lock_v = 0\<rparr>, heap_base = 0, heap_end = 0,
     freelist = 0, first_mem_init = False, start_cr3 = 0, cr3 = 0, printed = []\<rparr>"

lemma boot_heap_empty: "free_pages boot_heap []"
  by (simp add: free_pages_def boot_heap_def)

theorem get_free_pages_witness:
  "\<exists>m. get_free_pages 0x200000 0x3000 boot_heap =
      Some (boot_heap\<lparr>freelist := 0x200000, ram := m\<rparr>, 0x200000) \<and>
    free_pages (boot_heap\<lparr>freelist := 0x200000, ram := m\<rparr>) [0x200000, 0x201000, 0x202000]"
proof -
  have "pages 0x200000 3 = [0x200000, 0x201000, 0x202000]"
    by (simp add: pages_def upt_rec)
  then show ?thesis
    using get_free_pages_correct [of "0x200000" 3 boot_heap "[]", OF _ _ _ _ boot_heap_empty]
    by (auto simp: page_aligned_def)
qed

text \<open>The loop can only end when the region is a whole number of pages.\<close>

lemma link_loop_result:
  assumes "link_loop m p e = Some r"
  shows "4096 dvd unat (e - p)"
proof (rule link_loop.raw_induct [of "\<lambda>m p e r. 4096 dvd unat (e - p)", OF _ assms])
  fix ll :: "mem \<Rightarrow> addr \<Rightarrow> addr \<Rightarrow> (mem \<times> addr) option" and m p e r
  assume IH: "\<And>m p e r. ll m p e = Some r \<Longrightarrow> 4096 dvd unat (e - p)"
    and body: "(if p + PAGE_SIZE \<noteq> e then ll (store64 m p (p + PAGE_SIZE)) (p + PAGE_SIZE) e
      else Some (m, p)) = Some r"
  show "4096 dvd unat (e - p)"
  proof (cases "p + 4096 = e")
    case True
    then have "e - p = 4096" by auto
    then show ?thesis by simp
  next
    case False
    then have "4096 dvd unat (e - (p + 4096))"
      using body IH by simp
    then have "4096 dvd unat (e - (p + 4096) + 4096)"
      by (rule dvd_unat_add_u64) simp_all
    then show ?thesis by simp
  qed
qed

lemma page_multiple:
  assumes "4096 dvd unat (sz :: u64)" "sz \<noteq> 0"
  obtains k where "k < 4503599627370496" "sz = 4096 * of_nat (Suc k)"
proof -
  obtain n where n: "unat sz = 4096 * n"
    using assms(1) by (auto elim: dvdE)
  have "n \<noteq> 0"
    using n assms(2) by (metis mult_0_right unat_eq_0)
  then obtain k where k: "n = Suc k" by (cases n) auto
  have "k < 4503599627370496"
    using n k unat_lt_u64 [of sz] by simp
  moreover have "sz = of_nat (unat sz)" by simp
  then have "sz = 4096 * of_nat (Suc k)"
    unfolding n k by (simp only: of_nat_mult of_nat_numeral)
  ultimately show ?thesis by (rule that)
qed

lemma get_free_pages_None: "\<not> 4096 dvd unat sz \<Longrightarrow> get_free_pages p sz s = None"
  using link_loop_result [of "ram s" p "p + sz"]
  by (cases "link_loop (ram s) p (p + sz)") (auto simp: get_free_pages_def Let_def)

text \<open>
  \<open>get_free_pages\<close> returns for a size that is a multiple of 4096 bytes, and for no other: its
  loop compares the next page with the end for equality, so a partial last page is stepped over
  and the loop goes round all of memory for ever.
\<close>

theorem get_free_pages_returns_iff:
  "(\<exists>r. get_free_pages p sz s = Some r) \<longleftrightarrow> 4096 dvd unat sz"
proof
  assume "4096 dvd unat sz"
  show "\<exists>r. get_free_pages p sz s = Some r"
  proof (cases "sz = 0")
    case True
    then show ?thesis by (simp add: get_free_pages_def)
  next
    case False
    with \<open>4096 dvd unat sz\<close> obtain k where "k < 4503599627370496" "sz = 4096 * of_nat (Suc k)"
      by (rule page_multiple)
    then have "link_loop (ram s) p (p + sz) = Some (linked k (ram s) p, p + 4096 * of_nat k)"
      using link_loop_eq by simp
    then show ?thesis by (simp add: get_free_pages_def Let_def)
  qed
next
  assume "\<exists>r. get_free_pages p sz s = Some r"
  then show "4096 dvd unat sz"
    using get_free_pages_None [of sz p s] by (cases "4096 dvd unat sz") auto
qed

section \<open>Allocation\<close>

text \<open>\<open>s'\<close> is \<open>s\<close> but for the memory and the head of the free list; nothing was printed.\<close>

definition only_pages :: "heap \<Rightarrow> heap \<Rightarrow> bool" where
  "only_pages s s' \<longleftrightarrow> s' = s\<lparr>freelist := freelist s', ram := ram s'\<rparr>"

lemma only_pages_refl [simp]: "only_pages s s"
  by (simp add: only_pages_def)

lemma only_pages_ram [simp]: "only_pages s (s'\<lparr>ram := m\<rparr>) \<longleftrightarrow> only_pages s s'"
  unfolding only_pages_def by (cases s; cases s') auto

lemma only_pages_trans: "only_pages s s' \<Longrightarrow> only_pages s' s'' \<Longrightarrow> only_pages s s''"
  unfolding only_pages_def by (cases s; cases s'; cases s'') simp

lemma only_pages_same:
  "only_pages s s' \<Longrightarrow> cr3 s' = cr3 s" "only_pages s s' \<Longrightarrow> start_cr3 s' = start_cr3 s"
  "only_pages s s' \<Longrightarrow> vlock s' = vlock s" "only_pages s s' \<Longrightarrow> vfree_top s' = vfree_top s"
  "only_pages s s' \<Longrightarrow> printed s' = printed s"
  unfolding only_pages_def by (cases s; cases s'; simp)+

text \<open>
  What a client of the page allocator relies on: pages of the pool are aligned, distinct and not
  at 0; an allocation takes the first one, zeroes it and changes no other byte and no other variable
  but the head of the list; the pool depends
  on nothing but the bytes of its pages; an empty pool gives the null pointer and changes nothing
  in memory.
\<close>

locale page_allocator =
  fixes alloc :: "heap \<Rightarrow> addr \<times> heap"
    and pool :: "heap \<Rightarrow> addr list \<Rightarrow> bool"
  assumes alloc_page: "pool s (p # ps) \<Longrightarrow>
      \<exists>s'. alloc s = (p, s') \<and> pool s' ps \<and> ram s' = (\<lambda>x. if in_range x p 4096 then 0 else ram s x) \<and>
        only_pages s s'"
    and alloc_empty: "pool s [] \<Longrightarrow> \<exists>s'. alloc s = (0, s') \<and> pool s' [] \<and> ram s' = ram s"
    and pool_pages: "pool s ps \<Longrightarrow> distinct ps \<and> (\<forall>p \<in> set ps. page_aligned p \<and> p \<noteq> 0)"
    and pool_frame: "pool s ps \<Longrightarrow>
      (\<And>p x. p \<in> set ps \<Longrightarrow> in_range x p 4096 \<Longrightarrow> m x = ram s x) \<Longrightarrow> pool (s\<lparr>ram := m\<rparr>) ps"
begin

text \<open>Repeated allocation hands out the pool in order, each page once and zeroed.\<close>

primrec alloc_many :: "nat \<Rightarrow> heap \<Rightarrow> addr list \<times> heap" where
  "alloc_many 0 s = ([], s)"
| "alloc_many (Suc n) s = (let (p, s) = alloc s; (ps, s) = alloc_many n s in (p # ps, s))"

lemma alloc_many_pool:
  "pool s (ps @ qs) \<Longrightarrow> \<exists>s'. alloc_many (length ps) s = (ps, s') \<and> pool s' qs"
proof (induction ps arbitrary: s)
  case (Cons p ps)
  then show ?case
    using alloc_page [of s p "ps @ qs"] by fastforce
qed simp

end

lemma heap_alloc_page_Cons:
  assumes "free_pages s (p # ps)"
  shows "\<exists>s'. heap_alloc_page s = (p, s') \<and> free_pages s' ps \<and>
    ram s' = (\<lambda>x. if in_range x p 4096 then 0 else ram s x) \<and>
    s' = s\<lparr>freelist := freelist s', ram := ram s'\<rparr>"
proof -
  define s' where "s' = s\<lparr>freelist := load64 (ram s) p, ram := fast_zero_page (ram s) p\<rparr>"
  have p: "freelist s = p" "p \<noteq> 0"
    using assms by (auto simp: free_pages_def)
  then have "heap_alloc_page s = (p, s')"
    by (simp add: heap_alloc_page_def s'_def Let_def)
  moreover have "flist (ram s') (freelist s') ps"
  proof (rule flist_frame [of "ram s"])
    show "flist (ram s) (freelist s') ps"
      using assms p by (simp add: free_pages_def s'_def)
    fix q x assume "q \<in> set ps" "in_range x q 4096"
    then show "ram s' x = ram s x"
      using assms page_not_in_other [of q p x]
      by (auto simp: free_pages_def s'_def fast_zero_page_eq)
  qed
  then have "free_pages s' ps"
    using assms by (simp add: free_pages_def)
  moreover have "ram s' = (\<lambda>x. if in_range x p 4096 then 0 else ram s x)"
    by (simp add: s'_def fast_zero_page_eq)
  moreover have "s' = s\<lparr>freelist := freelist s', ram := ram s'\<rparr>"
    by (simp add: s'_def)
  ultimately show ?thesis by blast
qed

lemma heap_alloc_page_Nil:
  assumes "free_pages s []"
  shows "heap_alloc_page s = (0, kprintf ''freelist uninitialized!\<newline>'' [] s)"
  using assms by (simp add: free_pages_def heap_alloc_page_def)

interpretation heap_pages: page_allocator heap_alloc_page free_pages
proof unfold_locales
  fix s p ps
  assume "free_pages s (p # ps)"
  then show "\<exists>s'. heap_alloc_page s = (p, s') \<and> free_pages s' ps \<and>
      ram s' = (\<lambda>x. if in_range x p 4096 then 0 else ram s x) \<and> only_pages s s'"
    unfolding only_pages_def using heap_alloc_page_Cons by blast
next
  fix s assume "free_pages s []"
  then show "\<exists>s'. heap_alloc_page s = (0, s') \<and> free_pages s' [] \<and> ram s' = ram s"
    using heap_alloc_page_Nil [of s] by (simp add: kprintf_def free_pages_def)
next
  fix s ps assume "free_pages s ps"
  then show "distinct ps \<and> (\<forall>p \<in> set ps. page_aligned p \<and> p \<noteq> 0)"
    by (simp add: free_pages_def)
next
  fix s ps m
  assume "free_pages s ps" "\<And>p x. p \<in> set ps \<Longrightarrow> in_range x p 4096 \<Longrightarrow> m x = ram s x"
  then show "free_pages (s\<lparr>ram := m\<rparr>) ps"
    using flist_frame [of "ram s" "freelist s" ps m] by (simp add: free_pages_def)
qed

text \<open>
  C25. With a non-empty free list, \<open>heap_alloc_page\<close> returns its first page, all zero, leaves the
  rest of the list and every byte outside the page as they were, and changes no other variable;
  with an empty one it returns the null pointer, reports it and touches no memory.
\<close>

theorem heap_alloc_page_correct:
  assumes "free_pages s ps"
  shows "case ps of
      [] \<Rightarrow> heap_alloc_page s = (0, kprintf ''freelist uninitialized!\<newline>'' [] s)
    | p # qs \<Rightarrow> \<exists>s'. heap_alloc_page s = (p, s') \<and> free_pages s' qs \<and>
        ram s' = (\<lambda>x. if in_range x p 4096 then 0 else ram s x) \<and>
        s' = s\<lparr>freelist := freelist s', ram := ram s'\<rparr>"
  using assms heap_alloc_page_Nil heap_alloc_page_Cons by (cases ps) auto

theorem heap_alloc_page_witness:
  "fst (heap_alloc_page boot_heap) = 0 \<and>
   (let s = boot_heap\<lparr>freelist := 0x5000, ram := store64 (\<lambda>_. 7) 0x5000 0\<rparr> in
    fst (heap_alloc_page s) = 0x5000 \<and> ram (snd (heap_alloc_page s)) 0x5fff = 0 \<and>
    ram (snd (heap_alloc_page s)) 0x6000 = 7)"
proof -
  let ?s = "boot_heap\<lparr>freelist := 0x5000, ram := store64 (\<lambda>_. 7) 0x5000 0\<rparr>"
  have "free_pages ?s [0x5000]"
    by (simp add: free_pages_def page_aligned_def)
  from heap_alloc_page_correct [OF this]
  obtain s' where s': "heap_alloc_page ?s = (0x5000, s')"
    "ram s' = (\<lambda>x. if in_range x 0x5000 4096 then 0 else ram ?s x)"
    by auto
  moreover have "ram ?s 0x6000 = 7"
    by (simp add: store64_def store_le_def)
  ultimately show ?thesis
    using heap_alloc_page_correct [OF boot_heap_empty] by (simp add: Let_def in_range_def)
qed

section \<open>Boot\<close>

definition page_up :: "addr \<Rightarrow> addr" where
  "page_up a = (a + PAGE_SIZE - 1) AND (- PAGE_SIZE)"

lemma unat_page_down: "unat (w AND - 4096 :: u64) = 4096 * (unat w div 4096)"
proof -
  have neg: "- 4096 = NOT (mask 12 :: u64)"
    using minus_exp_eq_not_mask [of 12, where 'a = u64] by simp
  have "w AND NOT (mask 12) = push_bit 12 (drop_bit 12 w)"
    by (rule bit_word_eqI) (auto simp: bit_simps)
  also have "\<dots> = 4096 * drop_bit 12 w"
    by (simp add: push_bit_eq_mult)
  finally have "unat (w AND NOT (mask 12)) = 4096 * (unat w div 4096) mod 18446744073709551616"
    by (simp add: unat_word_ariths unsigned_drop_bit_eq drop_bit_eq_div mod_mult_right_eq)
  moreover have "4096 * (unat w div 4096) \<le> unat w" by simp
  ultimately show ?thesis
    using unat_lt_u64 [of w] unfolding neg by simp
qed

lemma page_up_aligned: "page_aligned (page_up a)"
  by (simp add: page_aligned_unat page_up_def unat_page_down)

lemma page_up_bounds:
  assumes "unat a + 4095 < 18446744073709551616"
  shows "unat a \<le> unat (page_up a)" "unat (page_up a) \<le> unat a + 4095"
proof -
  have "a + 4096 - 1 = a + of_nat 4095"
    by simp
  then have "unat (a + 4096 - 1) = unat a + 4095"
    by (simp only: unat_plus_of_nat [OF assms])
  then have "unat (page_up a) = 4096 * ((unat a + 4095) div 4096)"
    by (simp only: page_up_def PAGE_SIZE_eq unat_page_down)
  moreover have "(unat a + 4095) mod 4096 < 4096"
    by simp
  ultimately show "unat a \<le> unat (page_up a)" "unat (page_up a) \<le> unat a + 4095"
    using mult_div_mod_eq [of 4096 "unat a + 4095"] by linarith+
qed

lemma first_mem_setup_first:
  assumes "\<not> first_mem_init s"
  shows "ram (first_mem_setup bm base mbi s) = ram s"
    "heap_base (first_mem_setup bm base mbi s) = page_up base"
    "first_mem_init (first_mem_setup bm base mbi s)"
  using assms by (simp_all add: first_mem_setup_def Let_def kprintf_def get_memory_map_def page_up_def)

text \<open>The first \<open>early_mem_init\<close> up to its call of \<open>get_free_pages\<close>.\<close>

lemma early_mem_init_first:
  assumes "\<not> first_mem_init s"
  obtains t where "early_mem_init bm base mbi s =
      do { (s, _) \<leftarrow> get_free_pages (page_up base)
             (ucast (mbi_mem_upper (ram s) mbi) * 1024 - page_up base) t; Some s }"
    "ram t = ram s" "freelist t = 0" "heap_base t = page_up base" "first_mem_init t"
proof -
  define t where "t = (first_mem_setup bm base mbi (kprintf ''mbi->mem_upper = %lx\<newline>''
     [VInt (ucast (mbi_mem_upper (ram s) mbi) * 1024)] s))\<lparr>freelist := 0\<rparr>"
  show ?thesis
    by (rule that [of t]) (use assms in \<open>simp_all add: t_def early_mem_init_def Let_def
        first_mem_setup_first kprintf_def del: PAGE_SIZE_eq\<close>)
qed

lemma early_mem_init_frees:
  assumes "\<not> first_mem_init s" "unat base + 4095 < 18446744073709551616" "base \<noteq> 0"
    and e: "e = ucast (mbi_mem_upper (ram s) mbi) * 1024" "page_aligned e" "page_up base < e"
  defines "n \<equiv> unat (e - page_up base) div 4096"
  shows "\<exists>s'. early_mem_init bm base mbi s = Some s' \<and> heap_base s' = page_up base \<and>
    first_mem_init s' \<and> free_pages s' (pages (page_up base) n) \<and>
    (\<forall>x. (\<forall>q \<in> set (pages (page_up base) n). \<not> in_range x q 4096) \<longrightarrow> ram s' x = ram s x)"
proof -
  obtain t where t: "early_mem_init bm base mbi s =
      do { (s, _) \<leftarrow> get_free_pages (page_up base) (e - page_up base) t; Some s }"
    "ram t = ram s" "freelist t = 0" "heap_base t = page_up base" "first_mem_init t"
    by (rule early_mem_init_first [OF assms(1), of bm base mbi, folded e(1)])
  have "unat base \<noteq> 0"
    using assms(3) by (simp add: unat_eq_0)
  then have nz: "page_up base \<noteq> 0"
    using page_up_bounds(1) [OF assms(2)] by auto
  have le: "unat (page_up base) < unat e"
    using e(3) by (simp add: word_less_nat_alt)
  then have d: "unat (e - page_up base) = unat e - unat (page_up base)"
    by (simp add: unat_diff_split)
  have "4096 dvd unat (e - page_up base)"
    using e(2) page_up_aligned by (intro dvd_unat_diff_u64) (simp_all add: page_aligned_unat)
  then have n: "unat (e - page_up base) = 4096 * n"
    by (simp add: n_def)
  have "e - page_up base = of_nat (unat (e - page_up base))"
    by simp
  then have "e - page_up base = 4096 * of_nat n"
    unfolding n by (simp only: of_nat_mult of_nat_numeral)
  moreover have "0 < n" "unat (page_up base) + 4096 * n \<le> 18446744073709551616"
    using n d le unat_lt_u64 [of e] by linarith+
  moreover have "free_pages t []"
    using t(3) by (simp add: free_pages_def)
  ultimately obtain m where
    "get_free_pages (page_up base) (e - page_up base) t =
       Some (t\<lparr>freelist := page_up base, ram := m\<rparr>, page_up base)"
    "free_pages (t\<lparr>freelist := page_up base, ram := m\<rparr>) (pages (page_up base) n)"
    "\<forall>x. (\<forall>q \<in> set (pages (page_up base) n). \<not> in_range x q 4096) \<longrightarrow> m x = ram t x"
    using get_free_pages_eq [OF page_up_aligned nz, of n t "[]"] by auto
  then show ?thesis
    using t by simp
qed

text \<open>
  C24. At boot, when the upper memory ends on a page boundary above the rounded-up base,
  \<open>early_mem_init\<close> returns with a free list of exactly the whole pages between the two, and writes
  nothing but those pages.
\<close>

theorem early_mem_init_correct:
  assumes "\<not> first_mem_init s" "unat base + 4095 < 18446744073709551616" "base \<noteq> 0"
    and e: "e = ucast (mbi_mem_upper (ram s) mbi) * 1024" "page_aligned e" "page_up base < e"
  defines "n \<equiv> unat (e - page_up base) div 4096"
  shows "\<exists>s'. early_mem_init bm base mbi s = Some s' \<and> heap_base s' = page_up base \<and>
    first_mem_init s' \<and> free_pages s' (pages (page_up base) n) \<and>
    (\<forall>x. (\<forall>q \<in> set (pages (page_up base) n). \<not> in_range x q 4096) \<longrightarrow> ram s' x = ram s x)"
  unfolding n_def using assms(1-6) by (rule early_mem_init_frees)


theorem early_mem_init_witness:
  "\<exists>s'. early_mem_init False 0x100001 0x9000 (boot_heap\<lparr>ram := store32 (\<lambda>_. 0) 0x9008 0x410\<rparr>) =
      Some s' \<and> heap_base s' = 0x101000 \<and> free_pages s' (pages 0x101000 3)"
proof -
  let ?s = "boot_heap\<lparr>ram := store32 (\<lambda>_. 0) 0x9008 0x410\<rparr>"
  have p: "page_up 0x100001 = 0x101000"
    by (rule word_eq_of_unat) (simp add: page_up_def unat_page_down)
  have "mbi_mem_upper (ram ?s) 0x9000 = 0x410"
    by (simp add: mbi_mem_upper_def)
  then have e: "0x104000 = ucast (mbi_mem_upper (ram ?s) 0x9000) * (1024 :: u64)"
    by simp
  have "\<not> first_mem_init ?s"
    by (simp add: boot_heap_def)
  from early_mem_init_correct [OF this _ _ e, of "0x100001" False]
  show ?thesis
    by (auto simp: p page_aligned_def)
qed

text \<open>
  When the upper memory does not end on a page boundary (\<open>mem_upper\<close>, in KiB, is not a multiple
  of 4), the first \<open>early_mem_init\<close> never returns.
\<close>

theorem early_mem_init_partial_page_hangs:
  assumes "\<not> first_mem_init s" "\<not> 4 dvd unat (mbi_mem_upper (ram s) mbi)"
  shows "early_mem_init bm base mbi s = None"
proof -
  let ?u = "mbi_mem_upper (ram s) mbi" and ?e = "ucast (mbi_mem_upper (ram s) mbi) * 1024 :: u64"
  have "unat ?u < 4294967296"
    by (rule order.strict_trans2 [OF unsigned_less]) simp
  then have "unat ?e = unat ?u * 1024"
    by (simp add: unat_word_ariths unsigned_ucast_eq take_bit_nat_eq_self)
  then have e: "\<not> 4096 dvd unat ?e"
    using assms(2) dvd_times_right_cancel_iff [of 1024 4 "unat ?u"] by simp
  have "\<not> 4096 dvd unat (?e - page_up base)"
  proof
    assume "4096 dvd unat (?e - page_up base)"
    then have "4096 dvd unat (?e - page_up base + page_up base)"
      by (rule dvd_unat_add_u64) (use page_up_aligned in \<open>simp_all add: page_aligned_unat\<close>)
    with e show False by simp
  qed
  then have "get_free_pages (page_up base) (?e - page_up base) t = None" for t
    by (rule get_free_pages_None)
  with early_mem_init_first [OF assms(1), of bm base mbi] show ?thesis
    by (metis bind.bind_lzero)
qed

theorem early_mem_init_hang_witness:
  "early_mem_init False 0x100001 0x9000 (boot_heap\<lparr>ram := store32 (\<lambda>_. 0) 0x9008 0x411\<rparr>) = None"
  by (rule early_mem_init_partial_page_hangs) (simp_all add: boot_heap_def mbi_mem_upper_def)

end
