(* ===== verification/Paging.thy ===== *)
theory Paging
  imports Heap
begin

text \<open>
  Page tables (\<open>x86_64/heap.c\<close> with \<open>include/page.h\<close>): \<open>install_pte\<close> and what is built on it, up to
  \<open>setup_mmu\<close>. The reference is the address translation of the hardware, a walk of the tables in
  memory; the theorems say what an installation changes of it.
\<close>

section \<open>The model\<close>

definition PT_PRESENT_MASK :: u64 where "PT_PRESENT_MASK = push_bit 0 1"
definition PT_WRITABLE_MASK :: u64 where "PT_WRITABLE_MASK = push_bit 1 1"
definition PT_USER_MASK :: u64 where "PT_USER_MASK = push_bit 2 1"
definition PT_PAGE_SIZE_MASK :: u64 where "PT_PAGE_SIZE_MASK = push_bit 7 1"

definition GENMASK_ULL :: "nat \<Rightarrow> nat \<Rightarrow> u64" where
  "GENMASK_ULL h l = push_bit l (NOT 0) AND drop_bit (64 - 1 - h) (NOT 0)"

definition PT_ADDR_MASK :: u64 where
  "PT_ADDR_MASK = GENMASK_ULL 51 12"

definition PAGE_LEVEL :: nat where "PAGE_LEVEL = 4"
definition PGDIR_WIDTH :: nat where "PGDIR_WIDTH = 9"
definition PGDIR_MASK :: u64 where "PGDIR_MASK = 511"

definition PGDIR_BITS :: "nat \<Rightarrow> nat" where
  "PGDIR_BITS lvl = (lvl - 1) * PGDIR_WIDTH + 12"

definition PGDIR_OFFSET :: "addr \<Rightarrow> nat \<Rightarrow> u64" where
  "PGDIR_OFFSET va lvl = drop_bit (PGDIR_BITS lvl) va AND PGDIR_MASK"

text \<open>\<open>&pt[offset]\<close>, for the \<open>unsigned\<close> offset of \<open>install_pte\<close>.\<close>

definition pt_slot :: "addr \<Rightarrow> u32 \<Rightarrow> addr" where
  "pt_slot pt offset = pt + 8 * ucast offset"

text \<open>
  One iteration of the loop of \<open>install_pte\<close>: it returns the state, the next table and what is left
  of the page the caller gave. The allocator is an argument, so that its contract can be named.
\<close>

definition next_table :: "(heap \<Rightarrow> addr \<times> heap) \<Rightarrow> nat \<Rightarrow> addr \<Rightarrow> addr \<Rightarrow> addr \<Rightarrow> heap \<Rightarrow>
    heap \<times> addr \<times> addr" where
  "next_table alloc level virt pt pt_page s =
     (let offset = ucast (PGDIR_OFFSET virt level);
          (s, pt_page) =
            (if load64 (ram s) (pt_slot pt offset) AND PT_PRESENT_MASK = 0 then
               let (new_pt, s, pt_page) =
                     (if pt_page = 0 then let (p, s) = alloc s in (p, s, pt_page)
                      else (pt_page, s, 0));
                   s = s\<lparr>ram := memset (ram s) new_pt 0 PAGE_SIZE\<rparr>;
                   s = s\<lparr>ram := store64 (ram s) (pt_slot pt offset)
                            (new_pt OR PT_PRESENT_MASK OR PT_WRITABLE_MASK OR PT_USER_MASK)\<rparr>
               in (s, pt_page)
             else (s, pt_page))
      in (s, load64 (ram s) (pt_slot pt offset) AND PT_ADDR_MASK, pt_page))"

function install_loop :: "(heap \<Rightarrow> addr \<times> heap) \<Rightarrow> nat \<Rightarrow> nat \<Rightarrow> addr \<Rightarrow> addr \<Rightarrow> addr \<Rightarrow> heap \<Rightarrow>
    heap \<times> addr" where
  "install_loop alloc level pte_level virt pt pt_page s =
     (if pte_level < level then
        let (s, pt, pt_page) = next_table alloc level virt pt pt_page s
        in install_loop alloc (level - 1) pte_level virt pt pt_page s
      else (s, pt))"
  by pat_completeness auto
termination
  by (relation "measure (\<lambda>(a, level, b). level)") auto

declare install_loop.simps [simp del]

text \<open>The rest of \<open>install_pte\<close>, from a level on: the loop, then the store of the entry.\<close>

definition install_from :: "(heap \<Rightarrow> addr \<times> heap) \<Rightarrow> nat \<Rightarrow> nat \<Rightarrow> addr \<Rightarrow> u64 \<Rightarrow> addr \<Rightarrow> addr \<Rightarrow>
    heap \<Rightarrow> heap \<times> addr" where
  "install_from alloc level pte_level virt pte pt pt_page s =
     (let (s, pt) = install_loop alloc level pte_level virt pt pt_page s;
          offset = ucast (PGDIR_OFFSET virt pte_level)
      in (s\<lparr>ram := store64 (ram s) (pt_slot pt offset) pte\<rparr>, pt_slot pt offset))"

definition install_pte :: "addr \<Rightarrow> nat \<Rightarrow> addr \<Rightarrow> u64 \<Rightarrow> addr \<Rightarrow> heap \<Rightarrow> heap \<times> addr" where
  "install_pte root pte_level virt pte pt_page s =
     install_from heap_alloc_page PAGE_LEVEL pte_level virt pte root pt_page s"

definition install_large_page :: "addr \<Rightarrow> u64 \<Rightarrow> addr \<Rightarrow> heap \<Rightarrow> heap \<times> addr" where
  "install_large_page root phys virt s =
     install_pte root 2 virt
       (phys OR PT_PRESENT_MASK OR PT_WRITABLE_MASK OR PT_USER_MASK OR PT_PAGE_SIZE_MASK) 0 s"

definition install_page :: "addr \<Rightarrow> u64 \<Rightarrow> addr \<Rightarrow> heap \<Rightarrow> heap \<times> addr" where
  "install_page root phys virt s =
     install_pte root 1 virt (phys OR PT_PRESENT_MASK OR PT_WRITABLE_MASK OR PT_USER_MASK) 0 s"

partial_function (option) install_pages_loop ::
    "addr \<Rightarrow> u64 \<Rightarrow> u64 \<Rightarrow> addr \<Rightarrow> heap \<Rightarrow> heap option" where
  "install_pages_loop root phys limit virt s =
     (if phys + PAGE_SIZE \<le> limit
      then install_pages_loop root (phys + PAGE_SIZE) limit (virt + PAGE_SIZE)
             (fst (install_page root phys virt s))
      else Some s)"

definition install_pages :: "addr \<Rightarrow> u64 \<Rightarrow> u64 \<Rightarrow> addr \<Rightarrow> heap \<Rightarrow> heap option" where
  "install_pages root phys len virt s = install_pages_loop root phys (len + phys) virt s"

text \<open>\<open>read_cr3\<close> and \<open>write_cr3\<close> are the register field of the state.\<close>

definition setup_mmu :: "u64 \<Rightarrow> heap \<Rightarrow> (heap \<times> addr) option" where
  "setup_mmu end_of_memory s =
     (let (root, s) = heap_alloc_page s;
          end_of_memory = (if end_of_memory = 0 then push_bit 32 1 else end_of_memory)
      in do { s \<leftarrow> install_pages root 0 end_of_memory 0 s;
              let s = s\<lparr>start_cr3 := cr3 s\<rparr>;
              Some (s\<lparr>cr3 := root\<rparr>, root) })"

definition switch_to_start_cr3 :: "heap \<Rightarrow> heap" where
  "switch_to_start_cr3 s = s\<lparr>cr3 := start_cr3 s\<rparr>"

section \<open>The translation of the hardware\<close>

text \<open>
  The index an address has in the table of a level, the entry a table has at an index, and how a
  4-level walk reads an entry at level \<open>l + 1\<close>: as a pointer to the table of level \<open>l\<close>, or as the frame
  of a page of $2^{12 + 9l}$ bytes.
\<close>

definition idx :: "addr \<Rightarrow> nat \<Rightarrow> nat" where
  "idx va lvl = unat (PGDIR_OFFSET va lvl)"

definition entry :: "mem \<Rightarrow> addr \<Rightarrow> nat \<Rightarrow> u64" where
  "entry m pt i = load64 m (pt + 8 * of_nat i)"

definition is_table :: "nat \<Rightarrow> u64 \<Rightarrow> bool" where
  "is_table l e \<longleftrightarrow> bit e 0 \<and> 0 < l \<and> \<not> bit e 7"

definition leaf :: "nat \<Rightarrow> u64 \<Rightarrow> addr \<Rightarrow> addr option" where
  "leaf l e v =
     (if bit e 0 \<and> l \<le> 2
      then Some ((e AND PT_ADDR_MASK AND NOT (mask (12 + 9 * l))) OR (v AND mask (12 + 9 * l)))
      else None)"

fun walk :: "mem \<Rightarrow> nat \<Rightarrow> addr \<Rightarrow> addr \<Rightarrow> addr option" where
  "walk m 0 pt v = None"
| "walk m (Suc l) pt v =
     (let e = entry m pt (idx v (Suc l))
      in if is_table l e then walk m l (e AND PT_ADDR_MASK) v else leaf l e v)"

text \<open>The tables reachable from a table, in walk order.\<close>

fun tables :: "mem \<Rightarrow> nat \<Rightarrow> addr \<Rightarrow> addr list" where
  "tables m 0 pt = []"
| "tables m (Suc l) pt = pt # concat (map
     (\<lambda>i. if is_table l (entry m pt i) then tables m l (entry m pt i AND PT_ADDR_MASK) else []) [0..<512])"

definition child :: "mem \<Rightarrow> nat \<Rightarrow> addr \<Rightarrow> nat \<Rightarrow> addr list" where
  "child m l pt i =
     (if is_table l (entry m pt i) then tables m l (entry m pt i AND PT_ADDR_MASK) else [])"

lemma tables_Suc: "tables m (Suc l) pt = pt # concat (map (child m l pt) [0..<512])"
  by (simp add: child_def [abs_def])

declare tables.simps(2) [simp del]

lemma child_subset: "i < 512 \<Longrightarrow> set (child m l pt i) \<subseteq> set (tables m (Suc l) pt)"
  by (auto simp: tables_Suc)

lemma child_table: "is_table l (entry m pt i) \<Longrightarrow>
    child m l pt i = tables m l (entry m pt i AND PT_ADDR_MASK)"
  by (simp add: child_def)

text \<open>
  How many tables an installation at level \<open>L\<close> has to add, whether it can go down to that level, and
  the level of the first index two addresses differ in.
\<close>

fun missing :: "mem \<Rightarrow> nat \<Rightarrow> nat \<Rightarrow> addr \<Rightarrow> addr \<Rightarrow> nat" where
  "missing m 0 L pt v = 0"
| "missing m (Suc l) L pt v =
     (if Suc l \<le> L then 0
      else let e = entry m pt (idx v (Suc l))
           in if is_table l e then missing m l L (e AND PT_ADDR_MASK) v
              else if bit e 0 then 0 else Suc l - L)"

fun path_ok :: "mem \<Rightarrow> nat \<Rightarrow> nat \<Rightarrow> addr \<Rightarrow> addr \<Rightarrow> bool" where
  "path_ok m 0 L pt v = False"
| "path_ok m (Suc l) L pt v =
     (let e = entry m pt (idx v (Suc l))
      in if Suc l \<le> L then \<not> is_table l e
         else bit e 0 \<longrightarrow> \<not> bit e 7 \<and> path_ok m l L (e AND PT_ADDR_MASK) v)"

fun diverge :: "nat \<Rightarrow> addr \<Rightarrow> addr \<Rightarrow> nat" where
  "diverge 0 v w = 0"
| "diverge (Suc l) v w = (if idx v (Suc l) \<noteq> idx w (Suc l) then Suc l else diverge l v w)"

section \<open>Bits\<close>

lemma bit_PT_ADDR_MASK: "bit PT_ADDR_MASK n \<longleftrightarrow> 12 \<le> n \<and> n \<le> 51"
  by (auto simp: PT_ADDR_MASK_def GENMASK_ULL_def bit_simps)

lemma present_bit: "e AND PT_PRESENT_MASK = 0 \<longleftrightarrow> \<not> bit e 0"
  by (simp add: PT_PRESENT_MASK_def and_one_eq odd_iff_mod_2_eq_one even_iff_mod_2_eq_zero bit_0)

lemma table_flags: "PT_PRESENT_MASK OR PT_WRITABLE_MASK OR PT_USER_MASK = 7"
  by (simp add: PT_PRESENT_MASK_def PT_WRITABLE_MASK_def PT_USER_MASK_def)

lemma bit_7: "bit (7 :: u64) n \<longleftrightarrow> n < 3"
  using bit_mask_iff [of 3 n, where 'a = u64] by (auto simp: mask_eq_exp_minus_1)

lemma masked_aligned: "page_aligned (e AND PT_ADDR_MASK)"
  by (simp add: page_aligned_bit bit_simps bit_PT_ADDR_MASK)

text \<open>An aligned address of the 52 physical address bits survives the mask.\<close>

lemma masked_id:
  assumes "page_aligned p" "unat p < 4503599627370496"
  shows "p AND PT_ADDR_MASK = p"
proof -
  have "take_bit 52 p = p"
    by (rule word_eq_of_unat) (use assms(2) in \<open>simp add: unsigned_take_bit_eq take_bit_nat_eq_self\<close>)
  then have "n < 52" if "bit p n" for n
    using that by (metis bit_take_bit_iff)
  then have "12 \<le> n \<and> n \<le> 51" if "bit p n" for n
    using that assms(1) by (fastforce simp: page_aligned_bit not_less [symmetric])
  then show ?thesis
    by (intro bit_word_eqI) (auto simp: bit_and_iff bit_PT_ADDR_MASK)
qed

lemma idx_less: "idx va lvl < 512"
proof -
  have "PGDIR_OFFSET va lvl = take_bit 9 (drop_bit (PGDIR_BITS lvl) va)"
    by (simp add: PGDIR_OFFSET_def PGDIR_MASK_def take_bit_eq_mask mask_eq_exp_minus_1)
  then show ?thesis
    using take_bit_nat_less_exp [of 9 "unat (drop_bit (PGDIR_BITS lvl) va)"]
    by (simp add: idx_def unsigned_take_bit_eq)
qed

lemma pt_slot_idx: "pt_slot pt (ucast (PGDIR_OFFSET va lvl)) = pt + 8 * of_nat (idx va lvl)"
proof -
  have "(ucast (ucast w :: u32) :: u64) = of_nat (unat w)" if "unat w < 512" for w :: u64
    by (rule word_eq_of_unat) (use that in \<open>simp add: unsigned_ucast_eq unsigned_take_bit_eq take_bit_nat_eq_self\<close>)
  then show ?thesis
    using idx_less [of va lvl] by (simp add: pt_slot_def idx_def)
qed

lemma diverge_le: "diverge l v w \<le> l"
  by (induction l) auto

lemma missing_le: "missing m l L pt v \<le> l - L"
proof (induction l arbitrary: pt)
  case (Suc l)
  show ?case
    using Suc [of "entry m pt (idx v (Suc l)) AND PT_ADDR_MASK"] by (auto simp: Let_def)
qed simp

lemma diverge_self [simp]: "diverge l v v = 0"
  by (induction l) auto


section \<open>Frames\<close>

lemma slot_in_page:
  assumes "i < 512" "in_range x (pt + 8 * of_nat i) 8"
  shows "in_range x pt 4096"
proof -
  have i: "unat (8 * of_nat i :: u64) = 8 * i"
    using assms(1) by (simp add: unat_word_ariths)
  have "unat (x - (pt + 8 * of_nat i)) < 8"
    using assms(2) by (simp add: in_range_def)
  then have "unat (x - (pt + 8 * of_nat i) + 8 * of_nat i) = unat (x - (pt + 8 * of_nat i)) + 8 * i"
    using assms(1) i by (subst unat_plus_u64) simp_all
  then show ?thesis
    using assms \<open>unat (x - (pt + 8 * of_nat i)) < 8\<close> by (simp add: in_range_def)
qed

lemma slots_disj:
  assumes "i < 512" "j < 512" "i \<noteq> j"
  shows "disj (pt + 8 * of_nat i) 8 (pt + 8 * of_nat j) 8"
proof -
  have "8 \<le> unat (8 * of_nat j - 8 * of_nat i :: u64)" if "i < 512" "j < 512" "i \<noteq> j" for i j
    using that by (simp add: unat_diff_split unat_word_ariths) linarith
  then show ?thesis
    using assms by (intro disj_apart) simp_all
qed

lemma entry_frame:
  assumes "i < 512" "\<And>x. in_range x pt 4096 \<Longrightarrow> m' x = m x"
  shows "entry m' pt i = entry m pt i"
  unfolding entry_def using assms slot_in_page by (intro load64_cong) blast

lemma entry_store_same: "entry (store64 m (pt + 8 * of_nat i) e) pt i = e"
  by (simp add: entry_def)

lemma entry_store_other:
  assumes "i < 512" "j < 512" "i \<noteq> j"
  shows "entry (store64 m (pt + 8 * of_nat i) e) pt j = entry m pt j"
  unfolding entry_def using slots_disj [of j i pt] assms by (simp add: load64_store64_disj)

text \<open>The walk, its tables and what is derived from them depend on those tables only.\<close>

lemma tables_frame:
  assumes "\<And>t x. t \<in> set (tables m l pt) \<Longrightarrow> in_range x t 4096 \<Longrightarrow> m' x = m x"
  shows "tables m' l pt = tables m l pt \<and> walk m' l pt v = walk m l pt v \<and>
    missing m' l L pt v = missing m l L pt v \<and> path_ok m' l L pt v = path_ok m l L pt v"
  using assms
proof (induction l arbitrary: pt)
  case (Suc l)
  have e: "entry m' pt i = entry m pt i" if "i < 512" for i
    using that Suc.prems by (intro entry_frame) (auto simp: tables_Suc)
  have c: "tables m' l (entry m pt i AND PT_ADDR_MASK) = tables m l (entry m pt i AND PT_ADDR_MASK) \<and>
      walk m' l (entry m pt i AND PT_ADDR_MASK) v = walk m l (entry m pt i AND PT_ADDR_MASK) v \<and>
      missing m' l L (entry m pt i AND PT_ADDR_MASK) v = missing m l L (entry m pt i AND PT_ADDR_MASK) v \<and>
      path_ok m' l L (entry m pt i AND PT_ADDR_MASK) v = path_ok m l L (entry m pt i AND PT_ADDR_MASK) v"
    if "i < 512" "is_table l (entry m pt i)" for i
    using child_subset [OF that(1), of m l pt] unfolding child_table [OF that(2)]
    by (intro Suc.IH Suc.prems) auto
  have "tables m' (Suc l) pt = tables m (Suc l) pt"
    using e c by (auto simp: tables_Suc child_def intro!: arg_cong [of _ _ concat])
  then show ?case
    using e [OF idx_less] c [OF idx_less] by (auto simp: Let_def is_table_def)
qed simp


section \<open>Changing one subtree\<close>

text \<open>
  \<open>m'\<close> is \<open>m\<close> but for slot \<open>i\<close> of the table, the tables below that slot and the new pages \<open>N\<close>.
\<close>

definition only_subtree :: "mem \<Rightarrow> mem \<Rightarrow> nat \<Rightarrow> addr \<Rightarrow> nat \<Rightarrow> addr set \<Rightarrow> bool" where
  "only_subtree m m' l pt i N \<longleftrightarrow>
     (\<forall>x. \<not> in_range x (pt + 8 * of_nat i) 8 \<longrightarrow>
        (\<forall>t \<in> set (child m l pt i) \<union> N. \<not> in_range x t 4096) \<longrightarrow> m' x = m x)"

definition wf_tables :: "mem \<Rightarrow> nat \<Rightarrow> addr \<Rightarrow> bool" where
  "wf_tables m l pt \<longleftrightarrow> distinct (tables m l pt) \<and> (\<forall>t \<in> set (tables m l pt). page_aligned t)"

lemma upt_split: "i < n \<Longrightarrow> [0..<n] = [0..<i] @ i # [Suc i..<n]"
  using upt_add_eq_append [of 0 i "n - i"] by (simp add: upt_conv_Cons)

lemma tables_split:
  "i < 512 \<Longrightarrow> tables m (Suc l) pt = pt # concat (map (child m l pt) [0..<i]) @ child m l pt i @
     concat (map (child m l pt) [Suc i..<512])"
  by (simp add: tables_Suc upt_split)

lemma distinct_replace:
  assumes "distinct (p # A @ C @ B)" "distinct C'" "set C' = set C \<union> N"
    "N \<inter> set (p # A @ C @ B) = {}"
  shows "distinct (p # A @ C' @ B)" "set (p # A @ C' @ B) = set (p # A @ C @ B) \<union> N"
  using assms by auto

lemma other_children:
  assumes wf: "wf_tables m (Suc l) pt" and i: "i < 512" and j: "j < 512" "j \<noteq> i"
    and N: "N \<inter> set (tables m (Suc l) pt) = {}" "\<forall>p \<in> N. page_aligned p"
    and only: "only_subtree m m' l pt i N"
  shows "entry m' pt j = entry m pt j"
    "t \<in> set (child m l pt j) \<Longrightarrow> in_range x t 4096 \<Longrightarrow> m' x = m x"
proof -
  have d: "distinct (tables m (Suc l) pt)" and a: "\<forall>t \<in> set (tables m (Suc l) pt). page_aligned t"
    using wf by (auto simp: wf_tables_def)
  have "set (concat (map (child m l pt) [0..<i])) \<inter> set (child m l pt i) = {}"
    "set (child m l pt i) \<inter> set (concat (map (child m l pt) [Suc i..<512])) = {}"
    using d unfolding tables_split [OF i] by auto
  moreover have "set (child m l pt j) \<subseteq> set (concat (map (child m l pt) [0..<i])) \<or>
      set (child m l pt j) \<subseteq> set (concat (map (child m l pt) [Suc i..<512]))"
    using j by (cases "j < i") (force, fastforce)
  ultimately have disj: "set (child m l pt j) \<inter> set (child m l pt i) = {}"
    by blast
  have root: "pt \<notin> set (child m l pt i)" "pt \<notin> set (child m l pt j)" "page_aligned pt"
    using d a i j by (auto simp: tables_split)
  have al: "\<forall>t \<in> set (child m l pt i) \<union> N. page_aligned t"
    using a N child_subset [OF i, of m l pt] by auto
  show "entry m' pt j = entry m pt j"
    unfolding entry_def
  proof (rule load64_cong)
    fix x assume x: "in_range x (pt + 8 * of_nat j) 8"
    then have "in_range x pt 4096"
      using slot_in_page j by blast
    then have "\<not> in_range x t 4096" if "t \<in> set (child m l pt i) \<union> N" for t
      using that root N al page_not_in_other [of pt t x] by (auto simp: tables_Suc)
    then show "m' x = m x"
      using only x slots_disj [OF j(1) i j(2), of pt] by (auto simp: only_subtree_def disj_def)
  qed
  assume t: "t \<in> set (child m l pt j)" and x: "in_range x t 4096"
  then have t': "t \<in> set (tables m (Suc l) pt)"
    using child_subset [OF j(1)] by auto
  then have pa: "page_aligned t"
    using a by blast
  have "\<not> in_range x u 4096" if "u \<in> set (child m l pt i) \<union> N" for u
    using that t t' disj N al pa x by (intro page_not_in_other [of t u x]) auto
  moreover have "\<not> in_range x pt 4096"
    using t root pa x by (intro page_not_in_other [of t pt x]) auto
  ultimately show "m' x = m x"
    using only slot_in_page [OF i, of x pt] unfolding only_subtree_def by blast
qed

text \<open>
  The tables, and the translation of every address that does not go through slot \<open>i\<close>, after such a
  change.
\<close>

lemma subtree_changed:
  assumes wf: "wf_tables m (Suc l) pt" and i: "i < 512"
    and N: "N \<inter> set (tables m (Suc l) pt) = {}" "\<forall>p \<in> N. page_aligned p"
    and only: "only_subtree m m' l pt i N"
    and new: "distinct (child m' l pt i)" "set (child m' l pt i) = set (child m l pt i) \<union> N"
  shows "wf_tables m' (Suc l) pt"
    "set (tables m' (Suc l) pt) = set (tables m (Suc l) pt) \<union> N"
    "idx v (Suc l) \<noteq> i \<Longrightarrow> walk m' (Suc l) pt v = walk m (Suc l) pt v \<and>
       missing m' (Suc l) L pt v = missing m (Suc l) L pt v \<and>
       path_ok m' (Suc l) L pt v = path_ok m (Suc l) L pt v"
proof -
  note other = other_children [OF wf i _ _ N only]
  have same: "child m' l pt j = child m l pt j" if "j < 512" "j \<noteq> i" for j
    using other [OF that] tables_frame [of m l "entry m pt j AND PT_ADDR_MASK" m']
    by (auto simp: child_def)
  then have c: "concat (map (child m' l pt) [0..<i]) = concat (map (child m l pt) [0..<i])"
    "concat (map (child m' l pt) [Suc i..<512]) = concat (map (child m l pt) [Suc i..<512])"
    using i by (auto intro!: arg_cong [of _ _ concat])
  note r = distinct_replace [OF _ new, of pt "concat (map (child m l pt) [0..<i])"
      "concat (map (child m l pt) [Suc i..<512])", folded tables_split [OF i], OF _ N(1)]
  have d: "distinct (tables m (Suc l) pt)"
    using wf by (simp add: wf_tables_def)
  show s: "set (tables m' (Suc l) pt) = set (tables m (Suc l) pt) \<union> N"
    using r(2) [OF d] unfolding tables_split [OF i, of m'] c .
  have "distinct (tables m' (Suc l) pt)"
    using r(1) [OF d] unfolding tables_split [OF i, of m'] c .
  then show "wf_tables m' (Suc l) pt"
    using wf N(2) s by (auto simp: wf_tables_def)
  assume v: "idx v (Suc l) \<noteq> i"
  note o = other [OF idx_less v]
  have "is_table l (entry m pt (idx v (Suc l))) \<Longrightarrow>
      walk m' l (entry m pt (idx v (Suc l)) AND PT_ADDR_MASK) v =
        walk m l (entry m pt (idx v (Suc l)) AND PT_ADDR_MASK) v \<and>
      missing m' l L (entry m pt (idx v (Suc l)) AND PT_ADDR_MASK) v =
        missing m l L (entry m pt (idx v (Suc l)) AND PT_ADDR_MASK) v \<and>
      path_ok m' l L (entry m pt (idx v (Suc l)) AND PT_ADDR_MASK) v =
        path_ok m l L (entry m pt (idx v (Suc l)) AND PT_ADDR_MASK) v"
    using o(2) tables_frame [of m l "entry m pt (idx v (Suc l)) AND PT_ADDR_MASK" m' v L]
    by (auto simp: child_table)
  then show "walk m' (Suc l) pt v = walk m (Suc l) pt v \<and>
       missing m' (Suc l) L pt v = missing m (Suc l) L pt v \<and>
       path_ok m' (Suc l) L pt v = path_ok m (Suc l) L pt v"
    using o(1) by (cases l) (auto simp: Let_def is_table_def)
qed


section \<open>One installation\<close>

lemma install_from_leaf:
  "install_from alloc L L virt pte pt pp s =
     (s\<lparr>ram := store64 (ram s) (pt + 8 * of_nat (idx virt L)) pte\<rparr>, pt + 8 * of_nat (idx virt L))"
  by (simp add: install_from_def install_loop.simps pt_slot_idx)

lemma install_from_step:
  "L \<le> l \<Longrightarrow> install_from alloc (Suc l) L virt pte pt pp s =
     (let (s, pt, pp) = next_table alloc (Suc l) virt pt pp s
      in install_from alloc l L virt pte pt pp s)"
  by (simp add: install_from_def install_loop.simps [of alloc "Suc l"] split: prod.split)

lemma next_table_present:
  "bit (entry (ram s) pt (idx virt l)) 0 \<Longrightarrow>
   next_table alloc l virt pt pp s = (s, entry (ram s) pt (idx virt l) AND PT_ADDR_MASK, pp)"
  by (simp add: next_table_def pt_slot_idx present_bit entry_def)

lemma next_table_absent:
  "\<not> bit (entry (ram s) pt (idx virt l)) 0 \<Longrightarrow> alloc s = (p, s1) \<Longrightarrow>
   next_table alloc l virt pt 0 s =
     (s1\<lparr>ram := store64 (memset (ram s1) p 0 4096) (pt + 8 * of_nat (idx virt l)) (p OR 7)\<rparr>,
      (p OR 7) AND PT_ADDR_MASK, 0)"
  by (simp add: next_table_def pt_slot_idx present_bit entry_def or.assoc table_flags)

text \<open>
  What an installation of \<open>pte\<close> at level \<open>L\<close> for \<open>virt\<close> does to the tables below \<open>pt\<close>: the new tables
  are the pages \<open>N\<close>, nothing outside the tables changes, exactly the addresses that agree with \<open>virt\<close>
  down to level \<open>L\<close> get the new entry, and every other translation stays.
\<close>

definition installed :: "mem \<Rightarrow> mem \<Rightarrow> nat \<Rightarrow> nat \<Rightarrow> addr \<Rightarrow> addr \<Rightarrow> u64 \<Rightarrow> addr set \<Rightarrow> bool" where
  "installed m m' l L pt virt pte N \<longleftrightarrow>
     wf_tables m' l pt \<and> set (tables m' l pt) = set (tables m l pt) \<union> N \<and>
     (\<forall>x. (\<forall>t \<in> set (tables m l pt) \<union> N. \<not> in_range x t 4096) \<longrightarrow> m' x = m x) \<and>
     (\<forall>v. walk m' l pt v = (if diverge l v virt < L then leaf (L - 1) pte v else walk m l pt v)) \<and>
     (\<forall>v. missing m' l L pt v = min (missing m l L pt v) (diverge l v virt - L)) \<and>
     (\<forall>v. path_ok m l L pt v \<longrightarrow> path_ok m' l L pt v)"

lemma installed_leaf:
  assumes wf: "wf_tables m (Suc l) pt" and ok: "path_ok m (Suc l) (Suc l) pt virt"
    and pte: "\<not> is_table l pte"
  shows "installed m (store64 m (pt + 8 * of_nat (idx virt (Suc l))) pte) (Suc l) (Suc l) pt virt pte {}"
proof -
  let ?i = "idx virt (Suc l)"
  let ?m = "store64 m (pt + 8 * of_nat ?i) pte"
  have old: "child m l pt ?i = []"
    using ok by (simp add: child_def Let_def)
  have new: "child ?m l pt ?i = []"
    using pte by (simp add: child_def entry_store_same)
  have only: "only_subtree m ?m l pt ?i {}"
    by (simp add: only_subtree_def store64_outside)
  note c = subtree_changed [OF wf idx_less _ _ only]
  have sub: "wf_tables ?m (Suc l) pt" "set (tables ?m (Suc l) pt) = set (tables m (Suc l) pt)"
    using c(1,2) old new by simp_all
  have frame: "?m x = m x" if "\<not> in_range x pt 4096" for x
    using that slot_in_page [OF idx_less] by (intro store64_outside) blast
  have here: "diverge (Suc l) v virt < Suc l \<longleftrightarrow> idx v (Suc l) = ?i" for v
    using diverge_le [of l v virt] by (auto simp: less_Suc_eq_le)
  have walk: "walk ?m (Suc l) pt v =
      (if diverge (Suc l) v virt < Suc l then leaf l pte v else walk m (Suc l) pt v)" for v
  proof (cases "idx v (Suc l) = ?i")
    case True
    then show ?thesis
      unfolding here using pte by (simp add: Let_def entry_store_same)
  next
    case False
    then show ?thesis
      unfolding here using c(3) old new by simp
  qed
  have "path_ok ?m (Suc l) (Suc l) pt v" if "path_ok m (Suc l) (Suc l) pt v" for v
  proof (cases "idx v (Suc l) = ?i")
    case True
    then show ?thesis using pte by (simp add: Let_def entry_store_same)
  next
    case False
    then show ?thesis
      using that c(3) [of v "Suc l"] old new by (simp del: path_ok.simps walk.simps missing.simps)
  qed
  then show ?thesis
    using sub frame walk by (auto simp: installed_def tables_Suc)
qed

text \<open>The same one level up: the subtree of slot \<open>i\<close> got the installation.\<close>

lemma installed_up:
  assumes wf: "wf_tables m (Suc l) pt" and i: "i = idx virt (Suc l)" and L: "1 \<le> L" "L \<le> l"
    and N: "N \<inter> set (tables m (Suc l) pt) = {}" "\<forall>p \<in> N. page_aligned p"
    and only: "only_subtree m m' l pt i N"
    and tab: "is_table l (entry m' pt i)"
    and low: "wf_tables m' l (entry m' pt i AND PT_ADDR_MASK)"
      "set (tables m' l (entry m' pt i AND PT_ADDR_MASK)) = set (child m l pt i) \<union> N"
    and sub: "\<And>v. idx v (Suc l) = i \<Longrightarrow>
        walk m' l (entry m' pt i AND PT_ADDR_MASK) v =
          (if diverge l v virt < L then leaf (L - 1) pte v else walk m (Suc l) pt v)"
      "\<And>v. idx v (Suc l) = i \<Longrightarrow>
        missing m' l L (entry m' pt i AND PT_ADDR_MASK) v =
          min (missing m (Suc l) L pt v) (diverge l v virt - L)"
      "\<And>v. idx v (Suc l) = i \<Longrightarrow> path_ok m (Suc l) L pt v \<Longrightarrow>
        path_ok m' l L (entry m' pt i AND PT_ADDR_MASK) v"
  shows "installed m m' (Suc l) L pt virt pte N"
proof -
  have i512: "i < 512" by (simp add: i idx_less)
  have new: "distinct (child m' l pt i)" "set (child m' l pt i) = set (child m l pt i) \<union> N"
    using low tab by (simp_all add: child_table wf_tables_def)
  note c = subtree_changed [OF wf i512 N only new]
  have frame: "m' x = m x" if "\<forall>t \<in> set (tables m (Suc l) pt) \<union> N. \<not> in_range x t 4096" for x
  proof -
    have "\<not> in_range x pt 4096"
      using that by (simp add: tables_Suc)
    then have "\<not> in_range x (pt + 8 * of_nat i) 8"
      using slot_in_page [OF i512] by blast
    moreover have "\<forall>t \<in> set (child m l pt i) \<union> N. \<not> in_range x t 4096"
      using that child_subset [OF i512, of m l pt] by auto
    ultimately show ?thesis
      using only by (auto simp: only_subtree_def)
  qed
  have "walk m' (Suc l) pt v =
        (if diverge (Suc l) v virt < L then leaf (L - 1) pte v else walk m (Suc l) pt v) \<and>
      missing m' (Suc l) L pt v = min (missing m (Suc l) L pt v) (diverge (Suc l) v virt - L) \<and>
      (path_ok m (Suc l) L pt v \<longrightarrow> path_ok m' (Suc l) L pt v)" for v
  proof (cases "idx v (Suc l) = i")
    case True
    have "walk m' (Suc l) pt v = walk m' l (entry m' pt i AND PT_ADDR_MASK) v"
      "missing m' (Suc l) L pt v = missing m' l L (entry m' pt i AND PT_ADDR_MASK) v"
      "path_ok m' (Suc l) L pt v = path_ok m' l L (entry m' pt i AND PT_ADDR_MASK) v"
      "diverge (Suc l) v virt = diverge l v virt"
      using True tab L i by (simp_all add: Let_def is_table_def)
    then show ?thesis
      using sub [OF True] by simp
  next
    case False
    moreover have "missing m (Suc l) L pt v \<le> Suc l - L"
      by (rule missing_le)
    ultimately show ?thesis
      using c(3) [of v L] L i by simp
  qed
  then show ?thesis
    using c(1,2) frame by (simp add: installed_def)
qed


text \<open>A zero page is a table without entries.\<close>

lemma fresh_table:
  assumes "\<And>x. in_range x p 4096 \<Longrightarrow> m x = 0"
  shows "tables m (Suc l) p = [p]" "walk m (Suc l) p v = None"
    "missing m (Suc l) L p v = Suc l - L" "path_ok m (Suc l) L p v"
proof -
  have e: "entry m p i = 0" if "i < 512" for i
    unfolding entry_def using assms slot_in_page [OF that] by (intro load64_zero) blast
  show "tables m (Suc l) p = [p]"
    using e by (simp add: tables_Suc child_def is_table_def)
  show "walk m (Suc l) p v = None" "missing m (Suc l) L p v = Suc l - L" "path_ok m (Suc l) L p v"
    using e [OF idx_less] by (simp_all add: Let_def is_table_def leaf_def)
qed

lemma table_entry:
  assumes "p AND PT_ADDR_MASK = p"
  shows "(p OR 7) AND PT_ADDR_MASK = p" "0 < l \<Longrightarrow> is_table l (p OR 7)"
proof -
  have b: "bit p n \<Longrightarrow> 12 \<le> n \<and> n \<le> 51" for n
    using assms by (metis bit_and_iff bit_PT_ADDR_MASK)
  show "(p OR 7) AND PT_ADDR_MASK = p"
  proof (rule bit_word_eqI)
    fix n
    show "bit ((p OR 7) AND PT_ADDR_MASK) n = bit p n"
      using b [of n] unfolding bit_and_iff bit_or_iff bit_7 bit_PT_ADDR_MASK by auto
  qed
  show "0 < l \<Longrightarrow> is_table l (p OR 7)"
    using b [of 7] unfolding is_table_def bit_or_iff bit_7 by auto
qed

lemma installed_present:
  assumes wf: "wf_tables m (Suc l) pt" and e: "e = entry m pt (idx virt (Suc l))" "bit e 0"
    and ok: "path_ok m (Suc l) L pt virt" and L: "1 \<le> L" "L \<le> l"
    and N: "N \<inter> set (tables m (Suc l) pt) = {}" "\<forall>p \<in> N. page_aligned p"
    and inst: "installed m m' l L (e AND PT_ADDR_MASK) virt pte N"
  shows "installed m m' (Suc l) L pt virt pte N"
proof -
  let ?i = "idx virt (Suc l)"
  have tab: "is_table l e"
    using ok e L by (simp add: is_table_def Let_def)
  then have ch: "child m l pt ?i = tables m l (e AND PT_ADDR_MASK)"
    unfolding e(1) by (rule child_table)
  have only: "only_subtree m m' l pt ?i N"
    using inst by (simp add: only_subtree_def ch installed_def)
  have "entry m' pt ?i = e"
    unfolding e(1)
  proof (rule entry_frame [OF idx_less])
    fix x assume x: "in_range x pt 4096"
    have "pt \<notin> set (child m l pt ?i)" "page_aligned pt" "pt \<notin> N"
      using wf N by (auto simp: wf_tables_def tables_split [OF idx_less, of m l pt virt "Suc l"])
    moreover have "\<forall>t \<in> set (child m l pt ?i). page_aligned t"
      using wf child_subset [OF idx_less] by (fastforce simp: wf_tables_def)
    ultimately have "\<not> in_range x t 4096" if "t \<in> set (child m l pt ?i) \<union> N" for t
      using that x N(2) by (intro page_not_in_other [of pt t x]) auto
    then show "m' x = m x"
      using inst unfolding installed_def ch by blast
  qed
  note e' = this
  have step: "walk m (Suc l) pt v = walk m l (e AND PT_ADDR_MASK) v"
    "missing m (Suc l) L pt v = missing m l L (e AND PT_ADDR_MASK) v"
    "path_ok m (Suc l) L pt v \<longrightarrow> path_ok m l L (e AND PT_ADDR_MASK) v"
    if "idx v (Suc l) = ?i" for v
    using that tab L e by (auto simp: Let_def is_table_def)
  show ?thesis
    by (rule installed_up [OF wf refl L N only])
       (use inst tab step ch in \<open>auto simp: e' installed_def simp del: walk.simps missing.simps path_ok.simps\<close>)
qed

lemma installed_absent:
  assumes wf: "wf_tables m (Suc l) pt" and e: "\<not> bit (entry m pt (idx virt (Suc l))) 0"
    and p: "p \<notin> set (tables m (Suc l) pt)" "page_aligned p" "p AND PT_ADDR_MASK = p" "p \<notin> N"
    and m1: "m1 = store64 (\<lambda>x. if in_range x p 4096 then 0 else m x)
        (pt + 8 * of_nat (idx virt (Suc l))) (p OR 7)"
    and L: "1 \<le> L" "L \<le> l"
    and N: "N \<inter> set (tables m (Suc l) pt) = {}" "\<forall>p \<in> N. page_aligned p"
    and inst: "installed m1 m' l L p virt pte N"
  shows "installed m m' (Suc l) L pt virt pte (insert p N)"
proof -
  let ?i = "idx virt (Suc l)"
  have pt: "page_aligned pt" "pt \<noteq> p" "pt \<notin> N"
    using wf p(1) N(1) by (auto simp: wf_tables_def tables_Suc)
  have ch: "child m l pt ?i = []"
    using e by (simp add: child_def is_table_def)
  have zero: "m1 x = 0" if "in_range x p 4096" for x
  proof -
    have "\<not> in_range x pt 4096"
      using that pt p(2) by (intro page_not_in_other [of p pt x]) auto
    then show ?thesis
      using that slot_in_page [OF idx_less] unfolding m1 by (subst store64_outside) auto
  qed
  obtain l' where l: "l = Suc l'"
    using L by (cases l) auto
  note fresh = fresh_table [where m = m1 and p = p and l = l', OF zero, folded l]
  have fr: "m' x = m1 x" if "\<forall>t \<in> insert p N. \<not> in_range x t 4096" for x
    using that inst by (simp add: installed_def fresh)
  have "m1 x = m x" if "\<not> in_range x (pt + 8 * of_nat ?i) 8" "\<not> in_range x p 4096" for x
    using that by (simp add: m1 store64_outside)
  with fr have only: "only_subtree m m' l pt ?i (insert p N)"
    by (simp add: only_subtree_def ch)
  have "entry m' pt ?i = entry m1 pt ?i"
  proof (rule entry_frame [OF idx_less])
    fix x assume "in_range x pt 4096"
    then have "\<not> in_range x t 4096" if "t \<in> insert p N" for t
      using that pt p(2) N(2) by (intro page_not_in_other [of pt t x]) auto
    then show "m' x = m1 x"
      using fr by blast
  qed
  then have e': "entry m' pt ?i = p OR 7"
    by (simp add: m1 entry_store_same)
  note te = table_entry [OF p(3)]
  have step: "walk m (Suc l) pt v = None" "missing m (Suc l) L pt v = Suc l - L"
    if "idx v (Suc l) = ?i" for v
    using that e L by (auto simp: Let_def is_table_def leaf_def)
  have low: "min (l - L) (diverge l v virt - L) = min (Suc l - L) (diverge l v virt - L)" for v
    using diverge_le [of l v virt] by simp
  show ?thesis
    by (rule installed_up [OF wf refl L _ _ only])
       (use inst N p te step ch L low in \<open>auto simp: e' installed_def fresh
          simp del: walk.simps missing.simps path_ok.simps\<close>)
qed

lemma wf_child:
  assumes "wf_tables m (Suc l) pt" "i < 512" "is_table l (entry m pt i)"
  shows "wf_tables m l (entry m pt i AND PT_ADDR_MASK)"
  using assms(1) unfolding wf_tables_def tables_split [OF assms(2)] child_table [OF assms(3)] by auto

context page_allocator
begin

lemma pool_store:
  assumes "pool s ps" "page_aligned pt" "pt \<notin> set ps"
  shows "pool (s\<lparr>ram := store64 (ram s) (pt + 8 * of_nat (idx virt l)) e\<rparr>) ps"
proof (rule pool_frame [OF assms(1)])
  fix p x assume "p \<in> set ps" "in_range x p 4096"
  then have "\<not> in_range x pt 4096"
    using assms pool_pages [OF assms(1)] by (intro page_not_in_other [of p pt x]) auto
  then show "store64 (ram s) (pt + 8 * of_nat (idx virt l)) e x = ram s x"
    using slot_in_page [OF idx_less] by (intro store64_outside) blast
qed

text \<open>A level without a table gets the next page of the pool, zeroed and entered in its slot.\<close>

lemma next_table_alloc:
  assumes "pool s (p # qs)" "\<not> bit (entry (ram s) pt (idx virt l)) 0" "page_aligned pt"
    "pt \<noteq> p" "pt \<notin> set qs" "p AND PT_ADDR_MASK = p"
  shows "\<exists>s2. next_table alloc l virt pt 0 s = (s2, p, 0) \<and> pool s2 qs \<and> only_pages s s2 \<and>
    ram s2 = store64 (\<lambda>x. if in_range x p 4096 then 0 else ram s x)
      (pt + 8 * of_nat (idx virt l)) (p OR 7) \<and>
    (\<forall>x. in_range x p 4096 \<longrightarrow> ram s2 x = 0)"
proof -
  obtain s1 where s1: "alloc s = (p, s1)" "pool s1 qs"
    "ram s1 = (\<lambda>x. if in_range x p 4096 then 0 else ram s x)" "only_pages s s1"
    using alloc_page assms(1) by blast
  have z: "memset (ram s1) p 0 4096 = ram s1"
    by (simp add: memset_eq s1(3) fun_eq_iff)
  define s2 where "s2 = s1\<lparr>ram := store64 (ram s1) (pt + 8 * of_nat (idx virt l)) (p OR 7)\<rparr>"
  have "next_table alloc l virt pt 0 s = (s2, p, 0)"
    using next_table_absent [where alloc = alloc, OF assms(2) s1(1)]
    by (simp add: z s2_def table_entry(1) [OF assms(6)])
  moreover have "pool s2 qs"
    unfolding s2_def using s1(2) assms by (intro pool_store) auto
  moreover have "ram s2 x = 0" if "in_range x p 4096" for x
  proof -
    have "\<not> in_range x pt 4096"
      using that assms pool_pages [OF assms(1)] by (intro page_not_in_other [of p pt x]) auto
    then have "\<not> in_range x (pt + 8 * of_nat (idx virt l)) 8"
      using slot_in_page [OF idx_less] by blast
    then show ?thesis
      using that s1(3) by (simp add: s2_def store64_outside)
  qed
  ultimately show ?thesis
    by (auto simp: s2_def s1(3,4))
qed

lemma install_from_correct:
  assumes "1 \<le> L" "L \<le> l" "pool s ps" "wf_tables (ram s) l pt"
    "set (tables (ram s) l pt) \<inter> set ps = {}" "path_ok (ram s) l L pt virt"
    "\<not> is_table (L - 1) pte" "k = missing (ram s) l L pt virt" "k \<le> length ps"
    "\<forall>p \<in> set (take k ps). p AND PT_ADDR_MASK = p"
  shows "\<exists>s' a. install_from alloc l L virt pte pt 0 s = (s', a) \<and> pool s' (drop k ps) \<and> only_pages s s' \<and>
    installed (ram s) (ram s') l L pt virt pte (set (take k ps))"
  using assms(2-6,8-10)
proof (induction l arbitrary: pt s ps k)
  case 0
  then show ?case using assms(1) by simp
next
  case (Suc l)
  let ?i = "idx virt (Suc l)" and ?m = "ram s"
  let ?e = "entry ?m pt ?i"
  have pt: "pt \<in> set (tables ?m (Suc l) pt)" "page_aligned pt"
    using Suc.prems(3) by (auto simp: tables_Suc wf_tables_def)
  show ?case
  proof (cases "L = Suc l")
    case True
    then have k: "k = 0" using Suc.prems(6) by simp
    have "pool (s\<lparr>ram := store64 ?m (pt + 8 * of_nat ?i) pte\<rparr>) ps"
      using Suc.prems pt by (intro pool_store) auto
    moreover have "installed ?m (store64 ?m (pt + 8 * of_nat ?i) pte) (Suc l) L pt virt pte {}"
      using installed_leaf [OF Suc.prems(3)] Suc.prems(5) assms(7) unfolding True
      by (simp del: path_ok.simps)
    ultimately show ?thesis
      using k by (simp add: True install_from_leaf)
  next
    case False
    then have L: "L \<le> l" using Suc.prems by simp
    show ?thesis
    proof (cases "bit ?e 0")
      case True
      then have tab: "is_table l ?e"
        using Suc.prems(5) L assms(1) by (simp add: is_table_def Let_def)
      let ?c = "?e AND PT_ADDR_MASK"
      have sub: "set (tables ?m l ?c) \<subseteq> set (tables ?m (Suc l) pt)"
        using child_subset [OF idx_less, of ?m l pt virt "Suc l"] by (simp add: child_table tab)
      have "set (tables ?m l ?c) \<inter> set ps = {}" "path_ok ?m l L ?c virt"
        "k = missing ?m l L ?c virt"
        using sub Suc.prems(4-6) True tab L by (blast, simp_all add: Let_def)
      then obtain s' a where s': "install_from alloc l L virt pte ?c 0 s = (s', a)"
        "pool s' (drop k ps)" "installed ?m (ram s') l L ?c virt pte (set (take k ps))" "only_pages s s'"
        using Suc.IH [OF L Suc.prems(2) wf_child [OF Suc.prems(3) idx_less tab] _ _ _ Suc.prems(7,8)]
        by blast
      have "installed ?m (ram s') (Suc l) L pt virt pte (set (take k ps))"
        by (rule installed_present [OF Suc.prems(3) refl True Suc.prems(5) assms(1) L _ _ s'(3)])
           (use Suc.prems(4) pool_pages [OF Suc.prems(2)] in \<open>auto dest: in_set_takeD\<close>)
      then show ?thesis
        using s' by (simp add: install_from_step [OF L] next_table_present [OF True])
    next
      case False
      then have k: "k = Suc (l - L)"
        using Suc.prems(6) L assms(1) by (simp add: is_table_def Let_def)
      then obtain p qs where ps: "ps = p # qs"
        using Suc.prems(7) by (cases ps) auto
      have p: "page_aligned p" "p \<notin> set qs" "p \<notin> set (tables ?m (Suc l) pt)"
        "p AND PT_ADDR_MASK = p" "pt \<noteq> p" "pt \<notin> set qs"
        using pool_pages [OF Suc.prems(2)] Suc.prems(4,8) pt by (auto simp: ps k)
      obtain s2 where nt: "next_table alloc (Suc l) virt pt 0 s = (s2, p, 0)" and pool2: "pool s2 qs" "only_pages s s2"
        and m2: "ram s2 = store64 (\<lambda>x. if in_range x p 4096 then 0 else ?m x)
          (pt + 8 * of_nat ?i) (p OR 7)"
        and zero: "\<And>x. in_range x p 4096 \<Longrightarrow> ram s2 x = 0"
        using next_table_alloc [OF Suc.prems(2) [unfolded ps] False pt(2) p(5,6,4)] by blast
      obtain l' where l': "l = Suc l'"
        using L assms(1) by (cases l) auto
      note fresh = fresh_table [where m = "ram s2" and p = p and l = l', OF zero, folded l']
      have "\<exists>s' a. install_from alloc l L virt pte p 0 s2 = (s', a) \<and> pool s' (drop (l - L) qs) \<and> only_pages s2 s' \<and>
          installed (ram s2) (ram s') l L p virt pte (set (take (l - L) qs))"
        by (rule Suc.IH [OF L pool2(1)])
           (use Suc.prems(7,8) p k in \<open>auto simp: fresh wf_tables_def ps\<close>)
      then obtain s' a where s': "install_from alloc l L virt pte p 0 s2 = (s', a)"
        "pool s' (drop (l - L) qs)" "installed (ram s2) (ram s') l L p virt pte (set (take (l - L) qs))"
        "only_pages s s'"
        using only_pages_trans [OF pool2(2)] by blast
      have "installed ?m (ram s') (Suc l) L pt virt pte (insert p (set (take (l - L) qs)))"
        by (rule installed_absent [OF Suc.prems(3) False p(3,1,4) _ _ assms(1) L _ _ s'(3)])
           (use Suc.prems(4) p pool_pages [OF Suc.prems(2)] m2 in \<open>auto simp: ps dest: in_set_takeD\<close>)
      then show ?thesis
        using s' nt by (simp add: install_from_step [OF L] k ps)
    qed
  qed
qed

end


section \<open>Page numbers\<close>

text \<open>The number of the virtual page of an address: 36 bits, nine for each level.\<close>

definition vpn :: "addr \<Rightarrow> nat" where
  "vpn v = unat (take_bit 36 (drop_bit 12 v))"

lemma vpn_eq: "vpn v = unat v div 4096 mod 68719476736"
  unfolding vpn_def unsigned_take_bit_eq unsigned_drop_bit_eq
  using unat_lt_u64 [of v] by (simp add: take_bit_eq_mod drop_bit_eq_div)

lemma vpn_less: "vpn v < 68719476736"
  by (simp add: vpn_eq)

lemma idx_eq: "idx v lvl = unat v div 2 ^ ((lvl - 1) * 9 + 12) mod 512"
proof -
  have "PGDIR_OFFSET v lvl = take_bit 9 (drop_bit ((lvl - 1) * 9 + 12) v)"
    by (simp add: PGDIR_OFFSET_def PGDIR_BITS_def PGDIR_WIDTH_def PGDIR_MASK_def take_bit_eq_mask
        mask_eq_exp_minus_1)
  then show ?thesis
    using unat_lt_u64 [of v] unfolding idx_def
    by (simp only: unsigned_take_bit_eq unsigned_drop_bit_eq) (simp add: take_bit_eq_mod drop_bit_eq_div)
qed

lemma mod_div_swap: "(a :: nat) mod (b * c) div b = a div b mod c"
  by (cases "b = 0") (simp_all add: mod_mult2_eq)

lemma vpn_digits:
  fixes a :: nat
  shows "a mod 68719476736 mod 512 = a mod 512"
    "a mod 68719476736 div 512 mod 512 = a div 512 mod 512"
    "a mod 68719476736 div 262144 mod 512 = a div 262144 mod 512"
    "a mod 68719476736 div 134217728 = a div 134217728 mod 512"
proof -
  have "a mod 68719476736 div 512 = a div 512 mod 134217728"
    "a mod 68719476736 div 262144 = a div 262144 mod 262144"
    "a mod 68719476736 div 134217728 = a div 134217728 mod 512"
    using mod_div_swap [of a 512 134217728] mod_div_swap [of a 262144 262144]
      mod_div_swap [of a 134217728 512] by simp_all
  then show "a mod 68719476736 mod 512 = a mod 512"
    "a mod 68719476736 div 512 mod 512 = a div 512 mod 512"
    "a mod 68719476736 div 262144 mod 512 = a div 262144 mod 512"
    "a mod 68719476736 div 134217728 = a div 134217728 mod 512"
    by (simp_all only: mod_mod_cancel dvd_numeral_simp) (simp_all add: mod_mod_cancel)
qed

lemma idx_vpn:
  "idx v 1 = vpn v mod 512" "idx v 2 = vpn v div 512 mod 512"
  "idx v 3 = vpn v div 262144 mod 512" "idx v 4 = vpn v div 134217728"
proof -
  have "unat v div (4096 * 512) = unat v div 4096 div 512"
    "unat v div (4096 * 262144) = unat v div 4096 div 262144"
    "unat v div (4096 * 134217728) = unat v div 4096 div 134217728"
    by (simp_all only: div_mult2_eq)
  then show "idx v 1 = vpn v mod 512" "idx v 2 = vpn v div 512 mod 512"
    "idx v 3 = vpn v div 262144 mod 512" "idx v 4 = vpn v div 134217728"
    unfolding idx_eq vpn_eq vpn_digits by simp_all
qed


text \<open>The level at which the paths of two page numbers part.\<close>

definition parts :: "nat \<Rightarrow> nat \<Rightarrow> nat" where
  "parts a b = (if a div 134217728 \<noteq> b div 134217728 then 4 else if a div 262144 \<noteq> b div 262144 then 3
     else if a div 512 \<noteq> b div 512 then 2 else if a \<noteq> b then 1 else 0)"

lemma same_digit: "(a :: nat) div 512 = b div 512 \<Longrightarrow> a mod 512 = b mod 512 \<longleftrightarrow> a = b"
  by (metis div_mult_mod_eq)

lemma diverge_parts: "diverge 4 v w = parts (vpn v) (vpn w)"
proof -
  have d: "n div 512 div 512 = n div 262144" "n div 262144 div 512 = n div 134217728" for n :: nat
    by (simp_all add: div_mult2_eq [symmetric])
  have "diverge 4 v w = (if idx v 4 \<noteq> idx w 4 then 4 else if idx v 3 \<noteq> idx w 3 then 3
      else if idx v 2 \<noteq> idx w 2 then 2 else if idx v 1 \<noteq> idx w 1 then 1 else 0)"
    by (simp add: numeral_eq_Suc)
  also have "\<dots> = parts (vpn v) (vpn w)"
    unfolding idx_vpn parts_def
    using same_digit [of "vpn v" "vpn w"] same_digit [of "vpn v div 512" "vpn w div 512"]
      same_digit [of "vpn v div 262144" "vpn w div 262144"] unfolding d by auto
  finally show ?thesis .
qed

lemma parts_0: "parts a b < 1 \<longleftrightarrow> a = b"
  by (auto simp: parts_def)

lemma page_leaf:
  assumes "phys AND PT_ADDR_MASK = phys"
  shows "leaf 0 (phys OR 7) v = Some (phys OR (v AND mask 12))"
proof -
  have "bit phys n \<Longrightarrow> 12 \<le> n" for n
    using assms by (metis bit_and_iff bit_PT_ADDR_MASK)
  then have "phys AND NOT (mask 12) = phys"
    by (intro bit_word_eqI) (fastforce simp: bit_simps)
  moreover have "bit (phys OR 7) 0"
    unfolding bit_or_iff bit_7 by simp
  ultimately show ?thesis
    by (simp add: leaf_def table_entry [OF assms] and.assoc [symmetric])
qed

lemma install_page_from:
  "install_page root phys virt s = install_from heap_alloc_page 4 1 virt (phys OR 7) root 0 s"
  by (simp add: install_page_def install_pte_def PAGE_LEVEL_def or.assoc table_flags)

lemma install_page_eq:
  assumes "free_pages s ps" "wf_tables (ram s) 4 root" "set (tables (ram s) 4 root) \<inter> set ps = {}"
    "path_ok (ram s) 4 1 root virt" "k = missing (ram s) 4 1 root virt" "k \<le> length ps"
    "\<forall>p \<in> set (take k ps). p AND PT_ADDR_MASK = p"
  shows "\<exists>s' a. install_page root phys virt s = (s', a) \<and> free_pages s' (drop k ps) \<and> only_pages s s' \<and>
    installed (ram s) (ram s') 4 1 root virt (phys OR 7) (set (take k ps))"
  unfolding install_page_from
  by (rule heap_pages.install_from_correct) (use assms in \<open>simp_all add: is_table_def\<close>)

text \<open>
  C8. On a well-formed tree of page tables with enough free pages, \<open>install_page\<close> makes every address
  of the virtual page translate to the physical page at the same offset and leaves the
  translation of every other address as it was. The tables stay a tree of distinct pages, the new
  ones are taken from the free list in order, and no byte outside the tables changes.
\<close>

theorem install_page_correct:
  assumes "free_pages s ps" "wf_tables (ram s) 4 root" "set (tables (ram s) 4 root) \<inter> set ps = {}"
    "path_ok (ram s) 4 1 root virt" "phys AND PT_ADDR_MASK = phys"
    "missing (ram s) 4 1 root virt = k" "k \<le> length ps"
    "\<forall>p \<in> set (take k ps). p AND PT_ADDR_MASK = p"
  shows "\<exists>s' a. install_page root phys virt s = (s', a) \<and> free_pages s' (drop k ps) \<and>
    wf_tables (ram s') 4 root \<and>
    set (tables (ram s') 4 root) = set (tables (ram s) 4 root) \<union> set (take k ps) \<and>
    (\<forall>v. walk (ram s') 4 root v =
       (if vpn v = vpn virt then Some (phys OR (v AND mask 12)) else walk (ram s) 4 root v)) \<and>
    (\<forall>x. (\<forall>t \<in> set (tables (ram s') 4 root). \<not> in_range x t 4096) \<longrightarrow> ram s' x = ram s x)"
proof -
  obtain s' a where s': "install_page root phys virt s = (s', a)" "free_pages s' (drop k ps)"
    "installed (ram s) (ram s') 4 1 root virt (phys OR 7) (set (take k ps))"
    using install_page_eq [of s ps root virt k phys] assms by auto
  then show ?thesis
    unfolding installed_def diverge_parts parts_0 by (auto simp: page_leaf [OF assms(5)])
qed


lemma fresh_root:
  assumes "\<And>x. in_range x r 4096 \<Longrightarrow> m x = 0"
  shows "tables m 4 r = [r]" "walk m 4 r v = None" "missing m 4 1 r v = 3" "path_ok m 4 1 r v"
  using fresh_table [where p = r and m = m and l = 3, OF assms] by (simp_all del: walk.simps missing.simps path_ok.simps)

definition three_free :: heap where
  "three_free = boot_heap\<lparr>freelist := 0x2000,
     ram := store64 (store64 (\<lambda>_. 0) 0x2000 0x3000) 0x3000 0x4000\<rparr>"

lemma three_free_pages: "free_pages three_free [0x2000, 0x3000, 0x4000]"
proof -
  have d: "disj a 8 b 8" if "8 \<le> unat (b - a)" "8 \<le> unat (a - b)" for a b
    using that by (rule disj_apart)
  have "load64 (\<lambda>_. 0) a = 0" for a
    by (rule load64_zero) simp
  then have "load64 (ram three_free) 0x2000 = 0x3000" "load64 (ram three_free) 0x3000 = 0x4000"
    "load64 (ram three_free) 0x4000 = 0"
    by (simp_all add: three_free_def load64_store64_disj d)
  then show ?thesis
    by (simp add: free_pages_def page_aligned_def) (simp add: three_free_def)
qed

lemma three_free_zero: "in_range x 0x1000 4096 \<Longrightarrow> ram three_free x = 0"
proof -
  assume "in_range x 0x1000 4096"
  then have "\<not> in_range x 0x2000 4096" "\<not> in_range x 0x3000 4096"
    using page_not_in_other [of "0x1000" "0x2000" x] page_not_in_other [of "0x1000" "0x3000" x]
    by (simp_all add: page_aligned_def)
  then show ?thesis
    by (simp add: three_free_def store64_page_frame)
qed

theorem install_page_witness:
  "\<exists>s' a. install_page 0x1000 0x9000 0x400000 three_free = (s', a) \<and> free_pages s' [] \<and>
     walk (ram s') 4 0x1000 0x400123 = Some 0x9123 \<and> walk (ram s') 4 0x1000 0x401000 = None"
proof -
  note fresh = fresh_root [OF three_free_zero]
  have m: "(0x2000 :: u64) AND PT_ADDR_MASK = 0x2000" "(0x3000 :: u64) AND PT_ADDR_MASK = 0x3000"
    "(0x4000 :: u64) AND PT_ADDR_MASK = 0x4000" "(0x9000 :: u64) AND PT_ADDR_MASK = 0x9000"
    by (rule masked_id; simp add: page_aligned_def)+
  from install_page_correct [OF three_free_pages, of "0x1000" "0x400000" "0x9000" 3]
  obtain s' a where "install_page 0x1000 0x9000 0x400000 three_free = (s', a)" "free_pages s' []"
    "\<forall>v. walk (ram s') 4 0x1000 v = (if vpn v = vpn 0x400000 then Some (0x9000 OR (v AND mask 12))
       else walk (ram three_free) 4 0x1000 v)"
    by (auto simp: fresh m wf_tables_def page_aligned_def simp del: One_nat_def)
  moreover have "(0x9000 :: u64) OR (0x400123 AND mask 12) = 0x9123"
    by (simp add: mask_eq_exp_minus_1)
  ultimately show ?thesis
    by (simp add: fresh vpn_eq)
qed

section \<open>The whole map\<close>

text \<open>
  How many tables are missing for page \<open>k\<close> once the pages below \<open>n\<close> are mapped, and how many tables
  those pages take: one per 512 pages, per $512^2$ and per $512^3$.
\<close>

definition need :: "nat \<Rightarrow> nat \<Rightarrow> nat" where
  "need n k = (if n = 0 \<or> (n - 1) div 134217728 < k div 134217728 then 3
     else if (n - 1) div 262144 < k div 262144 then 2
     else if (n - 1) div 512 < k div 512 then 1 else 0)"

definition tables_for :: "nat \<Rightarrow> nat" where
  "tables_for n = (n + 511) div 512 + (n + 262143) div 262144 + (n + 134217727) div 134217728"

lemma div_pred_le:
  assumes "0 < d"
  shows "n div d \<le> (n - 1) div d + (1 :: nat)"
proof -
  have "n div d \<le> (n - 1 + d) div d"
    using assms by (intro div_le_mono) auto
  also have "\<dots> = (n - 1) div d + 1"
    using assms by (intro div_add_self2) simp
  finally show ?thesis .
qed

lemma digits_up:
  fixes a b :: nat
  shows "a div 512 = b div 512 \<Longrightarrow> a div 262144 = b div 262144"
    "a div 262144 = b div 262144 \<Longrightarrow> a div 134217728 = b div 134217728"
    "a div 512 \<le> b div 512 \<Longrightarrow> a div 262144 \<le> b div 262144"
    "a div 262144 \<le> b div 262144 \<Longrightarrow> a div 134217728 \<le> b div 134217728"
proof -
  have d: "n div 262144 = n div 512 div 512" "n div 134217728 = n div 262144 div 512" for n :: nat
    by (simp_all add: div_mult2_eq [symmetric])
  show "a div 512 = b div 512 \<Longrightarrow> a div 262144 = b div 262144"
    "a div 262144 = b div 262144 \<Longrightarrow> a div 134217728 = b div 134217728"
    by (simp_all only: d)
  show "a div 512 \<le> b div 512 \<Longrightarrow> a div 262144 \<le> b div 262144"
    "a div 262144 \<le> b div 262144 \<Longrightarrow> a div 134217728 \<le> b div 134217728"
    unfolding d(1) [of a] d(1) [of b] d(2) [of a] d(2) [of b] by (rule div_le_mono, assumption)+
qed

lemma need_Suc: "need (Suc n) k = min (need n k) (parts k n - 1)"
proof (cases "n = 0")
  case True
  then show ?thesis
    using digits_up [of k 0] by (auto simp: need_def parts_def)
next
  case False
  have b: "n div d \<le> (n - 1) div d + 1" "(n - 1) div d \<le> n div d" if "0 < d" for d
    using div_pred_le [OF that] by (auto intro: div_le_mono)
  have up: "(n - 1) div d < k div d \<Longrightarrow> n div d \<le> k div d"
    "k div d \<le> (n - 1) div d \<Longrightarrow> k div d \<le> n div d" if "0 < d" for d
    using b [OF that] by linarith+
  consider "k div 512 \<le> (n - 1) div 512" | "(n - 1) div 512 < k div 512" "k div 262144 \<le> (n - 1) div 262144"
    | "(n - 1) div 262144 < k div 262144" "k div 134217728 \<le> (n - 1) div 134217728"
    | "(n - 1) div 134217728 < k div 134217728"
    by linarith
  then show ?thesis
  proof cases
    case 1
    then have "k div 262144 \<le> (n - 1) div 262144" "k div 134217728 \<le> (n - 1) div 134217728"
      using digits_up by blast+
    with 1 have "need n k = 0" "need (Suc n) k = 0"
      using False up(2) [of 512] up(2) [of 262144] up(2) [of 134217728] by (simp_all add: need_def)
    then show ?thesis by simp
  next
    case 2
    then have "k div 134217728 \<le> (n - 1) div 134217728"
      using digits_up by blast
    then have "need n k = 1" "need (Suc n) k = (if n div 512 = k div 512 then 0 else 1)"
      using False 2 up(1) [of 512] up(2) [of 262144] up(2) [of 134217728] by (auto simp: need_def)
    then show ?thesis
      using digits_up [of k n] by (auto simp: parts_def)
  next
    case 3
    then have "(n - 1) div 512 < k div 512"
      using digits_up(3) [of k "n - 1"] by linarith
    then have "need n k = 2"
      "need (Suc n) k = (if n div 262144 \<noteq> k div 262144 then 2 else if n div 512 = k div 512 then 0 else 1)"
      using False 3 up(1) [of 512] up(1) [of 262144] up(2) [of 134217728] by (auto simp: need_def)
    then show ?thesis
      using digits_up [of k n] by (auto simp: parts_def)
  next
    case 4
    then have "(n - 1) div 262144 < k div 262144"
      using digits_up(4) [of k "n - 1"] by linarith
    moreover from this have "(n - 1) div 512 < k div 512"
      using digits_up(3) [of k "n - 1"] by linarith
    ultimately have "need n k = 3"
      "need (Suc n) k = (if n div 134217728 \<noteq> k div 134217728 then 3
        else if n div 262144 \<noteq> k div 262144 then 2 else if n div 512 = k div 512 then 0 else 1)"
      using False 4 up(1) [of 512] up(1) [of 262144] up(1) [of 134217728] by (auto simp: need_def)
    then show ?thesis
      using digits_up [of k n] by (auto simp: parts_def)
  qed
qed


lemma tables_for_0 [simp]: "tables_for 0 = 0"
  by (simp add: tables_for_def)

lemma tables_for_Suc: "tables_for (Suc n) = tables_for n + need n n"
proof (cases "n = 0")
  case True
  then show ?thesis by (simp add: tables_for_def need_def)
next
  case False
  define g where "g d = n div d - (n - 1) div d" for d
  have g: "n div d = (n - 1) div d + g d" "g d \<le> 1" if "0 < d" for d
    using div_pred_le [OF that, of n] div_le_mono [of "n - 1" n d] by (auto simp: g_def)
  have s: "(n + d) div d = n div d + 1" "(n + (d - 1)) div d = (n - 1) div d + 1" if "0 < d" for d
  proof -
    have e: "n + (d - 1) = n - 1 + d" using False that by simp
    show "(n + d) div d = n div d + 1"
      using that by (intro div_add_self2) simp
    show "(n + (d - 1)) div d = (n - 1) div d + 1"
      unfolding e using that by (intro div_add_self2) simp
  qed
  have "tables_for (Suc n) = (n + 512) div 512 + (n + 262144) div 262144 + (n + 134217728) div 134217728"
    by (simp add: tables_for_def add.commute)
  also have "\<dots> = (n div 512 + 1) + (n div 262144 + 1) + (n div 134217728 + 1)"
    by (simp only: s(1) zero_less_numeral)
  finally have "tables_for (Suc n) = \<dots>" .
  moreover have "tables_for n =
      ((n - 1) div 512 + 1) + ((n - 1) div 262144 + 1) + ((n - 1) div 134217728 + 1)"
    using s(2) [of 512] s(2) [of 262144] s(2) [of 134217728] by (simp only: tables_for_def) simp
  ultimately have step: "tables_for (Suc n) = tables_for n + (g 512 + g 262144 + g 134217728)"
    by (simp only: g(1) zero_less_numeral ac_simps)
  have "need n n = (if g 134217728 \<noteq> 0 then 3 else if g 262144 \<noteq> 0 then 2
      else if g 512 \<noteq> 0 then 1 else 0)"
    using False by (simp add: need_def g_def)
  moreover have "g 262144 = 0 \<Longrightarrow> g 134217728 = 0" "g 512 = 0 \<Longrightarrow> g 262144 = 0"
    using digits_up(3,4) [of n "n - 1"] by (simp_all add: g_def)
  moreover have "g 512 \<le> 1" "g 262144 \<le> 1" "g 134217728 \<le> 1"
    by (simp_all only: g(2) zero_less_numeral)
  ultimately have "need n n = g 512 + g 262144 + g 134217728"
    by (auto simp: le_Suc_eq)
  with step show ?thesis by simp
qed

lemma tables_for_mono: "m \<le> n \<Longrightarrow> tables_for m \<le> tables_for n"
  by (induction rule: dec_induct) (auto simp: tables_for_Suc)

text \<open>The pages below \<open>n\<close> are mapped one to one below the root \<open>r\<close>, with tables from the front of \<open>ps\<close>.\<close>

definition mapped_below :: "heap \<Rightarrow> addr \<Rightarrow> addr list \<Rightarrow> nat \<Rightarrow> heap \<Rightarrow> bool" where
  "mapped_below s0 r ps n s \<longleftrightarrow>
     free_pages s (drop (tables_for n) ps) \<and> wf_tables (ram s) 4 r \<and>
     set (tables (ram s) 4 r) = insert r (set (take (tables_for n) ps)) \<and>
     (\<forall>v. walk (ram s) 4 r v = (if vpn v < n then Some (take_bit 48 v) else None)) \<and>
     (\<forall>v. missing (ram s) 4 1 r v = need n (vpn v)) \<and> (\<forall>v. path_ok (ram s) 4 1 r v) \<and>
     (\<forall>x. (\<forall>t \<in> insert r (set (take (tables_for n) ps)). \<not> in_range x t 4096) \<longrightarrow> ram s x = ram s0 x) \<and>
     only_pages s0 s"

lemma vpn_page: "n < 68719476736 \<Longrightarrow> vpn (4096 * of_nat n) = n"
  by (simp add: vpn_eq page_offset_unat)

lemma page_address:
  assumes "vpn v = n" "n < 68719476736"
  shows "4096 * of_nat n OR (v AND mask 12) = take_bit 48 v"
proof -
  have "of_nat n = take_bit 36 (drop_bit 12 v)"
    using assms(1) by (auto simp: vpn_def)
  then have "4096 * of_nat n = push_bit 12 (take_bit 36 (drop_bit 12 v))"
    by (simp only: push_bit_eq_mult) simp
  then show ?thesis
    by (simp only:) (rule bit_word_eqI, auto simp: bit_simps)
qed

lemma take_add_set: "set (take (a + b) xs) = set (take a xs) \<union> set (take b (drop a xs))"
  by (simp add: take_add)

lemma mapped_below_Suc:
  assumes inv: "mapped_below s0 r ps n s" and n: "n < 68719476736" and len: "tables_for (Suc n) \<le> length ps"
    and d: "distinct (r # ps)" and mask: "\<forall>p \<in> set (take (tables_for (Suc n)) ps). p AND PT_ADDR_MASK = p"
  shows "mapped_below s0 r ps (Suc n) (fst (install_page r (4096 * of_nat n) (4096 * of_nat n) s))"
proof -
  let ?a = "4096 * of_nat n :: addr" and ?N = "set (take (need n n) (drop (tables_for n) ps))"
  note inv = inv [unfolded mapped_below_def]
  have taken: "set (take (tables_for (Suc n)) ps) = set (take (tables_for n) ps) \<union> ?N"
    by (simp add: tables_for_Suc take_add_set)
  have "unat ?a = 4096 * n"
    using n by (intro page_offset_unat) simp
  then have phys: "?a AND PT_ADDR_MASK = ?a"
    using n by (intro masked_id) (simp_all add: page_aligned_unat)
  have "r \<notin> set ps" "set (take (tables_for n) ps) \<inter> set (drop (tables_for n) ps) = {}"
    using d by (simp_all add: set_take_disj_set_drop_if_distinct)
  then have free: "set (tables (ram s) 4 r) \<inter> set (drop (tables_for n) ps) = {}"
    using inv by (auto dest: in_set_dropD)
  have miss: "need n n = missing (ram s) 4 1 r ?a"
    using inv vpn_page [OF n] by simp
  have room: "need n n \<le> length (drop (tables_for n) ps)" "\<forall>p \<in> ?N. p AND PT_ADDR_MASK = p"
    using len mask unfolding taken by (auto simp: tables_for_Suc)
  obtain s' b where s': "install_page r ?a ?a s = (s', b)"
    "free_pages s' (drop (need n n) (drop (tables_for n) ps))"
    "installed (ram s) (ram s') 4 1 r ?a (?a OR 7) ?N" "only_pages s s'"
    using install_page_eq [OF _ _ free _ miss room, of ?a] inv by blast
  have walk: "walk (ram s') 4 r v = (if vpn v < Suc n then Some (take_bit 48 v) else None)" for v
  proof -
    have "walk (ram s') 4 r v = (if vpn v = n then Some (?a OR (v AND mask 12)) else walk (ram s) 4 r v)"
      using s'(3) unfolding installed_def diverge_parts parts_0
      by (simp add: vpn_page [OF n] page_leaf [OF phys])
    then show ?thesis
      using inv page_address [OF _ n, of v] by (auto simp: less_Suc_eq)
  qed
  have miss': "missing (ram s') 4 1 r v = need (Suc n) (vpn v)" for v
    using s'(3) inv by (simp add: installed_def diverge_parts vpn_page [OF n] need_Suc)
  have "only_pages s0 s'"
    using only_pages_trans [OF _ s'(4)] inv by blast
  then show ?thesis
    using inv s' walk miss' unfolding mapped_below_def taken
    by (auto simp: installed_def tables_for_Suc add.commute)
qed

lemma install_pages_loop_eq:
  assumes "mapped_below s0 r ps i s" "i \<le> unat e div 4096" "unat e \<le> 281474976710656"
    "tables_for (unat e div 4096) \<le> length ps" "distinct (r # ps)"
    "\<forall>p \<in> set (take (tables_for (unat e div 4096)) ps). p AND PT_ADDR_MASK = p"
  shows "\<exists>s'. install_pages_loop r (4096 * of_nat i) e (4096 * of_nat i) s = Some s' \<and>
    mapped_below s0 r ps (unat e div 4096) s'"
  using assms(1,2)
proof (induction "unat e div 4096 - i" arbitrary: i s)
  case 0
  then have i: "i = unat e div 4096" by simp
  then have "i < 4503599627370495"
    using assms(3) by simp
  then have "unat (4096 * of_nat i + 4096 :: u64) = 4096 * i + 4096"
    using page_offset_unat [of "Suc i"] by (simp add: algebra_simps)
  moreover have "unat e < 4096 * i + 4096"
    unfolding i by (metis add.commute dividend_less_times_div mult_Suc_right zero_less_numeral mult.commute)
  ultimately have "\<not> 4096 * of_nat i + 4096 \<le> e"
    by (simp add: word_le_nat_alt)
  then show ?case
    using 0 i by (subst install_pages_loop.simps) simp
next
  case (Suc d)
  let ?a = "4096 * of_nat i :: u64"
  have i: "Suc i \<le> unat e div 4096" "i < 68719476736"
    using Suc assms(3) by auto
  then have "unat (?a + 4096) = 4096 * Suc i"
    using page_offset_unat [of "Suc i"] by (simp add: algebra_simps)
  moreover have "4096 * Suc i \<le> unat e"
    using i(1) by (metis mult_le_mono2 order_trans times_div_less_eq_dividend)
  ultimately have step: "?a + 4096 \<le> e"
    by (simp add: word_le_nat_alt)
  have next_a: "?a + 4096 = 4096 * of_nat (Suc i)"
    by (simp add: algebra_simps)
  have t: "tables_for (Suc i) \<le> tables_for (unat e div 4096)"
    using i(1) by (rule tables_for_mono)
  have "mapped_below s0 r ps (Suc i) (fst (install_page r ?a ?a s))"
    by (rule mapped_below_Suc [OF Suc.prems(1) i(2)])
       (use t assms(4-6) in \<open>auto dest: set_mp [OF set_take_subset_set_take [OF t]]\<close>)
  then show ?case
    using Suc.hyps(1) [of "Suc i"] Suc.hyps(2) i(1) step
    by (subst install_pages_loop.simps) (simp add: next_a del: of_nat_Suc)
qed

lemma mapped_below_0:
  assumes "free_pages s (r # ps)"
  shows "mapped_below s r ps 0 (snd (heap_alloc_page s)) \<and> fst (heap_alloc_page s) = r"
proof -
  obtain s' where s': "heap_alloc_page s = (r, s')" "free_pages s' ps"
    "ram s' = (\<lambda>x. if in_range x r 4096 then 0 else ram s x)" "only_pages s s'"
    using heap_pages.alloc_page [OF assms] by blast
  have "ram s' x = 0" if "in_range x r 4096" for x
    using that s'(3) by simp
  note fresh = fresh_root [OF this]
  have same: "ram s' x = ram s x" if "\<not> in_range x r 4096" for x
    using that s'(3) by simp
  have "page_aligned r"
    using assms by (simp add: free_pages_def)
  then have "mapped_below s r ps 0 s'"
    using s'(1,2,4) same
    by (simp add: mapped_below_def fresh wf_tables_def need_def del: One_nat_def)
  then show ?thesis
    using s'(1) by simp
qed

lemma setup_mmu_mapped:
  assumes free: "free_pages s (r # ps)"
    and e: "e = (if eom = 0 then 4294967296 else unat eom)" "e \<le> 281474976710656"
    and room: "tables_for (e div 4096) \<le> length ps"
    and mask: "\<forall>p \<in> set (take (tables_for (e div 4096)) ps). p AND PT_ADDR_MASK = p"
  shows "\<exists>s'. setup_mmu eom s = Some (s'\<lparr>start_cr3 := cr3 s, cr3 := r\<rparr>, r) \<and> mapped_below s r ps (e div 4096) s'"
proof -
  define w where "w = (if eom = 0 then push_bit 32 1 else eom)"
  have w: "unat w = e"
    by (simp add: w_def e(1))
  have d: "distinct (r # ps)"
    using free by (simp add: free_pages_def)
  obtain s1 where s1: "heap_alloc_page s = (r, s1)" "mapped_below s r ps 0 s1"
    using mapped_below_0 [OF free] by (cases "heap_alloc_page s") auto
  obtain s2 where s2: "install_pages r 0 w 0 s1 = Some s2" "mapped_below s r ps (e div 4096) s2"
    using install_pages_loop_eq [OF s1(2), of w] w e(2) room mask d by (auto simp: install_pages_def)
  have "cr3 s2 = cr3 s"
    using s2(2) by (simp add: mapped_below_def only_pages_same)
  then have "setup_mmu eom s = Some (s2\<lparr>start_cr3 := cr3 s, cr3 := r\<rparr>, r)"
    using s1(1) s2(1) by (simp add: setup_mmu_def w_def [symmetric])
  then show ?thesis
    using s2(2) by blast
qed

lemma setup_mmu_maps:
  assumes free: "free_pages s (r # ps)"
    and e: "e = (if eom = 0 then 4294967296 else unat eom)" "e \<le> 281474976710656"
    and room: "tables_for (e div 4096) \<le> length ps"
    and mask: "\<forall>p \<in> set (take (tables_for (e div 4096)) ps). p AND PT_ADDR_MASK = p"
  shows "\<exists>s'. setup_mmu eom s = Some (s', r) \<and> cr3 s' = r \<and> start_cr3 s' = cr3 s \<and>
    free_pages s' (drop (tables_for (e div 4096)) ps) \<and>
    (\<forall>v. walk (ram s') 4 r v = (if vpn v < e div 4096 then Some (take_bit 48 v) else None)) \<and>
    (\<forall>x. (\<forall>t \<in> insert r (set (take (tables_for (e div 4096)) ps)). \<not> in_range x t 4096) \<longrightarrow>
       ram s' x = ram s x)"
  using setup_mmu_mapped [OF assms] by (auto simp: mapped_below_def free_pages_def)

text \<open>
  C2. \<open>setup_mmu\<close> ends, and makes the map it announces: with enough free pages below $2^{52}$, every
  canonical address below the end of memory (4 GiB when the argument is 0) translates to itself,
  no other page is mapped, the root is loaded and the old one saved, and the root and tables are
  the first free pages, one per 512, per $512^2$ and per $512^3$ pages.
\<close>

theorem setup_mmu_correct:
  assumes free: "free_pages s (r # ps)"
    and e: "e = (if eom = 0 then 4294967296 else unat eom)" "e \<le> 281474976710656"
    and room: "tables_for (e div 4096) \<le> length ps"
    and mask: "\<forall>p \<in> set (take (tables_for (e div 4096)) ps). p AND PT_ADDR_MASK = p"
  shows "\<exists>s'. setup_mmu eom s = Some (s', r) \<and> cr3 s' = r \<and> start_cr3 s' = cr3 s \<and>
    free_pages s' (drop (tables_for (e div 4096)) ps) \<and>
    (\<forall>v. walk (ram s') 4 r v = (if vpn v < e div 4096 then Some (take_bit 48 v) else None)) \<and>
    (\<forall>x. (\<forall>t \<in> insert r (set (take (tables_for (e div 4096)) ps)). \<not> in_range x t 4096) \<longrightarrow>
       ram s' x = ram s x)"
  using assms by (rule setup_mmu_maps)

lemma pages_masked:
  assumes "page_aligned p" "unat p + 4096 * n \<le> 4503599627370496" "q \<in> set (pages p n)"
  shows "q AND PT_ADDR_MASK = q"
proof (rule masked_id)
  show "page_aligned q"
    using assms(1,3) by (rule pages_aligned)
  obtain i where i: "i < n" "q = p + 4096 * of_nat i"
    using assms(3) by (auto simp: pages_def)
  have "unat (4096 * of_nat i :: u64) = 4096 * i"
    using i(1) assms(2) by (intro page_offset_unat) linarith
  then have "unat q = unat p + 4096 * i"
    using i assms(2) by (simp add: unat_plus_u64)
  then show "unat q < 4503599627370496"
    using i(1) assms(2) by linarith
qed

theorem setup_mmu_witness:
  "\<exists>s a s'. get_free_pages 0x200000 (4096 * 3000) boot_heap = Some (s, a) \<and>
     setup_mmu 0 s = Some (s', 0x200000) \<and> cr3 s' = 0x200000 \<and>
     walk (ram s') 4 0x200000 0xFEE00020 = Some 0xFEE00020 \<and>
     walk (ram s') 4 0x200000 0x100000000 = None"
proof -
  have p: "page_aligned 0x200000" "page_aligned 0x201000"
    by (simp_all add: page_aligned_def)
  obtain m where m: "get_free_pages 0x200000 (4096 * 3000) boot_heap =
      Some (boot_heap\<lparr>freelist := 0x200000, ram := m\<rparr>, 0x200000)"
    and free: "free_pages (boot_heap\<lparr>freelist := 0x200000, ram := m\<rparr>) (pages 0x200000 (Suc 2999))"
    using get_free_pages_eq [OF p(1) _ _ _ boot_heap_empty, of "Suc 2999"] by auto
  have t: "tables_for (4294967296 div 4096) = 2053"
    by (simp add: tables_for_def)
  have "\<forall>q \<in> set (take 2053 (pages 0x201000 2999)). q AND PT_ADDR_MASK = q"
    using pages_masked [OF p(2), of 2999] by (auto dest: in_set_takeD)
  with setup_mmu_correct [OF free [unfolded pages_Suc], of 4294967296 0] t
  obtain s' where "setup_mmu 0 (boot_heap\<lparr>freelist := 0x200000, ram := m\<rparr>) = Some (s', 0x200000)"
    "cr3 s' = 0x200000"
    "\<forall>v. walk (ram s') 4 0x200000 v = (if vpn v < 4294967296 div 4096 then Some (take_bit 48 v) else None)"
    by auto
  with m show ?thesis
    by (auto simp: vpn_eq take_bit_eq_mod)
qed

section \<open>Large pages\<close>

lemma bit_0x87: "bit (0x87 :: u64) n \<longleftrightarrow> n < 3 \<or> n = 7"
proof -
  have "(0x87 :: u64) = mask 3 OR push_bit 7 1"
    by (simp add: mask_eq_exp_minus_1)
  then show ?thesis
    by (auto simp only: bit_or_iff bit_mask_iff bit_push_bit_iff bit_1_iff) auto
qed

lemma large_leaf:
  assumes "take_bit 21 phys = 0" "unat phys < 4503599627370496"
  shows "leaf 1 (phys OR 0x87) v = Some (phys OR (v AND mask 21))" "\<not> is_table 1 (phys OR 0x87)"
proof -
  have low: "\<not> bit phys n" if "n < 21" for n
    using arg_cong [OF assms(1), of "\<lambda>w. bit w n"] that by (simp add: bit_take_bit_iff)
  then have "page_aligned phys"
    by (simp add: page_aligned_bit)
  then have "phys AND PT_ADDR_MASK = phys"
    using assms(2) by (rule masked_id)
  then have b: "bit phys n \<Longrightarrow> n \<le> 51" for n
    by (metis bit_and_iff bit_PT_ADDR_MASK)
  have l: "bit phys n \<Longrightarrow> 21 \<le> n" for n
    using low [of n] by (cases "n < 21") auto
  have "(phys OR 0x87) AND PT_ADDR_MASK AND NOT (mask 21) = phys"
  proof (rule bit_word_eqI)
    fix n assume "n < LENGTH(64)"
    then show "bit ((phys OR 0x87) AND PT_ADDR_MASK AND NOT (mask 21)) n = bit phys n"
      using b [of n] l [of n] unfolding bit_and_iff bit_or_iff bit_0x87 bit_PT_ADDR_MASK bit_not_iff
        bit_mask_iff by auto
  qed
  moreover have "bit (phys OR 0x87) 0" "bit (phys OR 0x87) 7"
    unfolding bit_or_iff bit_0x87 by auto
  ultimately show "leaf 1 (phys OR 0x87) v = Some (phys OR (v AND mask 21))"
    "\<not> is_table 1 (phys OR 0x87)"
    by (simp_all add: leaf_def is_table_def)
qed

lemma parts_2: "parts a b < 2 \<longleftrightarrow> a div 512 = b div 512"
  using digits_up [of a b] by (auto simp: parts_def)

lemma install_large_page_from:
  "install_large_page root phys virt s = install_from heap_alloc_page 4 2 virt (phys OR 0x87) root 0 s"
  by (simp add: install_large_page_def install_pte_def PAGE_LEVEL_def PT_PRESENT_MASK_def
      PT_WRITABLE_MASK_def PT_USER_MASK_def PT_PAGE_SIZE_MASK_def or.assoc)

text \<open>
  C26. \<open>install_large_page\<close> maps the whole 2 MiB around the virtual address to a 2 MiB frame, where no
  page table stands in the slot, and leaves every other translation as it was.
\<close>

theorem install_large_page_correct:
  assumes "free_pages s ps" "wf_tables (ram s) 4 root" "set (tables (ram s) 4 root) \<inter> set ps = {}"
    "path_ok (ram s) 4 2 root virt" "take_bit 21 phys = 0" "unat phys < 4503599627370496"
    "missing (ram s) 4 2 root virt = k" "k \<le> length ps"
    "\<forall>p \<in> set (take k ps). p AND PT_ADDR_MASK = p"
  shows "\<exists>s' a. install_large_page root phys virt s = (s', a) \<and> free_pages s' (drop k ps) \<and>
    wf_tables (ram s') 4 root \<and>
    set (tables (ram s') 4 root) = set (tables (ram s) 4 root) \<union> set (take k ps) \<and>
    (\<forall>v. walk (ram s') 4 root v =
       (if vpn v div 512 = vpn virt div 512 then Some (phys OR (v AND mask 21))
        else walk (ram s) 4 root v))"
proof -
  have "\<exists>s' a. install_from heap_alloc_page 4 2 virt (phys OR 0x87) root 0 s = (s', a) \<and>
      free_pages s' (drop k ps) \<and> only_pages s s' \<and>
      installed (ram s) (ram s') 4 2 root virt (phys OR 0x87) (set (take k ps))"
    by (rule heap_pages.install_from_correct)
       (use assms large_leaf(2) [OF assms(5,6)] in simp_all)
  then obtain s' a where "install_large_page root phys virt s = (s', a)" "free_pages s' (drop k ps)"
    "installed (ram s) (ram s') 4 2 root virt (phys OR 0x87) (set (take k ps))"
    unfolding install_large_page_from by blast
  then show ?thesis
    using large_leaf(1) [OF assms(5,6)] unfolding installed_def diverge_parts parts_2 by auto
qed

theorem install_large_page_witness:
  "\<exists>s' a. install_large_page 0x1000 0x800000 0x400000 three_free = (s', a) \<and>
     walk (ram s') 4 0x1000 0x523456 = Some 0x923456 \<and> walk (ram s') 4 0x1000 0x200000 = None"
proof -
  note fresh = fresh_table [where p = "0x1000" and m = "ram three_free" and l = 3, OF three_free_zero]
  have f: "tables (ram three_free) 4 0x1000 = [0x1000]" "missing (ram three_free) 4 2 0x1000 v = 2"
    "path_ok (ram three_free) 4 2 0x1000 v" "walk (ram three_free) 4 0x1000 v = None" for v
    using fresh(1) fresh(2) [of v] fresh(3) [of 2 v] fresh(4) [of 2 v]
    by (simp_all del: walk.simps missing.simps path_ok.simps)
  have m: "(0x2000 :: u64) AND PT_ADDR_MASK = 0x2000" "(0x3000 :: u64) AND PT_ADDR_MASK = 0x3000"
    by (rule masked_id; simp add: page_aligned_def)+
  from install_large_page_correct [OF three_free_pages, of "0x1000" "0x400000" "0x800000" 2]
  obtain s' a where "install_large_page 0x1000 0x800000 0x400000 three_free = (s', a)"
    "\<forall>v. walk (ram s') 4 0x1000 v = (if vpn v div 512 = vpn 0x400000 div 512
       then Some (0x800000 OR (v AND mask 21)) else walk (ram three_free) 4 0x1000 v)"
    by (auto simp: f m wf_tables_def page_aligned_def take_bit_eq_mod)
  moreover have "(0x800000 :: u64) OR (0x523456 AND mask 21) = 0x923456"
    by (simp add: mask_eq_exp_minus_1)
  ultimately show ?thesis
    by (simp add: f vpn_eq)
qed

section \<open>Out of pages\<close>

text \<open>The iteration of \<open>install_pte\<close> when the allocator has nothing left: page 0 becomes the table.\<close>

definition zero_page0 :: "mem \<Rightarrow> mem" where
  "zero_page0 m = (\<lambda>x. if in_range x 0 4096 then 0 else m x)"

lemma entry_zero_page0: "i < 512 \<Longrightarrow> entry (zero_page0 m) 0 i = 0"
  unfolding entry_def zero_page0_def using slot_in_page [of i _ 0] by (intro load64_zero) auto

lemma next_table_oom:
  assumes "freelist s = 0" "\<not> bit (entry (ram s) pt (idx virt l)) 0"
  shows "\<exists>s'. next_table heap_alloc_page l virt pt 0 s = (s', 0, 0) \<and> freelist s' = 0 \<and>
    ram s' = store64 (zero_page0 (ram s)) (pt + 8 * of_nat (idx virt l)) 7"
proof -
  have "heap_alloc_page s = (0, kprintf ''freelist uninitialized!\<newline>'' [] s)"
    using assms(1) by (simp add: heap_alloc_page_def)
  moreover have "memset m 0 0 4096 = zero_page0 m" for m
    by (simp add: memset_eq zero_page0_def fun_eq_iff)
  moreover have "(0 OR 7) AND PT_ADDR_MASK = 0"
    by (rule table_entry) simp
  ultimately show ?thesis
    using next_table_absent [OF assms(2), of heap_alloc_page] assms(1) by (simp add: kprintf_def)
qed

lemma is_table_7: "0 < l \<Longrightarrow> is_table l 7"
  using table_entry(2) [of 0 l] by simp

lemma masked_7: "7 AND PT_ADDR_MASK = 0"
  using table_entry(1) [of 0] by simp

lemma install_page_unroll:
  "install_page root phys virt s =
     (let (s, pt, pp) = next_table heap_alloc_page 4 virt root 0 s;
          (s, pt, pp) = next_table heap_alloc_page 3 virt pt pp s;
          (s, pt, pp) = next_table heap_alloc_page 2 virt pt pp s
      in install_from heap_alloc_page 1 1 virt (phys OR 7) pt pp s)"
  using install_from_step [of 1 3 heap_alloc_page virt] install_from_step [of 1 2 heap_alloc_page virt]
    install_from_step [of 1 1 heap_alloc_page virt, unfolded Suc_1]
  by (simp add: install_page_from split: prod.split)



end
