(* ===== verification/Vpages.thy ===== *)
theory Vpages
  imports Heap
begin

text \<open>
  Concurrent calls of \<open>alloc_vpages\<close> (\<open>x86_64/heap.c\<close>): the shared lock and \<open>vfree_top\<close>, one phase per
  CPU, and runs under any schedule, a list of CPU numbers. The sequential model is in \<open>Heap\<close>.
\<close>

section \<open>The model\<close>

text \<open>
  Where a CPU is in its call for \<open>nr\<close> pages: in the loop of \<open>spin_lock\<close>, holding the lock, past the
  subtraction, past \<open>spin_unlock\<close>, or returned with an address.
\<close>

datatype vphase =
  Locking u64
| Locked u64
| Subtracted u64
| Unlocked u64
| Returned u64 addr

record vsys =
  vword :: spinlock
  vtop :: addr
  phase_of :: "nat \<Rightarrow> vphase"

definition vnext :: "nat \<Rightarrow> vsys \<Rightarrow> vsys" where
  "vnext c s =
     (case phase_of s c of
        Locking nr \<Rightarrow>
          (case sync_lock_test_and_set (vword s) 1 of (old, l) \<Rightarrow>
             s\<lparr>vword := l, phase_of := (phase_of s)(c := if old \<noteq> 0 then Locking nr else Locked nr)\<rparr>)
      | Locked nr \<Rightarrow>
          s\<lparr>vtop := vtop s - PAGE_SIZE * nr, phase_of := (phase_of s)(c := Subtracted nr)\<rparr>
      | Subtracted nr \<Rightarrow>
          s\<lparr>vword := spin_unlock (vword s), phase_of := (phase_of s)(c := Unlocked nr)\<rparr>
      | Unlocked nr \<Rightarrow> s\<lparr>phase_of := (phase_of s)(c := Returned nr (vtop s))\<rparr>
      | Returned nr a \<Rightarrow> s)"

definition vrun :: "nat list \<Rightarrow> vsys \<Rightarrow> vsys" where
  "vrun = fold vnext"

text \<open>CPU \<open>c\<close> calls for \<open>want c\<close> pages; the lock is free.\<close>

definition vstart :: "addr \<Rightarrow> (nat \<Rightarrow> u64) \<Rightarrow> vsys" where
  "vstart t want = \<lparr>vword = \<lparr>lock_v = 0\<rparr>, vtop = t, phase_of = \<lambda>c. Locking (want c)\<rparr>"

section \<open>What holds under every schedule\<close>

fun holds_lock :: "vphase \<Rightarrow> bool" where
  "holds_lock (Locked nr) = True"
| "holds_lock (Subtracted nr) = True"
| "holds_lock _ = False"

fun taken :: "vphase \<Rightarrow> u64" where
  "taken (Locking nr) = 0"
| "taken (Locked nr) = 0"
| "taken (Subtracted nr) = nr"
| "taken (Unlocked nr) = nr"
| "taken (Returned nr a) = nr"

definition holders :: "(nat \<Rightarrow> vphase) \<Rightarrow> nat set" where
  "holders ph = {c. holds_lock (ph c)}"

definition pages_taken :: "nat \<Rightarrow> (nat \<Rightarrow> vphase) \<Rightarrow> u64" where
  "pages_taken n ph = (\<Sum>c<n. taken (ph c))"

definition vinv :: "addr \<Rightarrow> nat \<Rightarrow> vsys \<Rightarrow> bool" where
  "vinv t n s \<longleftrightarrow>
     (lock_v (vword s) = 0 \<and> holders (phase_of s) = {} \<or>
      lock_v (vword s) = 1 \<and> (\<exists>c. holders (phase_of s) = {c})) \<and>
     vtop s = t - PAGE_SIZE * pages_taken n (phase_of s)"

lemma holders_upd:
  "holders (ph(c := p)) = (if holds_lock p then insert c (holders ph) else holders ph - {c})"
  by (auto simp: holders_def)

lemma in_holders: "c \<in> holders ph \<longleftrightarrow> holds_lock (ph c)"
  by (simp add: holders_def)

lemma pages_taken_upd:
  assumes "c < n"
  shows "pages_taken n (ph(c := p)) = pages_taken n ph - taken (ph c) + taken p"
proof -
  have split: "pages_taken n ph' = taken (ph' c) + (\<Sum>d \<in> {..<n} - {c}. taken (ph' d))" for ph'
    unfolding pages_taken_def using assms by (intro sum.remove) auto
  have "(\<Sum>d \<in> {..<n} - {c}. taken ((ph(c := p)) d)) = (\<Sum>d \<in> {..<n} - {c}. taken (ph d))"
    by (rule sum.cong) auto
  then have "pages_taken n (ph(c := p)) = taken p + (\<Sum>d \<in> {..<n} - {c}. taken (ph d))"
    using split [of "ph(c := p)"] by (simp only: fun_upd_same)
  then show ?thesis
    unfolding split [of ph] by (simp only: add_diff_cancel_left' add.commute)
qed

lemma vinv_start: "vinv t n (vstart t want)"
  by (simp add: vinv_def vstart_def holders_def pages_taken_def)

lemma vinv_upd:
  assumes "vinv t n s" "c < n"
    "lock_v l = 0 \<and> holders ((phase_of s)(c := p)) = {} \<or>
     lock_v l = 1 \<and> (\<exists>d. holders ((phase_of s)(c := p)) = {d})"
    "t' = vtop s - PAGE_SIZE * (taken p - taken (phase_of s c))"
  shows "vinv t n (s\<lparr>vword := l, vtop := t', phase_of := (phase_of s)(c := p)\<rparr>)"
proof -
  have "t' = t - PAGE_SIZE * pages_taken n (phase_of s) - PAGE_SIZE * (taken p - taken (phase_of s c))"
    using assms(1,4) by (simp add: vinv_def)
  also have "\<dots> = t - PAGE_SIZE * pages_taken n ((phase_of s)(c := p))"
    unfolding pages_taken_upd [OF assms(2)] by (simp add: algebra_simps)
  finally show ?thesis
    using assms(3) by (simp add: vinv_def)
qed

lemma vinv_lock:
  "vinv t n s \<Longrightarrow> lock_v (vword s) = 0 \<and> holders (phase_of s) = {} \<or>
     lock_v (vword s) = 1 \<and> (\<exists>d. holders (phase_of s) = {d})"
  by (simp add: vinv_def)

lemma vinv_vnext:
  assumes "vinv t n s" "c < n"
  shows "vinv t n (vnext c s)"
proof (cases "phase_of s c")
  case (Locking nr)
  let ?p = "if lock_v (vword s) \<noteq> 0 then Locking nr else Locked nr"
  have "c \<notin> holders (phase_of s)" using Locking by (simp add: in_holders)
  then have "vinv t n (s\<lparr>vword := (vword s)\<lparr>lock_v := 1\<rparr>, vtop := vtop s, phase_of := (phase_of s)(c := ?p)\<rparr>)"
    using vinv_lock [OF assms(1)] Locking by (intro vinv_upd [OF assms]) (auto simp: holders_upd)
  then show ?thesis
    using Locking by (simp add: vnext_def sync_lock_test_and_set_def)
next
  case (Locked nr)
  then have "c \<in> holders (phase_of s)" by (simp add: in_holders)
  then have "vinv t n (s\<lparr>vword := vword s, vtop := vtop s - PAGE_SIZE * nr,
      phase_of := (phase_of s)(c := Subtracted nr)\<rparr>)"
    using vinv_lock [OF assms(1)] Locked by (intro vinv_upd [OF assms]) (auto simp: holders_upd)
  then show ?thesis
    using Locked by (simp add: vnext_def)
next
  case (Subtracted nr)
  then have "c \<in> holders (phase_of s)" by (simp add: in_holders)
  then have "vinv t n (s\<lparr>vword := spin_unlock (vword s), vtop := vtop s,
      phase_of := (phase_of s)(c := Unlocked nr)\<rparr>)"
    using vinv_lock [OF assms(1)] Subtracted by (intro vinv_upd [OF assms]) (auto simp: holders_upd)
  then show ?thesis
    using Subtracted by (simp add: vnext_def)
next
  case (Unlocked nr)
  then have "c \<notin> holders (phase_of s)" by (simp add: in_holders)
  then have "vinv t n (s\<lparr>vword := vword s, vtop := vtop s,
      phase_of := (phase_of s)(c := Returned nr (vtop s))\<rparr>)"
    using vinv_lock [OF assms(1)] Unlocked by (intro vinv_upd [OF assms]) (auto simp: holders_upd)
  then show ?thesis
    using Unlocked by (simp add: vnext_def)
next
  case (Returned nr a)
  then show ?thesis using assms by (simp add: vnext_def)
qed

lemma vinv_vrun: "vinv t n s \<Longrightarrow> set cs \<subseteq> {..<n} \<Longrightarrow> vinv t n (vrun cs s)"
  by (induction cs arbitrary: s) (auto simp: vrun_def vinv_vnext)




section \<open>Calls one after the other\<close>

lemma alloc_vpages_eq:
  assumes "lock_v (vlock s) = 0"
  shows "\<exists>s'. alloc_vpages nr s = Some (vfree_top s - PAGE_SIZE * nr, s') \<and>
    vfree_top s' = vfree_top s - PAGE_SIZE * nr \<and> lock_v (vlock s') = 0"
  using assms by (simp add: alloc_vpages_def Let_def)

text \<open>
  Without interference, successive calls of \<open>alloc_vpages\<close> return adjacent ranges, downwards
  from \<open>vfree_top\<close>: the end of each is the start of the one before.
\<close>

theorem alloc_vpages_adjacent:
  assumes "lock_v (vlock s) = 0" "alloc_vpages nr s = Some (a, s1)" "alloc_vpages nr' s1 = Some (b, s2)"
  shows "a + PAGE_SIZE * nr = vfree_top s \<and> b + PAGE_SIZE * nr' = a"
  using assms alloc_vpages_eq [of s nr] alloc_vpages_eq [of s1 nr'] by auto

theorem alloc_vpages_adjacent_witness:
  "\<exists>a s1 b s2. alloc_vpages 2 boot_heap = Some (a, s1) \<and> alloc_vpages 1 s1 = Some (b, s2) \<and>
     b + 4096 = a \<and> a + 8192 = 0"
proof -
  have l: "lock_v (vlock boot_heap) = 0"
    by (simp add: boot_heap_def)
  obtain s1 where s1: "alloc_vpages 2 boot_heap = Some (vfree_top boot_heap - PAGE_SIZE * 2, s1)"
    "lock_v (vlock s1) = 0"
    using alloc_vpages_eq [OF l] by blast
  obtain s2 where s2: "alloc_vpages 1 s1 = Some (vfree_top s1 - PAGE_SIZE * 1, s2)"
    using alloc_vpages_eq [OF s1(2)] by blast
  show ?thesis
    using alloc_vpages_adjacent [OF l s1(1) s2] s1(1) s2 by (auto simp: boot_heap_def)
qed

end
