(* ===== verification/Mptable.thy ===== *)
theory Mptable
  imports Cstring Printf
begin

text \<open>
  The multiprocessor tables of the BIOS (\<open>x86_64/mp.c\<close> with \<open>include/mp.h\<close>): the search for the
  floating pointer structure, the checks of the configuration table and \<open>mpinit\<close>, which fills
  \<open>cpus\<close>. Memory is only read; the variables the code sets are a record. The inter-processor
  interrupts of the same file are in \<open>Ipi\<close>.
\<close>

section \<open>The model\<close>

definition NCPU :: nat where
  "NCPU = 64"

text \<open>
  A \<open>struct cpu\<close> has the two fields that are used; \<open>ncpu\<close> is an \<open>int\<close> that starts at 0 and is only
  counted up, while it is below \<open>NCPU\<close>.
\<close>

record cpu =
  apicid :: byte
  started :: u32

record mpstate =
  cpus :: "cpu list"
  ncpu :: nat
  ioapicid :: byte
  lapic :: addr
  mp_printed :: "(byte list \<times> va_arg list) list"

definition mp_printf :: "string \<Rightarrow> mpstate \<Rightarrow> mpstate" where
  "mp_printf fmt s = s\<lparr>mp_printed := mp_printed s @ [(bytes_of fmt @ [0], [])]\<rparr>"

text \<open>The structures, by the sizes and offsets of \<open>include/mp.h\<close>.\<close>

definition mp_size :: u64 where "mp_size = 16"
definition mp_physaddr :: "mem \<Rightarrow> addr \<Rightarrow> u32" where "mp_physaddr m mp = load32 m (mp + 4)"

definition mpconf_size :: u64 where "mpconf_size = 44"
definition conf_length :: "mem \<Rightarrow> addr \<Rightarrow> u16" where "conf_length m c = load16 m (c + 4)"
definition conf_version :: "mem \<Rightarrow> addr \<Rightarrow> byte" where "conf_version m c = m (c + 6)"
definition conf_lapicaddr :: "mem \<Rightarrow> addr \<Rightarrow> u32" where "conf_lapicaddr m c = load32 m (c + 36)"

definition mpproc_size :: u64 where "mpproc_size = 20"
definition proc_apicid :: "mem \<Rightarrow> addr \<Rightarrow> byte" where "proc_apicid m p = m (p + 1)"

definition mpioapic_size :: u64 where "mpioapic_size = 8"
definition ioapic_apicno :: "mem \<Rightarrow> addr \<Rightarrow> byte" where "ioapic_apicno m p = m (p + 1)"

definition MPPROC :: byte where "MPPROC = 0x00"
definition MPBUS :: byte where "MPBUS = 0x01"
definition MPIOAPIC :: byte where "MPIOAPIC = 0x02"
definition MPIOINTR :: byte where "MPIOINTR = 0x03"
definition MPLINTR :: byte where "MPLINTR = 0x04"

text \<open>\<open>sum\<close> adds in an \<open>int\<close> and returns the low byte.\<close>

primrec sum_loop :: "nat \<Rightarrow> mem \<Rightarrow> addr \<Rightarrow> u32 \<Rightarrow> u32" where
  "sum_loop 0 m a acc = acc"
| "sum_loop (Suc n) m a acc = sum_loop n m (a + 1) (acc + ucast (m a))"

definition mp_sum :: "mem \<Rightarrow> addr \<Rightarrow> nat \<Rightarrow> byte" where
  "mp_sum m a len = ucast (sum_loop len m a 0)"

partial_function (option) mpsearch1_loop :: "mem \<Rightarrow> addr \<Rightarrow> addr \<Rightarrow> addr option" where
  "mpsearch1_loop m p e =
     (if p < e then
        do { d \<leftarrow> memcmp (read_bytes m p 4) (bytes_of ''_MP_'') 4;
             if d = 0 \<and> mp_sum m p 16 = 0 then Some p else mpsearch1_loop m (p + mp_size) e }
      else Some 0)"

definition mpsearch1 :: "mem \<Rightarrow> addr \<Rightarrow> u64 \<Rightarrow> addr option" where
  "mpsearch1 m a len = mpsearch1_loop m a (a + len)"

definition mpsearch_rom :: "bool \<Rightarrow> mem \<Rightarrow> mpstate \<Rightarrow> (addr \<times> mpstate) option" where
  "mpsearch_rom bare_metal m s =
     do { let s = (if bare_metal
                   then mp_printf ''MP in the BIOS ROM between 0xE0000 and 0xFFFFF\<newline>'' s else s);
          mp \<leftarrow> mpsearch1 m 0xF0000 0x10000;
          Some (mp, s) }"

definition mpsearch :: "bool \<Rightarrow> mem \<Rightarrow> mpstate \<Rightarrow> (addr \<times> mpstate) option" where
  "mpsearch bare_metal m s =
     (let bda = 0x400;
          p = ucast (push_bit 4 (push_bit 8 (ucast (m (bda + 0x0F))) OR ucast (m (bda + 0x0E)) :: u32)) in
      if p \<noteq> 0 then
        do { mp \<leftarrow> mpsearch1 m p 1024;
             if mp \<noteq> 0
             then Some (mp, if bare_metal then mp_printf ''MP in the first KB of the EBDA\<newline>'' s else s)
             else mpsearch_rom bare_metal m s }
      else
        do { let p = ucast ((push_bit 8 (ucast (m (bda + 0x14))) OR ucast (m (bda + 0x13)) :: u32) * 1024);
             mp \<leftarrow> mpsearch1 m (p - 1024) 1024;
             if mp \<noteq> 0
             then Some (mp, if bare_metal
                            then mp_printf ''MP in the last KB of system base memory\<newline>'' s else s)
             else mpsearch_rom bare_metal m s })"

definition mpconfig :: "bool \<Rightarrow> mem \<Rightarrow> mpstate \<Rightarrow> (addr \<times> mpstate) option" where
  "mpconfig bare_metal m s =
     do { (mp, s) \<leftarrow> mpsearch bare_metal m s;
          if mp = 0 \<or> mp_physaddr m mp = 0 then Some (0, s)
          else do { let conf = ucast (mp_physaddr m mp);
                    d \<leftarrow> memcmp (read_bytes m conf 4) (bytes_of ''PCMP'') 4;
                    if d \<noteq> 0 then Some (0, s)
                    else if conf_version m conf \<noteq> 1 \<and> conf_version m conf \<noteq> 4 then Some (0, s)
                    else if mp_sum m conf (unat (conf_length m conf)) \<noteq> 0 then Some (0, s)
                    else Some (conf, s) } }"

text \<open>
  The loop of \<open>mpinit\<close>. The \<open>break\<close> of its \<open>default\<close> case leaves the \<open>switch\<close>, not the loop.
\<close>

partial_function (option) mp_entries :: "mem \<Rightarrow> addr \<Rightarrow> addr \<Rightarrow> bool \<Rightarrow> mpstate \<Rightarrow> (bool \<times> mpstate) option" where
  "mp_entries m p e ismp s =
     (if p < e then
        if m p = MPPROC then
          mp_entries m (p + mpproc_size) e ismp
            (if ncpu s < NCPU
             then s\<lparr>cpus := (cpus s)[ncpu s := (cpus s ! ncpu s)\<lparr>apicid := proc_apicid m p\<rparr>],
                    ncpu := Suc (ncpu s)\<rparr> else s)
        else if m p = MPIOAPIC then
          mp_entries m (p + mpioapic_size) e ismp (s\<lparr>ioapicid := ioapic_apicno m p\<rparr>)
        else if m p = MPBUS \<or> m p = MPIOINTR \<or> m p = MPLINTR then mp_entries m (p + 8) e ismp s
        else mp_entries m p e False s
      else Some (ismp, s))"

definition mpinit :: "bool \<Rightarrow> mem \<Rightarrow> mpstate \<Rightarrow> mpstate option" where
  "mpinit bare_metal m s =
     do { (conf, s) \<leftarrow> mpconfig bare_metal m s;
          let s = (if conf = 0 then mp_printf ''Expect to run on an SMP'' s else s);
          let s = s\<lparr>lapic := ucast (conf_lapicaddr m conf)\<rparr>;
          (ismp, s) \<leftarrow> mp_entries m (conf + mpconf_size) (conf + ucast (conf_length m conf)) True s;
          Some (if \<not> ismp then mp_printf ''Didn't find a suitable machine'' s else s) }"

section \<open>The search\<close>

lemma sum_loop_eq: "sum_loop n m a acc = acc + (\<Sum>i<n. ucast (m (a + of_nat i)))"
proof (induction n arbitrary: a acc)
  case (Suc n)
  have "(\<Sum>i<Suc n. ucast (m (a + of_nat i))) =
      ucast (m a) + (\<Sum>i<n. ucast (m (a + 1 + of_nat i)) :: u32)"
    by (subst sum.lessThan_Suc_shift) (simp add: add.assoc)
  then show ?case
    by (simp add: Suc.IH add.assoc)
qed simp

lemma ucast_byte_add: "(ucast (x + y :: u32) :: byte) = ucast x + ucast y"
proof -
  have "(x mod 2 ^ 32 + y mod 2 ^ 32) mod 2 ^ 8 = (x + y) mod 2 ^ 8" for x y :: int
    by (rule mod_add_cong) (rule mod_mod_cancel, simp add: le_imp_power_dvd)+
  then show ?thesis
    by transfer (simp add: take_bit_eq_mod mod_mod_cancel)
qed

lemma ucast_byte_sum: "(ucast (\<Sum>i\<in>A. ucast (f i :: byte) :: u32) :: byte) = (\<Sum>i\<in>A. f i)"
proof (cases "finite A")
  case True
  then show ?thesis
    by (induction A) (simp_all add: ucast_byte_add ucast_up_ucast_id is_up)
qed simp

text \<open>The checksum is the sum of the bytes modulo 256.\<close>

lemma mp_sum_eq: "mp_sum m a n = (\<Sum>i<n. m (a + of_nat i))"
  by (simp add: mp_sum_def sum_loop_eq ucast_byte_sum)

text \<open>A floating pointer structure: its signature and a checksum of 0.\<close>

definition is_mp :: "mem \<Rightarrow> addr \<Rightarrow> bool" where
  "is_mp m p \<longleftrightarrow> read_bytes m p 4 = bytes_of ''_MP_'' \<and> (\<Sum>i<16. m (p + of_nat i)) = 0"

definition first_mp :: "mem \<Rightarrow> addr list \<Rightarrow> addr" where
  "first_mp m ps = (case List.find (is_mp m) ps of None \<Rightarrow> 0 | Some p \<Rightarrow> p)"

text \<open>The paragraphs (16 bytes each) of a region.\<close>

definition paragraphs :: "addr \<Rightarrow> nat \<Rightarrow> addr list" where
  "paragraphs a n = map (\<lambda>i. a + 16 * of_nat i) [0..<n]"

lemma paragraphs_Suc: "paragraphs a (Suc n) = a # paragraphs (a + 16) n"
  by (simp add: paragraphs_def upt_conv_Cons map_Suc_upt [symmetric] algebra_simps
      del: upt_Suc)

lemma memcmp_signature:
  assumes "length xs = 4" "length ys = 4"
  obtains d where "memcmp xs ys 4 = Some d" "d = 0 \<longleftrightarrow> xs = ys"
  using memcmp_take [of 4 xs ys] assms by auto

lemma length_bytes_of [simp]: "length (bytes_of s) = length s"
  by (simp add: bytes_of_def)

lemma mpsearch1_step:
  "mpsearch1_loop m p e =
     (if p < e then if is_mp m p then Some p else mpsearch1_loop m (p + 16) e else Some 0)"
proof -
  obtain d where d: "memcmp (read_bytes m p 4) (bytes_of ''_MP_'') 4 = Some d"
      "d = 0 \<longleftrightarrow> read_bytes m p 4 = bytes_of ''_MP_''"
    by (rule memcmp_signature [of "read_bytes m p 4" "bytes_of ''_MP_''"]) simp_all
  show ?thesis
    by (subst mpsearch1_loop.simps) (simp add: d is_mp_def mp_sum_eq mp_size_def)
qed

lemma mpsearch1_loop_first:
  assumes "unat p + 16 * n < 2 ^ 64"
  shows "mpsearch1_loop m p (p + 16 * of_nat n) = Some (first_mp m (paragraphs p n))"
  using assms
proof (induction n arbitrary: p)
  case 0
  show ?case
    by (subst mpsearch1_step) (simp add: first_mp_def paragraphs_def)
next
  case (Suc n)
  have e: "p + 16 * of_nat (Suc n) = p + 16 + 16 * of_nat n"
    by (simp add: algebra_simps)
  have "unat (p + 16 * of_nat (Suc n)) = unat p + 16 * Suc n"
    using Suc.prems unat_plus_of_nat [of p "16 * Suc n"] by simp
  then have lt: "p < p + 16 * of_nat (Suc n)"
    by (simp add: word_less_nat_alt)
  have "unat (p + 16) + 16 * n < 2 ^ 64"
    using Suc.prems unat_plus_of_nat [of p 16] by simp
  from Suc.IH [OF this] lt show ?case
    by (subst mpsearch1_step) (simp add: e paragraphs_Suc first_mp_def add.assoc)
qed

text \<open>The segment of the extended BIOS data area and the size of base memory, from the BIOS data area.\<close>

definition ebda_segment :: "mem \<Rightarrow> nat" where
  "ebda_segment m = unat (m 0x40F) * 256 + unat (m 0x40E)"

definition base_kb :: "mem \<Rightarrow> nat" where
  "base_kb m = unat (m 0x414) * 256 + unat (m 0x413)"

text \<open>The places that are searched, in order.\<close>

definition mp_candidates :: "mem \<Rightarrow> addr list" where
  "mp_candidates m =
     (if ebda_segment m \<noteq> 0 then paragraphs (of_nat (16 * ebda_segment m)) 64
      else if base_kb m \<noteq> 0 then paragraphs (of_nat (1024 * (base_kb m - 1))) 64 else []) @
     paragraphs 0xF0000 4096"

definition search_message :: "mem \<Rightarrow> string" where
  "search_message m =
     (if ebda_segment m \<noteq> 0 \<and> first_mp m (paragraphs (of_nat (16 * ebda_segment m)) 64) \<noteq> 0
      then ''MP in the first KB of the EBDA\<newline>''
      else if ebda_segment m = 0 \<and> base_kb m \<noteq> 0 \<and>
        first_mp m (paragraphs (of_nat (1024 * (base_kb m - 1))) 64) \<noteq> 0
      then ''MP in the last KB of system base memory\<newline>''
      else ''MP in the BIOS ROM between 0xE0000 and 0xFFFFF\<newline>'')"

lemma word_of_two_bytes:
  "(push_bit 8 (ucast (b :: byte)) OR ucast (a :: byte) :: u32) = of_nat (unat b * 256 + unat a)"
proof -
  have "push_bit 8 (ucast b) AND ucast a = (0 :: u32)"
    by (rule bit_word_eqI) (auto simp: bit_simps dest: bit_imp_le_length)
  then have "(push_bit 8 (ucast b) OR ucast a :: u32) = push_bit 8 (ucast b) + ucast a"
    by (simp add: disjunctive_add_eq_or)
  then show ?thesis
    by (simp add: push_bit_eq_mult)
qed

lemma two_bytes_bound: "unat (b :: byte) * 256 + unat (a :: byte) < 65536"
proof -
  have "unat b < 2 ^ 8" "unat a < 2 ^ 8"
    by (rule order.strict_trans2 [OF unsigned_less], simp)+
  then show ?thesis
    by simp
qed

lemma first_mp_append:
  "\<not> is_mp m 0 \<Longrightarrow>
   first_mp m (xs @ ys) = (if first_mp m xs \<noteq> 0 then first_mp m xs else first_mp m ys)"
  by (induction xs) (auto simp: first_mp_def)

lemma ucast_of_nat_addr: "n < 2 ^ 32 \<Longrightarrow> (ucast (of_nat n :: u32) :: u64) = of_nat n"
  by (simp add: unsigned_of_nat take_bit_nat_eq_self)

lemma ebda_pointer:
  "(ucast (push_bit 4 (push_bit 8 (ucast (m 0x40F)) OR ucast (m 0x40E) :: u32)) :: u64) =
   of_nat (16 * ebda_segment m)"
proof -
  have "(push_bit 4 (of_nat (ebda_segment m)) :: u32) = of_nat (16 * ebda_segment m)"
    by (simp add: push_bit_eq_mult)
  moreover have "ebda_segment m < 65536"
    unfolding ebda_segment_def by (rule two_bytes_bound)
  ultimately show ?thesis
    unfolding word_of_two_bytes
    by (simp add: ebda_segment_def [symmetric] ucast_of_nat_addr del: of_nat_mult of_nat_add)
qed

lemma base_pointer:
  "(ucast ((push_bit 8 (ucast (m 0x414)) OR ucast (m 0x413) :: u32) * 1024) :: u64) =
   of_nat (1024 * base_kb m)"
proof -
  have "(of_nat (base_kb m) * 1024 :: u32) = of_nat (1024 * base_kb m)"
    by (simp add: mult.commute)
  moreover have "base_kb m < 65536"
    unfolding base_kb_def by (rule two_bytes_bound)
  ultimately show ?thesis
    unfolding word_of_two_bytes
    by (simp add: base_kb_def [symmetric] ucast_of_nat_addr del: of_nat_mult of_nat_add)
qed

lemma mpsearch1_region:
  assumes "a + 16 * n < 2 ^ 64"
  shows "mpsearch1 m (of_nat a) (of_nat (16 * n)) = Some (first_mp m (paragraphs (of_nat a) n))"
proof -
  have "unat (of_nat a :: u64) = a"
    using assms by simp
  with mpsearch1_loop_first [of "of_nat a" n m] assms show ?thesis
    by (simp add: mpsearch1_def)
qed

lemma mpsearch_rom_eq:
  "mpsearch_rom bare_metal m s =
   Some (first_mp m (paragraphs 0xF0000 4096),
         if bare_metal then mp_printf ''MP in the BIOS ROM between 0xE0000 and 0xFFFFF\<newline>'' s else s)"
  using mpsearch1_region [of "0xF0000" 4096 m] by (simp add: mpsearch_rom_def)

text \<open>
  The search, whatever memory holds: the first structure among the candidates, and what a
  bare-metal build says of it. The structure cannot be at address 0, which is the null pointer.
\<close>

lemma mpsearch_eq:
  assumes "\<not> is_mp m 0"
  shows "mpsearch bare_metal m s =
    Some (first_mp m (mp_candidates m), if bare_metal then mp_printf (search_message m) s else s)"
proof -
  have seg: "ebda_segment m < 65536" and kb: "base_kb m < 65536"
    unfolding ebda_segment_def base_kb_def by (rule two_bytes_bound)+
  have seg0: "(of_nat (16 * ebda_segment m) :: u64) = 0 \<longleftrightarrow> ebda_segment m = 0"
    using seg by (simp only: unat_of_nat_u64 flip: unat_eq_0) simp
  have ebda: "mpsearch1 m (of_nat (16 * ebda_segment m)) 1024 =
      Some (first_mp m (paragraphs (of_nat (16 * ebda_segment m)) 64))"
    using seg mpsearch1_region [of "16 * ebda_segment m" 64 m] by simp
  have base: "mpsearch1 m (of_nat (1024 * base_kb m) - 1024) 1024 =
      Some (if base_kb m = 0 then 0 else first_mp m (paragraphs (of_nat (1024 * (base_kb m - 1))) 64))"
  proof (cases "base_kb m = 0")
    case False
    then have "(of_nat (1024 * base_kb m) - 1024 :: u64) = of_nat (1024 * (base_kb m - 1))"
      by (simp add: of_nat_diff algebra_simps)
    with False kb mpsearch1_region [of "1024 * (base_kb m - 1)" 64 m] show ?thesis
      by simp
  qed (simp add: mpsearch1_def mpsearch1_loop.simps)
  have bda: "(0x400 + 0x0F :: u64) = 0x40F" "(0x400 + 0x0E :: u64) = 0x40E"
      "(0x400 + 0x14 :: u64) = 0x414" "(0x400 + 0x13 :: u64) = 0x413"
    by simp_all
  show ?thesis
    unfolding mpsearch_def Let_def bda ebda_pointer base_pointer ebda base seg0 mpsearch_rom_eq
      mp_candidates_def search_message_def first_mp_append [OF assms]
    by (simp add: first_mp_def)
qed

section \<open>The configuration table\<close>

text \<open>What the configuration table says, as a list.\<close>

datatype mp_entry = Proc_entry byte | Ioapic_entry byte | Other_entry

text \<open>
  The entries in \<open>n\<close> bytes at \<open>p\<close>; \<open>None\<close> when one of them has no known type, so that its length
  is not known. The last entry may reach past the end.
\<close>

fun mp_decode :: "mem \<Rightarrow> addr \<Rightarrow> nat \<Rightarrow> mp_entry list option" where
  "mp_decode m p n =
     (if n = 0 then Some []
      else if m p = MPPROC then
        map_option (Cons (Proc_entry (proc_apicid m p))) (mp_decode m (p + mpproc_size) (n - 20))
      else if m p = MPIOAPIC then
        map_option (Cons (Ioapic_entry (ioapic_apicno m p))) (mp_decode m (p + mpioapic_size) (n - 8))
      else if m p = MPBUS \<or> m p = MPIOINTR \<or> m p = MPLINTR then
        map_option (Cons Other_entry) (mp_decode m (p + 8) (n - 8))
      else None)"

declare mp_decode.simps [simp del]

fun cpu_ids :: "mp_entry list \<Rightarrow> byte list" where
  "cpu_ids [] = []"
| "cpu_ids (Proc_entry i # es) = i # cpu_ids es"
| "cpu_ids (_ # es) = cpu_ids es"

fun ioapic_ids :: "mp_entry list \<Rightarrow> byte list" where
  "ioapic_ids [] = []"
| "ioapic_ids (Ioapic_entry i # es) = i # ioapic_ids es"
| "ioapic_ids (_ # es) = ioapic_ids es"

fun enter :: "mp_entry \<Rightarrow> mpstate \<Rightarrow> mpstate" where
  "enter (Proc_entry i) s =
     (if ncpu s < NCPU
      then s\<lparr>cpus := (cpus s)[ncpu s := (cpus s ! ncpu s)\<lparr>apicid := i\<rparr>], ncpu := Suc (ncpu s)\<rparr> else s)"
| "enter (Ioapic_entry i) s = s\<lparr>ioapicid := i\<rparr>"
| "enter Other_entry s = s"

lemmas entry_types = MPPROC_def MPBUS_def MPIOAPIC_def MPIOINTR_def MPLINTR_def
lemmas entry_sizes = mpproc_size_def mpioapic_size_def

text \<open>An entry of no known type is looked at again and again.\<close>

lemma mp_entries_stuck:
  assumes "p < e" "m p \<noteq> MPPROC" "m p \<noteq> MPIOAPIC" "m p \<noteq> MPBUS" "m p \<noteq> MPIOINTR" "m p \<noteq> MPLINTR"
  shows "mp_entries m p e ismp s = None"
proof (rule ccontr)
  assume "mp_entries m p e ismp s \<noteq> None"
  then obtain y where "mp_entries m p e ismp s = Some y"
    by auto
  then have "(p < e \<and> m p \<notin> {MPPROC, MPIOAPIC, MPBUS, MPIOINTR, MPLINTR}) \<longrightarrow> False"
    by (rule mp_entries.raw_induct
        [of "\<lambda>m p e _ _ _. (p < e \<and> m p \<notin> {MPPROC, MPIOAPIC, MPBUS, MPIOINTR, MPLINTR}) \<longrightarrow> False",
          rotated]) (fastforce split: if_splits)
  with assms show False
    by simp
qed

lemma entry_end:
  fixes p e :: u64
  assumes "unat e + 20 < 2 ^ 64" "p < e" "k \<le> 20"
  shows "unat e - unat (p + of_nat k) = unat e - unat p - k"
proof -
  have "unat p < unat e"
    using assms by (simp add: word_less_nat_alt)
  then show ?thesis
    using assms unat_plus_of_nat [of p k] by simp
qed

lemma mp_entries_eq:
  assumes "unat e + 20 < 2 ^ 64"
  shows "mp_entries m p e ismp s =
    map_option (\<lambda>es. (ismp, fold enter es s)) (mp_decode m p (unat e - unat p))"
  using assms
proof (induction "unat e - unat p" arbitrary: p s rule: less_induct)
  case less
  show ?case
  proof (cases "p < e")
    case True
    then have n: "unat e - unat p \<noteq> 0"
      by (simp add: word_less_nat_alt)
    have e: "unat e - unat (p + 20) = unat e - unat p - 20" "unat e - unat (p + 8) = unat e - unat p - 8"
      using entry_end [OF less.prems True, of 20] entry_end [OF less.prems True, of 8] by simp_all
    have IH: "mp_entries m (p + 20) e ismp s' =
          map_option (\<lambda>es. (ismp, fold enter es s')) (mp_decode m (p + 20) (unat e - unat p - 20))"
        "mp_entries m (p + 8) e ismp s' =
          map_option (\<lambda>es. (ismp, fold enter es s')) (mp_decode m (p + 8) (unat e - unat p - 8))" for s'
      using less.hyps [of "p + 20" s'] less.hyps [of "p + 8" s'] less.prems n by (simp_all add: e)
    show ?thesis
    proof (cases "m p \<in> {MPPROC, MPIOAPIC, MPBUS, MPIOINTR, MPLINTR}")
      case True
      with \<open>p < e\<close> n show ?thesis
        by (subst mp_entries.simps, subst mp_decode.simps)
          (auto simp: IH entry_types entry_sizes option.map_comp comp_def)
    next
      case False
      with \<open>p < e\<close> n mp_entries_stuck [of p e m ismp s] show ?thesis
        by (subst mp_decode.simps) simp
    qed
  next
    case False
    then have "unat e - unat p = 0"
      by (simp add: word_less_nat_alt)
    with False show ?thesis
      by (subst mp_entries.simps, subst mp_decode.simps) simp
  qed
qed

text \<open>What the entries leave in the array.\<close>

lemma map_update_same: "f x = f (xs ! i) \<Longrightarrow> map f (xs[i := x]) = map f xs"
  by (metis list_update_id map_update)

lemma enter_frame:
  "lapic (fold enter es s) = lapic s" "mp_printed (fold enter es s) = mp_printed s"
  "length (cpus (fold enter es s)) = length (cpus s)"
  "ioapicid (fold enter es s) = last (ioapicid s # ioapic_ids es)"
  "map started (cpus (fold enter es s)) = map started (cpus s)"
proof (induction es arbitrary: s)
  case (Cons x es)
  case 1 show ?case using Cons(1) by (cases x) auto
  case 2 show ?case using Cons(2) by (cases x) auto
  case 3 show ?case using Cons(3) by (cases x) auto
  case 4 show ?case using Cons(4) by (cases x) auto
  case 5 show ?case using Cons(5)
    by (cases x) (auto simp: map_update_same)
qed simp_all

lemma enter_cpus:
  assumes "length (cpus s) = NCPU" "ncpu s \<le> NCPU"
  shows "ncpu (fold enter es s) = min NCPU (ncpu s + length (cpu_ids es)) \<and>
    map apicid (cpus (fold enter es s)) =
      take NCPU (map apicid (take (ncpu s) (cpus s)) @ cpu_ids es @
        drop (ncpu s + length (cpu_ids es)) (map apicid (cpus s)))"
  using assms
proof (induction es arbitrary: s)
  case Nil
  then show ?case
    by (simp add: take_map drop_map flip: map_append)
next
  case (Cons x es)
  show ?case
  proof (cases x)
    case (Proc_entry i)
    show ?thesis
    proof (cases "ncpu s < NCPU")
      case True
      then show ?thesis
        using Cons.IH [of "enter x s"] Cons.prems
        by (simp add: Proc_entry take_Suc_conv_app_nth map_update take_map drop_map)
    next
      case False
      then show ?thesis
        using Cons.IH [of s] Cons.prems by (simp add: Proc_entry)
    qed
  qed (use Cons.IH [of "enter x s"] Cons.prems in simp_all)
qed

text \<open>The table \<open>mpconfig\<close> returns.\<close>

definition valid_conf :: "mem \<Rightarrow> addr \<Rightarrow> bool" where
  "valid_conf m conf \<longleftrightarrow> read_bytes m conf 4 = bytes_of ''PCMP'' \<and> conf_version m conf \<in> {1, 4} \<and>
     (\<Sum>i<unat (conf_length m conf). m (conf + of_nat i)) = 0"

definition found_conf :: "mem \<Rightarrow> addr" where
  "found_conf m =
     (let mp = first_mp m (mp_candidates m); conf = ucast (mp_physaddr m mp) in
      if mp \<noteq> 0 \<and> valid_conf m conf then conf else 0)"

definition search_log :: "bool \<Rightarrow> mem \<Rightarrow> mpstate \<Rightarrow> mpstate" where
  "search_log bare_metal m s = (if bare_metal then mp_printf (search_message m) s else s)"

lemma mpconfig_eq:
  assumes "\<not> is_mp m 0"
  shows "mpconfig bare_metal m s = Some (found_conf m, search_log bare_metal m s)"
proof -
  let ?conf = "ucast (mp_physaddr m (first_mp m (mp_candidates m))) :: u64"
  obtain d where d: "memcmp (read_bytes m ?conf 4) (bytes_of ''PCMP'') 4 = Some d"
      "d = 0 \<longleftrightarrow> read_bytes m ?conf 4 = bytes_of ''PCMP''"
    by (rule memcmp_signature [of "read_bytes m ?conf 4" "bytes_of ''PCMP''"]) simp_all
  show ?thesis
    by (simp add: mpconfig_def mpsearch_eq [OF assms] d found_conf_def valid_conf_def mp_sum_eq Let_def
        search_log_def)
qed

definition conf_entries :: "mem \<Rightarrow> addr \<Rightarrow> mp_entry list option" where
  "conf_entries m conf = mp_decode m (conf + 44) (unat (conf_length m conf) - 44)"

lemma found_conf_bound: "unat (found_conf m) < 2 ^ 32"
proof -
  have "unat (ucast (x :: u32) :: u64) < 2 ^ 32" for x
    by (simp add: unsigned_ucast_eq take_bit_nat_eq_self_iff)
      (rule order.strict_trans1 [OF _ unsigned_less [of x, simplified]], simp)
  then show ?thesis
    by (simp add: found_conf_def Let_def)
qed

lemma conf_end:
  assumes "unat conf < 2 ^ 32"
  shows "unat (conf + ucast (conf_length m conf)) + 20 < 2 ^ 64"
    "unat (conf + ucast (conf_length m conf)) - unat (conf + mpconf_size) = unat (conf_length m conf) - 44"
proof -
  have len: "unat (conf_length m conf) < 65536"
    by (rule order.strict_trans2 [OF unsigned_less]) simp
  have "unat (conf + ucast (conf_length m conf)) = unat conf + unat (conf_length m conf)"
    using len assms unat_plus_of_nat [of conf "unat (conf_length m conf)"] by simp
  moreover have "unat (conf + mpconf_size) = unat conf + 44"
    using assms unat_plus_of_nat [of conf 44] by (simp add: mpconf_size_def)
  ultimately show "unat (conf + ucast (conf_length m conf)) + 20 < 2 ^ 64"
    "unat (conf + ucast (conf_length m conf)) - unat (conf + mpconf_size) = unat (conf_length m conf) - 44"
    using len assms by simp_all
qed

text \<open>
  \<open>mpinit\<close> for every content of memory. When there is no table it says so and then takes the
  bytes at address 0 for one.
\<close>

definition mpinit_start :: "bool \<Rightarrow> mem \<Rightarrow> mpstate \<Rightarrow> mpstate" where
  "mpinit_start bare_metal m s =
     ((if found_conf m = 0 then mp_printf ''Expect to run on an SMP'' else id) (search_log bare_metal m s))
       \<lparr>lapic := ucast (conf_lapicaddr m (found_conf m))\<rparr>"

lemma mpinit_eq:
  assumes "\<not> is_mp m 0"
  shows "mpinit bare_metal m s =
    map_option (\<lambda>es. fold enter es (mpinit_start bare_metal m s)) (conf_entries m (found_conf m))"
proof -
  have "mp_entries m (found_conf m + mpconf_size) (found_conf m + ucast (conf_length m (found_conf m))) True t =
      map_option (\<lambda>es. (True, fold enter es t)) (conf_entries m (found_conf m))" for t
    by (simp add: mp_entries_eq [OF conf_end(1) [OF found_conf_bound]] conf_end(2) [OF found_conf_bound]
        conf_entries_def) (simp add: mpconf_size_def)
  then show ?thesis
    by (cases "conf_entries m (found_conf m)")
      (simp_all add: mpinit_def mpconfig_eq [OF assms] mpinit_start_def)
qed

lemma mpinit_start_frame:
  "cpus (mpinit_start bare_metal m s) = cpus s" "ncpu (mpinit_start bare_metal m s) = ncpu s"
  "ioapicid (mpinit_start bare_metal m s) = ioapicid s"
  "lapic (mpinit_start bare_metal m s) = ucast (conf_lapicaddr m (found_conf m))"
  by (simp_all add: mpinit_start_def search_log_def mp_printf_def)

lemma mpinit_result:
  assumes "\<not> is_mp m 0" "length (cpus s) = NCPU" "ncpu s = 0"
    and "conf_entries m (found_conf m) = Some es"
  shows "\<exists>s'. mpinit bare_metal m s = Some s' \<and>
    ncpu s' = min NCPU (length (cpu_ids es)) \<and>
    map apicid (cpus s') = take NCPU (cpu_ids es @ drop (length (cpu_ids es)) (map apicid (cpus s))) \<and>
    map started (cpus s') = map started (cpus s) \<and>
    ioapicid s' = last (ioapicid s # ioapic_ids es) \<and>
    lapic s' = ucast (conf_lapicaddr m (found_conf m))"
  using assms enter_cpus [of "mpinit_start bare_metal m s" es]
  by (simp add: mpinit_eq enter_frame mpinit_start_frame)

section \<open>Properties\<close>

text \<open>
  C29. The search for the floating pointer structure always ends and returns the first structure
  with the signature and a zero checksum among the paragraphs of the first kilobyte of the
  extended BIOS data area, or of the last kilobyte of base memory when there is no such area, and
  then of the 64 KiB at 0xF0000; the null pointer when there is none.
\<close>

theorem mpsearch_correct:
  assumes "\<not> is_mp m 0"
  shows "mpsearch bare_metal m s = Some (first_mp m (mp_candidates m), search_log bare_metal m s) \<and>
    (first_mp m (mp_candidates m) \<noteq> 0 \<longrightarrow>
      is_mp m (first_mp m (mp_candidates m)) \<and> first_mp m (mp_candidates m) \<in> set (mp_candidates m)) \<and>
    (first_mp m (mp_candidates m) = 0 \<longrightarrow> (\<forall>p\<in>set (mp_candidates m). \<not> is_mp m p))"
  using mpsearch_eq [OF assms, of bare_metal s] assms
  by (auto simp: first_mp_def search_log_def find_Some_iff find_None_iff split: option.splits)

text \<open>
  C10. For a valid configuration table whose entries are all of known types \<open>mpinit\<close> returns with
  \<open>ncpu\<close> the number of processor entries, at most \<open>NCPU\<close>; the identifiers of the processors, in
  table order, at the front of \<open>cpus\<close> and nothing else of it changed; the last I/O APIC and the
  address of the local APIC.
\<close>

theorem mpinit_correct:
  assumes "\<not> is_mp m 0" "length (cpus s) = NCPU" "ncpu s = 0"
    and "conf_entries m (found_conf m) = Some es"
  shows "\<exists>s'. mpinit bare_metal m s = Some s' \<and>
    ncpu s' = min NCPU (length (cpu_ids es)) \<and>
    map apicid (cpus s') = take NCPU (cpu_ids es @ drop (length (cpu_ids es)) (map apicid (cpus s))) \<and>
    map started (cpus s') = map started (cpus s) \<and>
    ioapicid s' = last (ioapicid s # ioapic_ids es) \<and>
    lapic s' = ucast (conf_lapicaddr m (found_conf m))"
  using assms by (rule mpinit_result)

text \<open>
  C30. \<open>mpinit\<close> returns exactly when every entry of the table has a known type: at another entry
  its loop stays for ever, and the message that no suitable machine was found is never printed.
\<close>

theorem mpinit_returns_iff:
  assumes "\<not> is_mp m 0"
  shows "((\<exists>s'. mpinit bare_metal m s = Some s') \<longleftrightarrow> conf_entries m (found_conf m) \<noteq> None) \<and>
    (\<forall>s'. mpinit bare_metal m s = Some s' \<longrightarrow>
      mp_printed s' = mp_printed (search_log bare_metal m s) @
        (if found_conf m = 0 then [(bytes_of ''Expect to run on an SMP'' @ [0], [])] else []))"
  using assms by (auto simp: mpinit_eq enter_frame mpinit_start_def mp_printf_def)

text \<open>
  On a machine without a valid table \<open>mpinit\<close> goes on after its message with the null pointer:
  it takes the local APIC address from address 36 and processor entries from address 44 on.
\<close>

theorem mpinit_without_table:
  assumes "\<not> is_mp m 0" "found_conf m = 0"
  shows "mpinit bare_metal m s =
    map_option (\<lambda>es. fold enter es (mpinit_start bare_metal m s))
      (mp_decode m 44 (unat (load16 m 4) - 44)) \<and>
    lapic (mpinit_start bare_metal m s) = ucast (load32 m 36)"
  using assms
  by (simp add: mpinit_eq conf_entries_def conf_length_def mpinit_start_frame conf_lapicaddr_def)

section \<open>Witnesses\<close>

text \<open>A BIOS with a table of two processors, with identifiers 0 and 5, and one I/O APIC.\<close>

definition example_bytes :: "byte list" where
  "example_bytes = [
      95, 77, 80, 95, 16, 0, 15, 0, 1, 4, 129, 0, 0, 0, 0, 0, 80, 67, 77, 80, 92, 0, 4, 131,
      0, 0, 0, 0, 0, 0, 0, 0, 0, 0, 0, 0, 0, 0, 0, 0, 0, 0, 0, 0, 0, 0, 0, 0, 0, 0, 3, 0, 0,
      0, 224, 254, 0, 0, 0, 0, 0, 0, 20, 3, 0, 0, 0, 0, 0, 0, 0, 0, 0, 0, 0, 0, 0, 0, 0, 0,
      0, 5, 20, 1, 0, 0, 0, 0, 0, 0, 0, 0, 0, 0, 0, 0, 0, 0, 0, 0, 2, 9, 17, 1, 0, 0, 192, 254]"

definition example_bios :: mem where
  "example_bios a =
     (if 0xF0000 \<le> a \<and> a < 0xF006C then example_bytes ! unat (a - 0xF0000) else 0)"

definition example_mp :: mpstate where
  "example_mp = \<lparr>cpus = replicate 64 \<lparr>apicid = 0, started = 0\<rparr>, ncpu = 0, ioapicid = 0, lapic = 0,
     mp_printed = []\<rparr>"

lemma example_found:
  "\<not> is_mp example_bios 0" "first_mp example_bios (mp_candidates example_bios) = 0xF0000"
  "found_conf example_bios = 0xF0010"
proof -
  have "read_bytes example_bios 0 4 \<noteq> bytes_of ''_MP_''"
    by code_simp
  then show "\<not> is_mp example_bios 0"
    by (simp add: is_mp_def)
  have "mp_sum example_bios 0xF0000 16 = 0"
    by code_simp
  then have mp: "is_mp example_bios 0xF0000"
    by (simp add: is_mp_def flip: mp_sum_eq) code_simp
  have "mp_candidates example_bios = 0xF0000 # paragraphs 0xF0010 4095"
    using paragraphs_Suc [of "0xF0000" 4095]
    by (simp add: mp_candidates_def ebda_segment_def base_kb_def example_bios_def)
  with mp show first: "first_mp example_bios (mp_candidates example_bios) = 0xF0000"
    by (simp add: first_mp_def)
  have "mp_sum example_bios 0xF0010 92 = 0"
    by code_simp
  moreover have "conf_length example_bios 0xF0010 = 92" "mp_physaddr example_bios 0xF0000 = 0xF0010"
      "conf_version example_bios 0xF0010 = 4" "read_bytes example_bios 0xF0010 4 = bytes_of ''PCMP''"
    by code_simp+
  ultimately show "found_conf example_bios = 0xF0010"
    by (simp add: found_conf_def first valid_conf_def flip: mp_sum_eq)
qed

lemma example_entries:
  "conf_entries example_bios 0xF0010 = Some [Proc_entry 0, Proc_entry 5, Ioapic_entry 9]"
  by code_simp

theorem mpsearch_witness:
  "mpsearch True example_bios example_mp =
     Some (0xF0000, search_log True example_bios example_mp) \<and> is_mp example_bios 0xF0000"
  using mpsearch_correct [of example_bios True example_mp] by (simp add: example_found)

theorem mpinit_witness:
  "\<exists>s'. mpinit True example_bios example_mp = Some s' \<and> ncpu s' = 2 \<and>
     take 2 (map apicid (cpus s')) = [0, 5] \<and> ioapicid s' = 9 \<and> lapic s' = 0xFEE00000"
proof -
  have "conf_lapicaddr example_bios 0xF0010 = 0xFEE00000"
    by code_simp
  then show ?thesis
    using mpinit_correct [of example_bios example_mp _ True, OF example_found(1)] 
    by (fastforce simp: example_found example_entries example_mp_def NCPU_def)
qed

theorem mpinit_returns_witness:
  "\<exists>s'. mpinit True example_bios example_mp = Some s' \<and>
     mp_printed s' = mp_printed (search_log True example_bios example_mp)"
  using mpinit_returns_iff [of example_bios True example_mp]
  by (auto simp: example_found example_entries)

text \<open>All of memory 0 but for a length of 45 at address 4: one byte of a processor entry.\<close>

definition no_bios :: mem where
  "no_bios a = (if a = 4 then 45 else 0)"

lemma no_bios_no_mp: "\<not> is_mp no_bios p"
proof -
  have "no_bios p \<noteq> 0x5F"
    by (simp add: no_bios_def)
  then show ?thesis
    by (simp add: is_mp_def bytes_of_def chr_def numeral_eq_Suc read_bytes_Suc)
qed

theorem mpinit_without_table_witness:
  "\<exists>s'. mpinit False no_bios example_mp = Some s' \<and> ncpu s' = 1"
proof -
  have none: "first_mp no_bios ps = 0" for ps
    by (induction ps) (simp_all add: first_mp_def no_bios_no_mp)
  have "mp_decode no_bios 44 (unat (load16 no_bios 4) - 44) = Some [Proc_entry 0]"
    by code_simp
  then show ?thesis
    using mpinit_without_table [of no_bios False example_mp]
    by (simp add: no_bios_no_mp found_conf_def none mpinit_start_frame example_mp_def NCPU_def)
qed

end
