(* ===== verification/Cpu.thy ===== *)
theory Cpu
  imports Ports Cmem Printf
begin

text \<open>
  The processor as the program sees it: its registers, the accesses to memory-mapped devices and
  model-specific registers, and the access functions of \<open>include/processor.h\<close>. Devices are the
  environment: what a memory-mapped or model-specific register answers may depend on everything
  that was done before. The machine's side is the list of accesses in program order. \<open>said\<close> is what
  was handed to \<open>printf\<close>.
\<close>

section \<open>The machine\<close>

text \<open>The two tables \<open>apic_ops\<close> can point to (see \<open>Apic\<close>).\<close>

datatype apic_ptr = Xapic_ops | X2apic_ops

text \<open>\<open>cr\<close> are the control registers by number, \<open>idtr\<close> the limit and base of the interrupt table.\<close>

record machine = io +
  mmio :: "io_event list \<Rightarrow> u64 \<Rightarrow> u32"
  msr :: "io_event list \<Rightarrow> u32 \<Rightarrow> u64"
  cpuid_out :: "u32 \<Rightarrow> u32 \<times> u32 \<times> u32 \<times> u32"
  cr :: "nat \<Rightarrow> u64"
  eflags :: u64
  cs_reg :: u16
  idtr :: "u16 \<times> u64"
  apic_ops :: apic_ptr
  said :: "(byte list \<times> va_arg list) list"

text \<open>A machine whose devices answer 0.\<close>

definition quiet_machine :: machine where
  "quiet_machine = \<lparr>inputs = \<lambda>_ _. 0, reads = 0, accesses = [], mmio = \<lambda>_ _. 0, msr = \<lambda>_ _. 0,
     cpuid_out = \<lambda>_. (0, 0, 0, 0), cr = \<lambda>_. 0, eflags = 2, cs_reg = 8, idtr = (0, 0), apic_ops = Xapic_ops,
     said = []\<rparr>"

definition say :: "string \<Rightarrow> va_arg list \<Rightarrow> machine \<Rightarrow> machine" where
  "say fmt args s = s\<lparr>said := said s @ [(bytes_of fmt @ [0], args)]\<rparr>"

definition mem_read :: "u64 \<Rightarrow> machine \<Rightarrow> u32 \<times> machine" where
  "mem_read a s = (mmio s (accesses s) a, s\<lparr>accesses := accesses s @ [RdMem a]\<rparr>)"

definition mem_write :: "u64 \<Rightarrow> u32 \<Rightarrow> machine \<Rightarrow> machine" where
  "mem_write a v s = s\<lparr>accesses := accesses s @ [WrMem a v]\<rparr>"

definition mem_write16 :: "u64 \<Rightarrow> u16 \<Rightarrow> machine \<Rightarrow> machine" where
  "mem_write16 a v s = s\<lparr>accesses := accesses s @ [WrMem16 a v]\<rparr>"

text \<open>The instructions \<open>rdmsr\<close> and \<open>wrmsr\<close> on the register pair edx:eax.\<close>

definition rdmsr_ad :: "u32 \<Rightarrow> machine \<Rightarrow> (u32 \<times> u32) \<times> machine" where
  "rdmsr_ad c s =
     (let x = msr s (accesses s) c in
      ((ucast x, ucast (drop_bit 32 x)), s\<lparr>accesses := accesses s @ [RdMsr c]\<rparr>))"

definition wrmsr_ad :: "u32 \<Rightarrow> u32 \<Rightarrow> u32 \<Rightarrow> machine \<Rightarrow> machine" where
  "wrmsr_ad a d c s = s\<lparr>accesses := accesses s @ [WrMsr c (ucast a OR push_bit 32 (ucast d))]\<rparr>"

definition rdmsr :: "u32 \<Rightarrow> machine \<Rightarrow> u64 \<times> machine" where
  "rdmsr index s = (let ((a, d), s) = rdmsr_ad index s in (ucast a OR push_bit 32 (ucast d), s))"

definition wrmsr :: "u32 \<Rightarrow> u64 \<Rightarrow> machine \<Rightarrow> machine" where
  "wrmsr index val s = (let a = ucast val; d = ucast (drop_bit 32 val) in wrmsr_ad a d index s)"

section \<open>The register access functions\<close>

definition lidt :: "u64 \<Rightarrow> u32 \<Rightarrow> machine \<Rightarrow> machine" where
  "lidt p sz s = s\<lparr>idtr := (ucast sz, p)\<rparr>"

definition read_cs :: "machine \<Rightarrow> u16" where
  "read_cs s = cs_reg s"

definition write_cr :: "nat \<Rightarrow> u64 \<Rightarrow> machine \<Rightarrow> machine" where
  "write_cr n x s = s\<lparr>cr := (cr s)(n := x)\<rparr>"

definition write_cr0 :: "u64 \<Rightarrow> machine \<Rightarrow> machine" where "write_cr0 = write_cr 0"
definition read_cr0 :: "machine \<Rightarrow> u64" where "read_cr0 s = cr s 0"
definition write_cr2 :: "u64 \<Rightarrow> machine \<Rightarrow> machine" where "write_cr2 = write_cr 2"
definition read_cr2 :: "machine \<Rightarrow> u64" where "read_cr2 s = cr s 2"
definition write_cr3 :: "u64 \<Rightarrow> machine \<Rightarrow> machine" where "write_cr3 = write_cr 3"
definition read_cr3 :: "machine \<Rightarrow> u64" where "read_cr3 s = cr s 3"
definition write_cr4 :: "u64 \<Rightarrow> machine \<Rightarrow> machine" where "write_cr4 = write_cr 4"
definition read_cr4 :: "machine \<Rightarrow> u64" where "read_cr4 s = cr s 4"
definition write_cr8 :: "u64 \<Rightarrow> machine \<Rightarrow> machine" where "write_cr8 = write_cr 8"
definition read_cr8 :: "machine \<Rightarrow> u64" where "read_cr8 s = cr s 8"

definition FL_IF :: u64 where "FL_IF = 0x00000200"

definition pause :: "machine \<Rightarrow> machine" where
  "pause s = s"

definition cli :: "machine \<Rightarrow> machine" where
  "cli s = s\<lparr>eflags := eflags s AND NOT FL_IF\<rparr>"

definition sti :: "machine \<Rightarrow> machine" where
  "sti s = s\<lparr>eflags := eflags s OR FL_IF\<rparr>"

definition readeflags :: "machine \<Rightarrow> u64" where
  "readeflags s = eflags s"

text \<open>\<open>xchg\<close> on a word: the value it returns and the value it leaves.\<close>

definition xchg :: "u32 \<Rightarrow> u32 \<Rightarrow> u32 \<times> u32" where
  "xchg old newval = (old, newval)"

section \<open>Halves of a model-specific register\<close>

lemma wrmsr_word:
  fixes a d :: u32
  shows "(ucast (drop_bit 32 (ucast a OR push_bit 32 (ucast d) :: u64)) :: u32) = d"
    "(ucast (ucast a OR push_bit 32 (ucast d) :: u64) :: u32) = a"
  by (rule bit_word_eqI, auto simp: bit_simps dest: bit_imp_le_length)+

lemma split_word: "(ucast (ucast (x :: u64) :: u32) OR push_bit 32 (ucast (ucast (drop_bit 32 x) :: u32))) = x"
  by (rule bit_word_eqI) (auto simp: bit_simps)

lemma rdmsr_eq: "rdmsr c s = (msr s (accesses s) c, s\<lparr>accesses := accesses s @ [RdMsr c]\<rparr>)"
  by (simp add: rdmsr_def rdmsr_ad_def Let_def split_word)

lemma wrmsr_eq: "wrmsr c x s = s\<lparr>accesses := accesses s @ [WrMsr c x]\<rparr>"
  by (simp add: wrmsr_def wrmsr_ad_def Let_def split_word)

end
