(* ===== verification/Apic.thy ===== *)
theory Apic
  imports Cpu
begin

text \<open>
  The interrupt controllers (\<open>x86_64/apic.c\<close> with \<open>include/apic.h\<close>). The pointer \<open>lapic\<close>, which
  \<open>mpinit\<close> sets, is an argument of the functions that use it.
\<close>

section \<open>The local APIC as \<open>mpinit\<close> found it\<close>

text \<open>Registers as indices into an array of 32-bit words.\<close>

definition ID :: u32 where "ID = 0x0020 div 4"
definition VER :: u32 where "VER = 0x0030 div 4"
definition TPR :: u32 where "TPR = 0x0080 div 4"
definition EOI :: u32 where "EOI = 0x00B0 div 4"
definition SVR :: u32 where "SVR = 0x00F0 div 4"
definition ENABLE :: u32 where "ENABLE = 0x00000100"
definition ESR :: u32 where "ESR = 0x0280 div 4"
definition ICRLO :: u32 where "ICRLO = 0x0300 div 4"
definition INIT :: u32 where "INIT = 0x00000500"
definition STARTUP :: u32 where "STARTUP = 0x00000600"
definition ASSERT :: u32 where "ASSERT = 0x00004000"
definition LEVEL :: u32 where "LEVEL = 0x00008000"
definition ICRHI :: u32 where "ICRHI = 0x0310 div 4"
definition TIMER :: u32 where "TIMER = 0x0320 div 4"
definition X1 :: u32 where "X1 = 0x0000000B"
definition PERIODIC :: u32 where "PERIODIC = 0x00020000"
definition PCINT :: u32 where "PCINT = 0x0340 div 4"
definition LINT0 :: u32 where "LINT0 = 0x0350 div 4"
definition LINT1 :: u32 where "LINT1 = 0x0360 div 4"
definition ERROR :: u32 where "ERROR = 0x0370 div 4"
definition MASKED :: u32 where "MASKED = 0x00010000"
definition TICR :: u32 where "TICR = 0x0380 div 4"
definition TDCR :: u32 where "TDCR = 0x03E0 div 4"

definition T_IRQ0 :: u32 where "T_IRQ0 = 32"
definition IRQ_TIMER :: u32 where "IRQ_TIMER = 0"
definition IRQ_ERROR :: u32 where "IRQ_ERROR = 19"
definition IRQ_SPURIOUS :: u32 where "IRQ_SPURIOUS = 31"

definition lapic_reg :: "u64 \<Rightarrow> u32 \<Rightarrow> u64" where
  "lapic_reg lapic index = lapic + 4 * scast index"

definition lapicr :: "u64 \<Rightarrow> u32 \<Rightarrow> machine \<Rightarrow> u32 \<times> machine" where
  "lapicr lapic index = mem_read (lapic_reg lapic index)"

definition lapicw :: "u64 \<Rightarrow> u32 \<Rightarrow> u32 \<Rightarrow> machine \<Rightarrow> machine" where
  "lapicw lapic index val s =
     (let s = mem_write (lapic_reg lapic index) val s; (_, s) = lapicr lapic ID s in s)"

definition lapicinit :: "u64 \<Rightarrow> machine \<Rightarrow> machine" where
  "lapicinit lapic s =
     (if lapic = 0 then s
      else let s = lapicw lapic SVR (ENABLE OR (T_IRQ0 + IRQ_SPURIOUS)) s;
               s = lapicw lapic TDCR X1 s;
               s = lapicw lapic TIMER (PERIODIC OR (T_IRQ0 + IRQ_TIMER)) s;
               s = lapicw lapic TICR 10000000 s;
               s = lapicw lapic LINT0 MASKED s;
               s = lapicw lapic LINT1 MASKED s;
               (ver, s) = lapicr lapic VER s;
               s = (if drop_bit 16 ver AND 0xFF \<ge> 4 then lapicw lapic PCINT MASKED s else s);
               s = lapicw lapic ERROR (T_IRQ0 + IRQ_ERROR) s;
               s = lapicw lapic ESR 0 s;
               s = lapicw lapic ESR 0 s;
               s = lapicw lapic EOI 0 s
           in lapicw lapic TPR 0 s)"

definition microdelay :: "u32 \<Rightarrow> machine \<Rightarrow> machine" where
  "microdelay us s = s"

definition CMOS_PORT :: u64 where "CMOS_PORT = 0x70"

definition startup_ipi :: "u64 \<Rightarrow> u8 \<Rightarrow> u32 \<Rightarrow> machine \<Rightarrow> machine" where
  "startup_ipi lapic apicid addr s =
     (let s = lapicw lapic ICRHI (push_bit 24 (ucast apicid)) s;
          s = lapicw lapic ICRLO (STARTUP OR drop_bit 12 addr) s
      in microdelay 200 s)"

definition lapicstartap :: "u64 \<Rightarrow> u8 \<Rightarrow> u32 \<Rightarrow> machine \<Rightarrow> machine" where
  "lapicstartap lapic apicid addr s =
     (let s = outb 0xF CMOS_PORT s;
          s = outb 0x0A (CMOS_PORT + 1) s;
          wrv = push_bit 4 0x40 OR 0x67;
          s = mem_write16 wrv 0 s;
          s = mem_write16 (wrv + 2) (ucast (drop_bit 4 addr)) s;
          s = lapicw lapic ICRHI (push_bit 24 (ucast apicid)) s;
          s = lapicw lapic ICRLO (INIT OR LEVEL OR ASSERT) s;
          s = microdelay 200 s;
          s = lapicw lapic ICRLO (INIT OR LEVEL) s;
          s = microdelay 100 s
      in (startup_ipi lapic apicid addr ^^ 2) s)"

definition lapicid :: "u64 \<Rightarrow> machine \<Rightarrow> u32 \<times> machine" where
  "lapicid lapic s =
     (if lapic = 0 then (0, s) else let (x, s) = lapicr lapic ID s in (drop_bit 24 x, s))"

section \<open>The two access modes\<close>

definition APIC_EXTD :: u64 where "APIC_EXTD = push_bit 10 1"
definition APIC_EN :: u64 where "APIC_EN = push_bit 11 1"
definition APIC_ID :: u32 where "APIC_ID = 0x20"
definition APIC_EOI :: u32 where "APIC_EOI = 0xB0"
definition APIC_ICR :: u32 where "APIC_ICR = 0x300"
definition APIC_INT_ASSERT :: u32 where "APIC_INT_ASSERT = 0x04000"
definition APIC_ICR_BUSY :: u32 where "APIC_ICR_BUSY = 0x01000"
definition APIC_DEST_PHYSICAL :: u32 where "APIC_DEST_PHYSICAL = 0x00000"
definition APIC_DM_FIXED :: u32 where "APIC_DM_FIXED = 0x00000"
definition APIC_ICR2 :: u32 where "APIC_ICR2 = 0x310"
definition APIC_BASE_MSR :: u32 where "APIC_BASE_MSR = 0x800"
definition MSR_IA32_APICBASE :: u32 where "MSR_IA32_APICBASE = 0x0000001b"

definition g_apic :: u64 where "g_apic = 0xfee00000"
definition g_ioapic :: u64 where "g_ioapic = 0xfec00000"

record apic_table =
  reg_read :: "u32 \<Rightarrow> machine \<Rightarrow> u32 \<times> machine"
  reg_write :: "u32 \<Rightarrow> u32 \<Rightarrow> machine \<Rightarrow> machine"
  icr_write :: "u32 \<Rightarrow> u32 \<Rightarrow> machine \<Rightarrow> machine option"
  id_read :: "machine \<Rightarrow> u32 \<times> machine"

definition xapic_read :: "u32 \<Rightarrow> machine \<Rightarrow> u32 \<times> machine" where
  "xapic_read reg = mem_read (g_apic + ucast reg)"

definition xapic_write :: "u32 \<Rightarrow> u32 \<Rightarrow> machine \<Rightarrow> machine" where
  "xapic_write reg val = mem_write (g_apic + ucast reg) val"

text \<open>The wait may be for ever.\<close>

partial_function (option) icr_wait :: "machine \<Rightarrow> machine option" where
  "icr_wait s =
     (let (x, s) = xapic_read APIC_ICR s in if x AND APIC_ICR_BUSY \<noteq> 0 then icr_wait s else Some s)"

definition xapic_icr_write :: "u32 \<Rightarrow> u32 \<Rightarrow> machine \<Rightarrow> machine option" where
  "xapic_icr_write val dest s =
     do { s \<leftarrow> icr_wait s;
          let s = xapic_write APIC_ICR2 (push_bit 24 dest) s;
          Some (xapic_write APIC_ICR val s) }"

definition xapic_id :: "machine \<Rightarrow> u32 \<times> machine" where
  "xapic_id s = (let (x, s) = xapic_read APIC_ID s in (drop_bit 24 x, s))"

definition xapic_ops :: apic_table where
  "xapic_ops = \<lparr>reg_read = xapic_read, reg_write = xapic_write, icr_write = xapic_icr_write,
     id_read = xapic_id\<rparr>"

definition x2apic_read :: "u32 \<Rightarrow> machine \<Rightarrow> u32 \<times> machine" where
  "x2apic_read reg s =
     (let ((a, d), s) = rdmsr_ad (APIC_BASE_MSR + reg div 16) s in
      (ucast (ucast a OR push_bit 32 (ucast d) :: u64), s))"

definition x2apic_write :: "u32 \<Rightarrow> u32 \<Rightarrow> machine \<Rightarrow> machine" where
  "x2apic_write reg val = wrmsr_ad val 0 (APIC_BASE_MSR + reg div 16)"

definition x2apic_icr_write :: "u32 \<Rightarrow> u32 \<Rightarrow> machine \<Rightarrow> machine option" where
  "x2apic_icr_write val dest s = Some (wrmsr_ad val dest (APIC_BASE_MSR + APIC_ICR div 16) s)"

definition x2apic_id :: "machine \<Rightarrow> u32 \<times> machine" where
  "x2apic_id = x2apic_read APIC_ID"

definition x2apic_ops :: apic_table where
  "x2apic_ops = \<lparr>reg_read = x2apic_read, reg_write = x2apic_write, icr_write = x2apic_icr_write,
     id_read = x2apic_id\<rparr>"

fun ops_of :: "apic_ptr \<Rightarrow> apic_table" where
  "ops_of Xapic_ops = xapic_ops"
| "ops_of X2apic_ops = x2apic_ops"

definition apic_read :: "u32 \<Rightarrow> machine \<Rightarrow> u32 \<times> machine" where
  "apic_read reg s = reg_read (ops_of (apic_ops s)) reg s"

definition apic_write :: "u32 \<Rightarrow> u32 \<Rightarrow> machine \<Rightarrow> machine" where
  "apic_write reg val s = reg_write (ops_of (apic_ops s)) reg val s"

definition eoi :: "machine \<Rightarrow> machine" where
  "eoi = apic_write APIC_EOI 0"

text \<open>\<open>n >> 5\<close> is an arithmetic shift of an \<open>int\<close>.\<close>

definition apic_read_bit :: "u32 \<Rightarrow> u32 \<Rightarrow> machine \<Rightarrow> bool \<times> machine" where
  "apic_read_bit reg n s =
     (let reg = reg + push_bit 4 (signed_drop_bit 5 n);
          n = n AND 31;
          (x, s) = apic_read reg s
      in (x AND push_bit (unat n) 1 \<noteq> 0, s))"

definition apic_icr_write :: "u32 \<Rightarrow> u32 \<Rightarrow> machine \<Rightarrow> machine option" where
  "apic_icr_write val dest s = icr_write (ops_of (apic_ops s)) val dest s"

definition apic_id :: "machine \<Rightarrow> u32 \<times> machine" where
  "apic_id s = id_read (ops_of (apic_ops s)) s"

definition apic_get_tpr :: "machine \<Rightarrow> u8" where
  "apic_get_tpr s = ucast (read_cr8 s)"

definition apic_set_tpr :: "u8 \<Rightarrow> machine \<Rightarrow> machine" where
  "apic_set_tpr tpr = write_cr8 (ucast tpr)"

definition enable_x2apic :: "machine \<Rightarrow> bool \<times> machine" where
  "enable_x2apic s =
     (let (a, b, c, d) = cpuid_out s 1 in
      if c AND push_bit 21 1 \<noteq> 0 then
        let ((a, d), s) = rdmsr_ad MSR_IA32_APICBASE s;
            a = a OR push_bit 10 1;
            s = wrmsr_ad a d MSR_IA32_APICBASE s
        in (True, s\<lparr>apic_ops := X2apic_ops\<rparr>)
      else (False, s))"

definition disable_apic :: "machine \<Rightarrow> machine" where
  "disable_apic s =
     (let (x, s) = rdmsr MSR_IA32_APICBASE s;
          s = wrmsr MSR_IA32_APICBASE (x AND NOT (APIC_EN OR APIC_EXTD)) s
      in s\<lparr>apic_ops := Xapic_ops\<rparr>)"

definition reset_apic :: "machine \<Rightarrow> machine" where
  "reset_apic s =
     (let s = disable_apic s; (x, s) = rdmsr MSR_IA32_APICBASE s
      in wrmsr MSR_IA32_APICBASE (x OR APIC_EN) s)"

section \<open>The I/O APIC\<close>

text \<open>The fields of a redirection entry, each at its width, in memory order.\<close>

record ioapic_redir_entry =
  vector :: u8
  delivery_mode :: "3 word"
  dest_mode :: "1 word"
  delivery_status :: "1 word"
  polarity :: "1 word"
  remote_irr :: "1 word"
  trig_mode :: "1 word"
  mask_bit :: "1 word"
  reserve :: "7 word"
  reserved :: "32 word"
  dest_id :: u8

definition TRIGGER_EDGE :: u32 where "TRIGGER_EDGE = 0"
definition TRIGGER_LEVEL :: u32 where "TRIGGER_LEVEL = 1"

text \<open>The two words of the structure, \<open>((u32 *)&e)[0]\<close> and \<open>((u32 *)&e)[1]\<close>, and back.\<close>

definition redir_word0 :: "ioapic_redir_entry \<Rightarrow> u32" where
  "redir_word0 e =
     ucast (vector e) OR push_bit 8 (ucast (delivery_mode e)) OR push_bit 11 (ucast (dest_mode e)) OR
     push_bit 12 (ucast (delivery_status e)) OR push_bit 13 (ucast (polarity e)) OR
     push_bit 14 (ucast (remote_irr e)) OR push_bit 15 (ucast (trig_mode e)) OR
     push_bit 16 (ucast (mask_bit e)) OR push_bit 17 (ucast (reserve e)) OR push_bit 24 (ucast (reserved e))"

definition redir_word1 :: "ioapic_redir_entry \<Rightarrow> u32" where
  "redir_word1 e = drop_bit 8 (reserved e) OR push_bit 24 (ucast (dest_id e))"

definition redir_of_words :: "u32 \<Rightarrow> u32 \<Rightarrow> ioapic_redir_entry" where
  "redir_of_words w0 w1 =
     \<lparr>vector = ucast w0, delivery_mode = ucast (drop_bit 8 w0), dest_mode = ucast (drop_bit 11 w0),
      delivery_status = ucast (drop_bit 12 w0), polarity = ucast (drop_bit 13 w0),
      remote_irr = ucast (drop_bit 14 w0), trig_mode = ucast (drop_bit 15 w0),
      mask_bit = ucast (drop_bit 16 w0), reserve = ucast (drop_bit 17 w0),
      reserved = drop_bit 24 w0 OR push_bit 8 w1, dest_id = ucast (drop_bit 24 w1)\<rparr>"

definition ioapic_read_reg :: "u32 \<Rightarrow> machine \<Rightarrow> u32 \<times> machine" where
  "ioapic_read_reg reg s = (let s = mem_write g_ioapic reg s in mem_read (g_ioapic + 0x10) s)"

definition ioapic_write_reg :: "u32 \<Rightarrow> u32 \<Rightarrow> machine \<Rightarrow> machine" where
  "ioapic_write_reg reg val s =
     (let s = mem_write g_ioapic reg s in mem_write (g_ioapic + 0x10) val s)"

definition ioapic_write_redir :: "u32 \<Rightarrow> ioapic_redir_entry \<Rightarrow> machine \<Rightarrow> machine" where
  "ioapic_write_redir line e s =
     (let s = ioapic_write_reg (0x10 + line * 2 + 0) (redir_word0 e) s
      in ioapic_write_reg (0x10 + line * 2 + 1) (redir_word1 e) s)"

definition ioapic_read_redir :: "u32 \<Rightarrow> machine \<Rightarrow> ioapic_redir_entry \<times> machine" where
  "ioapic_read_redir line s =
     (let (w0, s) = ioapic_read_reg (0x10 + line * 2 + 0) s;
          (w1, s) = ioapic_read_reg (0x10 + line * 2 + 1) s
      in (redir_of_words w0 w1, s))"

definition ioapic_set_redir :: "u32 \<Rightarrow> u32 \<Rightarrow> u32 \<Rightarrow> machine \<Rightarrow> machine" where
  "ioapic_set_redir line vec trig =
     ioapic_write_redir line
       \<lparr>vector = ucast vec, delivery_mode = 0, dest_mode = 0, delivery_status = 0, polarity = 0,
        remote_irr = 0, trig_mode = ucast trig, mask_bit = 0, reserve = 0, reserved = 0, dest_id = 0\<rparr>"

definition set_mask :: "u32 \<Rightarrow> u32 \<Rightarrow> machine \<Rightarrow> machine" where
  "set_mask line val s =
     (let (e, s) = ioapic_read_redir line s;
          e = e\<lparr>mask_bit := ucast val\<rparr>
      in ioapic_write_redir line e s)"

definition set_irq_line :: "u32 \<Rightarrow> u32 \<Rightarrow> machine \<Rightarrow> machine" where
  "set_irq_line line val = outb (ucast val) (ucast (ucast (0x2000 + line) :: u16))"

definition enable_apic :: "machine \<Rightarrow> machine" where
  "enable_apic s =
     (let s = say (''enabling apic'' @ [CHR 0x0D, CHR 0x0A]) [] s in xapic_write 0xf0 0x1ff s)"

definition mask_pic_interrupts :: "machine \<Rightarrow> machine" where
  "mask_pic_interrupts s = (let s = outb 0xff 0x21 s in outb 0xff 0xa1 s)"

section \<open>Interrupts in the trace\<close>

text \<open>
  What the local APIC of a CPU does with its registers: a write to the low command register sends
  an interrupt to the destination in the high one; in x2APIC mode one register holds both.
\<close>

fun ipi_step :: "u64 \<Rightarrow> io_event \<Rightarrow> u32 \<times> (u32 \<times> u32) list \<Rightarrow> u32 \<times> (u32 \<times> u32) list" where
  "ipi_step base (WrMem a x) (hi, sent) =
     (if a = base + 0x310 then (x, sent)
      else if a = base + 0x300 then (hi, sent @ [(drop_bit 24 hi, x)]) else (hi, sent))"
| "ipi_step base (WrMsr c x) (hi, sent) =
     (if c = 0x830 then (hi, sent @ [(ucast (drop_bit 32 x), ucast x)]) else (hi, sent))"
| "ipi_step base _ st = st"

definition ipis :: "u64 \<Rightarrow> io_event list \<Rightarrow> (u32 \<times> u32) list" where
  "ipis base es = snd (fold (ipi_step base) es (0, []))"

definition eois :: "io_event list \<Rightarrow> nat" where
  "eois es = length (filter (\<lambda>e. e = WrMem (g_apic + 0xB0) 0 \<or> e = WrMsr 0x80B 0) es)"

datatype ipi = Fixed u8 | Init_assert | Init_deassert | Startup u32 | Other_ipi

text \<open>The command word: delivery mode in bits 8 to 10, level in bit 14, vector in bits 0 to 7.\<close>

definition decode_ipi :: "u32 \<Rightarrow> ipi" where
  "decode_ipi w =
     (let mode = drop_bit 8 w AND 7 in
      if mode = 0 then Fixed (ucast w)
      else if mode = 5 then if bit w 14 then Init_assert else Init_deassert
      else if mode = 6 then Startup (push_bit 12 (w AND 0xFF))
      else Other_ipi)"

lemma eois_append [simp]: "eois (xs @ ys) = eois xs + eois ys"
  by (simp add: eois_def)

lemma ipi_step_sent:
  "fold (ipi_step base) es (hi, sent) =
     (fst (fold (ipi_step base) es (hi, [])), sent @ snd (fold (ipi_step base) es (hi, [])))"
proof (induction es arbitrary: hi sent)
  case (Cons e es)
  obtain hi' new where "ipi_step base e (hi, []) = (hi', new)"
    by (cases "ipi_step base e (hi, [])")
  moreover have "ipi_step base e (hi, sent) =
      (fst (ipi_step base e (hi, [])), sent @ snd (ipi_step base e (hi, [])))"
    by (cases e) simp_all
  ultimately show ?case
    using Cons.IH [of hi' "sent @ new"] Cons.IH [of hi' new] by simp
qed simp

lemma ipis_append_ex:
  "\<exists>hi. ipis base (es @ fs) = ipis base es @ snd (fold (ipi_step base) fs (hi, []))"
proof -
  obtain hi sent where "fold (ipi_step base) es (0, []) = (hi, sent)"
    by (cases "fold (ipi_step base) es (0, [])")
  then show ?thesis
    using ipi_step_sent [of base fs hi sent] by (auto simp: ipis_def)
qed

lemma ipis_append:
  assumes "\<And>hi. snd (fold (ipi_step base) fs (hi, [])) = new"
  shows "ipis base (es @ fs) = ipis base es @ new"
  using ipis_append_ex [of base es fs] assms by auto

section \<open>The local APIC\<close>

lemmas lapic_regs = ID_def VER_def TPR_def EOI_def SVR_def ESR_def ICRLO_def ICRHI_def TIMER_def
  PCINT_def LINT0_def LINT1_def ERROR_def TICR_def TDCR_def

lemma lapicw_accesses:
  "lapicw lapic i x s =
     s\<lparr>accesses := accesses s @ [WrMem (lapic_reg lapic i) x, RdMem (lapic_reg lapic ID)]\<rparr>"
  by (simp add: lapicw_def mem_write_def lapicr_def mem_read_def Let_def)

lemma lapic_reg_simps:
  "lapic_reg lapic ICRHI = lapic + 0x310" "lapic_reg lapic ICRLO = lapic + 0x300"
  "lapic_reg lapic ID = lapic + 0x20"
  by (simp_all add: lapic_reg_def lapic_regs)

definition startap_trace :: "u64 \<Rightarrow> u8 \<Rightarrow> u32 \<Rightarrow> io_event list" where
  "startap_trace lapic apicid addr =
    (let hi = [WrMem (lapic + 0x310) (push_bit 24 (ucast apicid)), RdMem (lapic + 0x20)];
         lo = (\<lambda>x. [WrMem (lapic + 0x300) x, RdMem (lapic + 0x20)]) in
     [OutB 0x70 0xF, OutB 0x71 0x0A, WrMem16 0x467 0, WrMem16 0x469 (ucast (drop_bit 4 addr))] @
     hi @ lo 0xC500 @ lo 0x8500 @ hi @ lo (0x600 OR drop_bit 12 addr) @ hi @ lo (0x600 OR drop_bit 12 addr))"

lemma funpow_twice: "(f ^^ 2) x = f (f x)"
  by (simp add: numeral_2_eq_2)

lemma lapicstartap_accesses:
  "lapicstartap lapic apicid addr s = s\<lparr>accesses := accesses s @ startap_trace lapic apicid addr\<rparr>"
  by (simp add: lapicstartap_def startap_trace_def Let_def startup_ipi_def lapicw_accesses lapic_reg_simps
      microdelay_def outb_def mem_write16_def CMOS_PORT_def INIT_def LEVEL_def ASSERT_def STARTUP_def
      funpow_twice)

lemma byte_bits:
  "drop_bit 8 (ucast (b :: u8) :: 'a::len word) = 0" "ucast b AND 0xFF = (ucast b :: 'a::len word)"
proof -
  show "drop_bit 8 (ucast b :: 'a word) = 0"
    by (rule bit_word_eqI) (auto simp: bit_simps dest: bit_imp_le_length)
  have m: "(0xFF :: 'a word) = mask 8"
    by (simp add: mask_eq_exp_minus_1)
  show "ucast b AND 0xFF = (ucast b :: 'a word)"
    unfolding m by (rule bit_word_eqI) (auto simp: bit_simps dest: bit_imp_le_length)
qed

text \<open>A page-aligned address below 1 MiB is a byte times 4096.\<close>

lemma low_page:
  fixes addr :: u32
  assumes "addr < 0x100000" "addr AND 0xFFF = 0"
  obtains b :: u8 where "addr = push_bit 12 (ucast b)"
proof
  have m: "(0xFFF :: u32) = mask 12"
    by (simp add: mask_eq_exp_minus_1)
  have "\<not> bit addr n" if "n < 12" for n
    using arg_cong [OF assms(2) [unfolded m], of "\<lambda>w. bit w n"] that by (auto simp: bit_simps)
  moreover have "n < 20" if "bit addr n" for n
    using bit_below [OF that, of 20] assms(1) by (simp add: word_less_nat_alt)
  ultimately have "12 \<le> n \<and> n < 20" if "bit addr n" for n
    using that by (meson not_less)
  then show "addr = push_bit 12 (ucast (ucast (drop_bit 12 addr) :: u8))"
    by (intro bit_word_eqI) (fastforce simp: bit_simps)
qed

lemma decode_startup: "decode_ipi (0x600 OR ucast (b :: u8)) = Startup (push_bit 12 (ucast b))"
  by (simp add: decode_ipi_def byte_bits bit.conj_disj_distrib2)

lemma startap_ipis:
  "map (\<lambda>(d, w). (d, decode_ipi w))
     (snd (fold (ipi_step lapic) (startap_trace lapic apicid (push_bit 12 (ucast (b :: u8)))) (hi, []))) =
   map (Pair (ucast apicid))
     [Init_assert, Init_deassert, Startup (push_bit 12 (ucast b)), Startup (push_bit 12 (ucast b))]"
proof -
  have id: "drop_bit 24 (push_bit 24 (ucast apicid)) = (ucast apicid :: u32)"
    by (rule bit_word_eqI) (auto simp: bit_simps dest: bit_imp_le_length)
  have page: "drop_bit 12 (push_bit 12 (ucast b)) = (ucast b :: u32)"
    by (rule bit_word_eqI) (auto simp: bit_simps dest: bit_imp_le_length)
  show ?thesis
    by (simp add: startap_trace_def Let_def id page decode_startup) (simp add: decode_ipi_def)
qed

lemma lapicstartap_sends:
  assumes "addr < 0x100000" "addr AND 0xFFF = 0"
  shows "\<exists>new. ipis lapic (accesses (lapicstartap lapic apicid addr s)) = ipis lapic (accesses s) @ new \<and>
      map (\<lambda>(d, w). (d, decode_ipi w)) new =
      map (Pair (ucast apicid)) [Init_assert, Init_deassert, Startup addr, Startup addr]"
proof -
  obtain b :: u8 where addr: "addr = push_bit 12 (ucast b)"
    using assms by (rule low_page)
  show ?thesis
    using ipis_append_ex [of lapic "accesses s" "startap_trace lapic apicid addr"]
      startap_ipis [of lapic apicid b]
    by (auto simp: lapicstartap_accesses addr)
qed

text \<open>
  C31. \<open>lapicstartap\<close> first sets the shutdown code and the warm reset vector, whose segment is the
  start address, and then sends to the processor it is given, and to no other, an INIT, its
  de-assertion and two start-up interrupts whose page is the start address.
\<close>

theorem lapicstartap_correct:
  assumes "addr < 0x100000" "addr AND 0xFFF = 0"
  shows "\<exists>seg rest. accesses (lapicstartap lapic apicid addr s) = accesses s @
      [OutB 0x70 0xF, OutB 0x71 0x0A, WrMem16 0x467 0, WrMem16 0x469 seg] @ rest \<and>
    push_bit 4 (ucast seg) = addr \<and>
    (\<exists>new. ipis lapic (accesses (lapicstartap lapic apicid addr s)) = ipis lapic (accesses s) @ new \<and>
      map (\<lambda>(d, w). (d, decode_ipi w)) new =
      map (Pair (ucast apicid)) [Init_assert, Init_deassert, Startup addr, Startup addr])"
proof -
  obtain b :: u8 where addr: "addr = push_bit 12 (ucast b)"
    using assms by (rule low_page)
  have "push_bit 4 (ucast (ucast (drop_bit 4 addr) :: u16)) = addr"
    unfolding addr by (rule bit_word_eqI) (auto simp: bit_simps dest: bit_imp_le_length)
  moreover have "\<exists>rest. startap_trace lapic apicid addr =
      [OutB 0x70 0xF, OutB 0x71 0x0A, WrMem16 0x467 0, WrMem16 0x469 (ucast (drop_bit 4 addr))] @ rest"
    by (simp add: startap_trace_def Let_def)
  ultimately show ?thesis
    using lapicstartap_sends [OF assms, of lapic apicid s] by (fastforce simp: lapicstartap_accesses)
qed

theorem lapicstartap_witness:
  "\<exists>seg rest. accesses (lapicstartap 0xFEE00000 5 0x7000 quiet_machine) =
      [OutB 0x70 0xF, OutB 0x71 0x0A, WrMem16 0x467 0, WrMem16 0x469 seg] @ rest \<and>
    push_bit 4 (ucast seg) = (0x7000 :: u32)"
  using lapicstartap_correct [of "0x7000" "0xFEE00000" 5 quiet_machine]
  by (auto simp: quiet_machine_def)

section \<open>Sending interrupts in either mode\<close>

text \<open>What the \<open>j\<close>-th look at the command register shows.\<close>

definition icr_look :: "nat \<Rightarrow> io_event list" where
  "icr_look j = replicate j (RdMem (g_apic + 0x300))"

definition busy_at :: "machine \<Rightarrow> nat \<Rightarrow> bool" where
  "busy_at s j \<longleftrightarrow> mmio s (accesses s @ icr_look j) (g_apic + 0x300) AND APIC_ICR_BUSY \<noteq> 0"

lemma icr_wait_step:
  "icr_wait s = (let s' = s\<lparr>accesses := accesses s @ icr_look 1\<rparr> in
     if busy_at s 0 then icr_wait s' else Some s')"
  by (subst icr_wait.simps)
    (simp add: xapic_read_def mem_read_def busy_at_def icr_look_def APIC_ICR_def Let_def)

lemma busy_at_Suc: "busy_at (s\<lparr>accesses := accesses s @ icr_look 1\<rparr>) j \<longleftrightarrow> busy_at s (Suc j)"
  by (simp add: busy_at_def icr_look_def)

lemma icr_wait_returns:
  "\<lbrakk>\<not> busy_at s k; \<And>j. j < k \<Longrightarrow> busy_at s j\<rbrakk> \<Longrightarrow>
   icr_wait s = Some (s\<lparr>accesses := accesses s @ icr_look (Suc k)\<rparr>)"
proof (induction k arbitrary: s)
  case 0
  then show ?case
    by (subst icr_wait_step) (simp add: Let_def)
next
  case (Suc k)
  let ?s = "s\<lparr>accesses := accesses s @ icr_look 1\<rparr>"
  have "icr_wait ?s = Some (?s\<lparr>accesses := accesses ?s @ icr_look (Suc k)\<rparr>)"
    using Suc.prems by (intro Suc.IH) (simp_all del: One_nat_def add: busy_at_Suc)
  moreover have "busy_at s 0"
    using Suc.prems(2) by simp
  ultimately show ?case
    by (subst icr_wait_step) (simp add: Let_def icr_look_def)
qed

lemma icr_wait_imp:
  assumes "icr_wait s = Some s'"
  shows "\<exists>k. \<not> busy_at s k"
proof (rule icr_wait.raw_induct [of "\<lambda>s _. \<exists>k. \<not> busy_at s k", OF _ assms])
  fix rec s s'
  assume IH: "\<And>s s'. rec s = Some s' \<Longrightarrow> \<exists>k. \<not> busy_at s k"
    and step: "(let (x, s) = xapic_read APIC_ICR s in if x AND APIC_ICR_BUSY \<noteq> 0 then rec s else Some s) = Some s'"
  show "\<exists>k. \<not> busy_at s k"
  proof (cases "busy_at s 0")
    case True
    then have "rec (s\<lparr>accesses := accesses s @ icr_look 1\<rparr>) = Some s'"
      using step by (simp add: xapic_read_def mem_read_def busy_at_def icr_look_def APIC_ICR_def Let_def)
    from IH [OF this] show ?thesis
      unfolding busy_at_Suc by blast
  qed blast
qed

lemma icr_wait_first:
  assumes "\<exists>k. \<not> busy_at s k"
  obtains k where "icr_wait s = Some (s\<lparr>accesses := accesses s @ icr_look (Suc k)\<rparr>)"
proof -
  define k where "k = (LEAST k. \<not> busy_at s k)"
  have "\<not> busy_at s k"
    unfolding k_def by (rule LeastI_ex [OF assms])
  moreover have "busy_at s j" if "j < k" for j
    using not_less_Least [OF that [unfolded k_def]] by simp
  ultimately show thesis
    by (intro that icr_wait_returns)
qed

lemma icr_wait_looks:
  assumes "icr_wait s = Some s'"
  obtains k where "s' = s\<lparr>accesses := accesses s @ icr_look k\<rparr>"
  using icr_wait_first [OF icr_wait_imp [OF assms]] assms by auto

lemma fold_icr_look [simp]: "fold (ipi_step base) (icr_look k) st = st"
  by (induction k) (simp_all add: icr_look_def)

lemma eois_icr_look [simp]: "eois (icr_look k) = 0"
  by (simp add: eois_def icr_look_def)

text \<open>What a user of the operation table relies on.\<close>

locale apic_driver =
  fixes ops :: apic_table
  assumes send: "icr_write ops x dest s = Some s' \<Longrightarrow> dest < 256 \<Longrightarrow>
      \<exists>new. s' = s\<lparr>accesses := accesses s @ new\<rparr> \<and> eois new = 0 \<and>
        ipis g_apic (accesses s @ new) = ipis g_apic (accesses s) @ [(dest, x)]"
    and acknowledge: "\<exists>new. reg_write ops APIC_EOI 0 s = s\<lparr>accesses := accesses s @ new\<rparr> \<and> eois new = 1 \<and>
        ipis g_apic (accesses s @ new) = ipis g_apic (accesses s)"

text \<open>Users of the driver: sequences of sends and acknowledgements.\<close>

datatype apic_cmd = Send u32 u32 | Ack

fun apic_run :: "apic_cmd list \<Rightarrow> machine \<Rightarrow> machine option" where
  "apic_run [] s = Some s"
| "apic_run (Send x dest # cs) s = do { s \<leftarrow> apic_icr_write x dest s; apic_run cs s }"
| "apic_run (Ack # cs) s = apic_run cs (eoi s)"

fun sends :: "apic_cmd list \<Rightarrow> (u32 \<times> u32) list" where
  "sends [] = []"
| "sends (Send x dest # cs) = (dest, x) # sends cs"
| "sends (Ack # cs) = sends cs"

context apic_driver
begin

lemma driver_run:
  assumes "apic_run cs s = Some s'" "ops_of (apic_ops s) = ops" "\<forall>(d, _)\<in>set (sends cs). d < 256"
  shows "ipis g_apic (accesses s') = ipis g_apic (accesses s) @ sends cs \<and>
    eois (accesses s') = eois (accesses s) + length (filter ((=) Ack) cs) \<and>
    s' = s\<lparr>accesses := accesses s'\<rparr>"
  using assms
proof (induction cs s rule: apic_run.induct)
  case (2 x dest cs s)
  then obtain s1 where s1: "icr_write ops x dest s = Some s1" "apic_run cs s1 = Some s'"
    by (auto simp: apic_icr_write_def split: bind_splits)
  then obtain new where new: "s1 = s\<lparr>accesses := accesses s @ new\<rparr>" "eois new = 0"
      "ipis g_apic (accesses s @ new) = ipis g_apic (accesses s) @ [(dest, x)]"
    using send [of x dest s s1] "2.prems" by auto
  then show ?case
    using "2.IH" [of s1] s1 "2.prems" by (simp add: apic_icr_write_def)
next
  case (3 cs s)
  obtain new where new: "eoi s = s\<lparr>accesses := accesses s @ new\<rparr>" "eois new = 1"
      "ipis g_apic (accesses s @ new) = ipis g_apic (accesses s)"
    using acknowledge [of s] "3.prems"(2) by (auto simp: eoi_def apic_write_def)
  then show ?case
    using "3.IH" "3.prems" by simp
qed simp

end

lemma xapic_send_trace:
  assumes "xapic_icr_write x dest s = Some s'"
  obtains k where "s' = s\<lparr>accesses := accesses s @ icr_look k @
    [WrMem (g_apic + 0x310) (push_bit 24 dest), WrMem (g_apic + 0x300) x]\<rparr>"
proof -
  obtain s1 where "icr_wait s = Some s1"
      "s' = xapic_write APIC_ICR x (xapic_write APIC_ICR2 (push_bit 24 dest) s1)"
    using assms by (auto simp: xapic_icr_write_def Let_def split: bind_splits)
  moreover then obtain k where "s1 = s\<lparr>accesses := accesses s @ icr_look k\<rparr>"
    by (blast elim: icr_wait_looks)
  ultimately show thesis
    by (intro that [of k]) (simp add: xapic_write_def mem_write_def APIC_ICR_def APIC_ICR2_def)
qed

lemma xapic_dest:
  fixes dest :: u32
  assumes "dest < 256"
  shows "drop_bit 24 (push_bit 24 dest) = dest"
proof -
  have "n < 8" if "bit dest n" for n
    using bit_below [OF that, of 8] assms by (simp add: word_less_nat_alt)
  then show ?thesis
    by (intro bit_word_eqI) (fastforce simp: bit_simps)
qed

interpretation xapic: apic_driver xapic_ops
proof
  fix x dest s s'
  assume "icr_write xapic_ops x dest s = Some s'" "dest < 256"
  then obtain k where s': "s' = s\<lparr>accesses := accesses s @ icr_look k @
      [WrMem (g_apic + 0x310) (push_bit 24 dest), WrMem (g_apic + 0x300) x]\<rparr>"
    by (auto simp: xapic_ops_def elim: xapic_send_trace)
  have "ipis g_apic (accesses s @ icr_look k @
      [WrMem (g_apic + 0x310) (push_bit 24 dest), WrMem (g_apic + 0x300) x]) =
      ipis g_apic (accesses s) @ [(dest, x)]"
    by (rule ipis_append) (simp add: xapic_dest \<open>dest < 256\<close>)
  then show "\<exists>new. s' = s\<lparr>accesses := accesses s @ new\<rparr> \<and> eois new = 0 \<and>
      ipis g_apic (accesses s @ new) = ipis g_apic (accesses s) @ [(dest, x)]"
    unfolding s' by (intro exI) (auto, simp add: eois_def icr_look_def g_apic_def)
next
  fix s :: machine
  have "ipis g_apic (accesses s @ [WrMem (g_apic + 0xB0) 0]) = ipis g_apic (accesses s) @ []"
    by (rule ipis_append) (simp add: g_apic_def)
  then show "\<exists>new. reg_write xapic_ops APIC_EOI 0 s = s\<lparr>accesses := accesses s @ new\<rparr> \<and> eois new = 1 \<and>
      ipis g_apic (accesses s @ new) = ipis g_apic (accesses s)"
    by (intro exI [of _ "[WrMem (g_apic + 0xB0) 0]"])
      (simp add: xapic_ops_def xapic_write_def mem_write_def APIC_EOI_def eois_def)
qed

interpretation x2apic: apic_driver x2apic_ops
proof
  fix x dest s s'
  assume "icr_write x2apic_ops x dest s = Some s'"
  then have s': "s' = s\<lparr>accesses := accesses s @ [WrMsr 0x830 (ucast x OR push_bit 32 (ucast dest))]\<rparr>"
    by (simp add: x2apic_ops_def x2apic_icr_write_def wrmsr_ad_def APIC_BASE_MSR_def APIC_ICR_def)
  have "ipis g_apic (accesses s @ [WrMsr 0x830 (ucast x OR push_bit 32 (ucast dest))]) =
      ipis g_apic (accesses s) @ [(dest, x)]"
    by (rule ipis_append) (simp add: wrmsr_word del: drop_bit_or)
  then show "\<exists>new. s' = s\<lparr>accesses := accesses s @ new\<rparr> \<and> eois new = 0 \<and>
      ipis g_apic (accesses s @ new) = ipis g_apic (accesses s) @ [(dest, x)]"
    unfolding s' by (intro exI) (auto, simp add: eois_def)
next
  fix s :: machine
  have "ipis g_apic (accesses s @ [WrMsr 0x80B 0]) = ipis g_apic (accesses s) @ []"
    by (rule ipis_append) simp
  then show "\<exists>new. reg_write x2apic_ops APIC_EOI 0 s = s\<lparr>accesses := accesses s @ new\<rparr> \<and> eois new = 1 \<and>
      ipis g_apic (accesses s @ new) = ipis g_apic (accesses s)"
    by (intro exI [of _ "[WrMsr 0x80B 0]"])
      (simp add: x2apic_ops_def x2apic_write_def wrmsr_ad_def APIC_EOI_def APIC_BASE_MSR_def eois_def)
qed

text \<open>
  C12. Whichever table \<open>apic_ops\<close> points to, a sequence of \<open>apic_icr_write\<close> and \<open>eoi\<close> calls that
  returns has sent exactly its interrupts, in order, and acknowledged once for each \<open>eoi\<close>; the two
  modes cannot be told apart by what they send, for destinations that fit in the 8 bits of the
  older mode.
\<close>

theorem apic_run_correct:
  assumes "apic_run cs s = Some s'" "\<forall>(d, _)\<in>set (sends cs). d < 256"
  shows "ipis g_apic (accesses s') = ipis g_apic (accesses s) @ sends cs \<and>
    eois (accesses s') = eois (accesses s) + length (filter ((=) Ack) cs) \<and>
    s' = s\<lparr>accesses := accesses s'\<rparr>"
  using assms by (cases "apic_ops s") (simp_all add: xapic.driver_run x2apic.driver_run)

theorem apic_run_witness:
  "ipis g_apic (accesses (the (apic_run [Ack, Send 0x4020 5] (quiet_machine\<lparr>apic_ops := X2apic_ops\<rparr>)))) =
   [(5, 0x4020)]"
proof -
  let ?s = "quiet_machine\<lparr>apic_ops := X2apic_ops\<rparr>"
  obtain s' where "apic_run [Ack, Send 0x4020 5] ?s = Some s'"
    by (simp add: quiet_machine_def eoi_def apic_write_def x2apic_ops_def x2apic_write_def wrmsr_ad_def
        apic_icr_write_def x2apic_icr_write_def)
  with apic_run_correct [of "[Ack, Send 0x4020 5]" ?s s'] show ?thesis
    by (simp add: quiet_machine_def ipis_def)
qed

text \<open>
  Sending in the older mode returns exactly when some look at the command register finds it not
  busy.
\<close>

theorem xapic_icr_write_returns_iff:
  "(\<exists>s'. xapic_icr_write x dest s = Some s') \<longleftrightarrow> (\<exists>k. \<not> busy_at s k)"
proof
  assume "\<exists>k. \<not> busy_at s k"
  then obtain k where "icr_wait s = Some (s\<lparr>accesses := accesses s @ icr_look (Suc k)\<rparr>)"
    by (rule icr_wait_first)
  then show "\<exists>s'. xapic_icr_write x dest s = Some s'"
    by (simp add: xapic_icr_write_def)
next
  assume "\<exists>s'. xapic_icr_write x dest s = Some s'"
  then obtain s1 where "icr_wait s = Some s1"
    by (auto simp: xapic_icr_write_def split: bind_splits)
  then show "\<exists>k. \<not> busy_at s k"
    by (rule icr_wait_imp)
qed

section \<open>The I/O APIC\<close>

text \<open>
  The select register and the registers behind the window, from the writes so far.
\<close>

fun ioapic_step :: "io_event \<Rightarrow> u32 \<times> (u32 \<Rightarrow> u32) \<Rightarrow> u32 \<times> (u32 \<Rightarrow> u32)" where
  "ioapic_step (WrMem a x) (sel, regs) =
     (if a = g_ioapic then (x, regs)
      else if a = g_ioapic + 0x10 then (sel, regs(sel := x)) else (sel, regs))"
| "ioapic_step _ st = st"

definition ioapic_state :: "(u32 \<Rightarrow> u32) \<Rightarrow> io_event list \<Rightarrow> u32 \<times> (u32 \<Rightarrow> u32)" where
  "ioapic_state r0 es = fold ioapic_step es (0, r0)"

abbreviation ioapic_regs :: "(u32 \<Rightarrow> u32) \<Rightarrow> machine \<Rightarrow> u32 \<Rightarrow> u32" where
  "ioapic_regs r0 s \<equiv> snd (ioapic_state r0 (accesses s))"

text \<open>
  The documented behaviour of the device: a read of the window gives the selected register, which
  holds what was last written to it, except in the status bits 12 and 14, which the device sets.
\<close>

definition same_but_status :: "u32 \<Rightarrow> u32 \<Rightarrow> bool" where
  "same_but_status x y \<longleftrightarrow> (\<forall>n<32. n \<noteq> 12 \<and> n \<noteq> 14 \<longrightarrow> bit x n = bit y n)"

definition ioapic_answers :: "(u32 \<Rightarrow> u32) \<Rightarrow> machine \<Rightarrow> bool" where
  "ioapic_answers r0 s \<longleftrightarrow>
     (\<forall>es. same_but_status (mmio s es (g_ioapic + 0x10))
        (snd (ioapic_state r0 es) (fst (ioapic_state r0 es))))"

lemma ioapic_read_reg_eq:
  "ioapic_read_reg r s =
     (let es = accesses s @ [WrMem g_ioapic r] in
      (mmio s es (g_ioapic + 0x10), s\<lparr>accesses := es @ [RdMem (g_ioapic + 0x10)]\<rparr>))"
  by (simp add: ioapic_read_reg_def mem_write_def mem_read_def Let_def)

lemma ioapic_read_regs:
  assumes "ioapic_read_reg r s = (x, s')" "ioapic_answers r0 s"
  shows "same_but_status x (ioapic_regs r0 s r)" "ioapic_regs r0 s' = ioapic_regs r0 s"
    "s' = s\<lparr>accesses := accesses s'\<rparr>" "ioapic_answers r0 s'"
proof -
  obtain sel regs where st: "ioapic_state r0 (accesses s) = (sel, regs)"
    by (cases "ioapic_state r0 (accesses s)")
  show "same_but_status x (ioapic_regs r0 s r)" "ioapic_regs r0 s' = ioapic_regs r0 s"
    "s' = s\<lparr>accesses := accesses s'\<rparr>" "ioapic_answers r0 s'"
    using assms st spec [OF assms(2) [unfolded ioapic_answers_def], of "accesses s @ [WrMem g_ioapic r]"]
    by (auto simp: ioapic_read_reg_eq Let_def ioapic_state_def ioapic_answers_def)
qed

lemma ioapic_write_regs:
  "ioapic_regs r0 (ioapic_write_reg r x s) = (ioapic_regs r0 s)(r := x)"
  by (cases "ioapic_state r0 (accesses s)")
    (simp add: ioapic_write_reg_def mem_write_def Let_def ioapic_state_def g_ioapic_def)

text \<open>A redirection entry is its two words.\<close>

lemma word_field:
  fixes w :: u32
  shows "push_bit k (ucast (ucast (drop_bit k w) :: 'b::len word)) = w AND push_bit k (mask LENGTH('b))"
    "ucast (ucast w :: 'b word) = w AND mask LENGTH('b)"
  by (rule bit_word_eqI, auto simp: bit_simps)+

lemma redir_words:
  "redir_word0 (redir_of_words w0 w1) = w0" "redir_word1 (redir_of_words w0 w1) = w1"
proof -
  have hi: "push_bit 24 (ucast (drop_bit 24 w0 OR push_bit 8 w1)) = w0 AND 0xFF000000"
  proof -
    have m: "(0xFF000000 :: u32) = push_bit 24 (mask 8)"
      by (simp add: mask_eq_exp_minus_1 push_bit_eq_mult)
    show ?thesis
      unfolding m by (rule bit_word_eqI) (auto simp: bit_simps)
  qed
  have "redir_word0 (redir_of_words w0 w1) =
      w0 AND (0xFF OR 0x700 OR 0x800 OR 0x1000 OR 0x2000 OR 0x4000 OR 0x8000 OR 0x10000 OR 0xFE0000 OR
        0xFF000000)"
    unfolding redir_word0_def redir_of_words_def ioapic_redir_entry.select_convs word_field(1) hi
      bit.conj_disj_distrib
    unfolding word_field(2)
    by (simp add: mask_eq_exp_minus_1 push_bit_eq_mult)
  moreover have "(0xFF OR 0x700 OR 0x800 OR 0x1000 OR 0x2000 OR 0x4000 OR 0x8000 OR 0x10000 OR 0xFE0000 OR
      0xFF000000 :: u32) = - 1"
    by simp
  ultimately show "redir_word0 (redir_of_words w0 w1) = w0"
    by (simp only: bit.conj_one_right)
  show "redir_word1 (redir_of_words w0 w1) = w1"
    by (rule bit_word_eqI) (auto simp: redir_word1_def redir_of_words_def bit_simps)
qed

lemma redir_word0_mask:
  "bit (redir_word0 (e\<lparr>mask_bit := x\<rparr>)) n = (if n = 16 then bit x 0 else bit (redir_word0 e) n)"
proof -
  let ?rest = "ucast (vector e) OR push_bit 8 (ucast (delivery_mode e)) OR push_bit 11 (ucast (dest_mode e)) OR
     push_bit 12 (ucast (delivery_status e)) OR push_bit 13 (ucast (polarity e)) OR
     push_bit 14 (ucast (remote_irr e)) OR push_bit 15 (ucast (trig_mode e)) OR
     push_bit 17 (ucast (reserve e)) OR push_bit 24 (ucast (reserved e)) :: u32"
  have word: "redir_word0 (e\<lparr>mask_bit := y\<rparr>) = ?rest OR push_bit 16 (ucast y)" for y
    by (simp add: redir_word0_def ac_simps)
  have one: "bit y k \<longleftrightarrow> k = 0 \<and> bit y 0" for y :: "1 word" and k
    by (cases k) (auto dest: bit_imp_le_length)
  have "bit (push_bit 16 (ucast (y :: 1 word)) :: u32) n \<longleftrightarrow> n = 16 \<and> bit y 0" for y
    by (subst bit_push_bit_iff, subst bit_ucast_iff, subst one) auto
  moreover have "\<not> bit ?rest 16"
    by (auto simp: bit_simps dest: bit_imp_le_length)
  ultimately show ?thesis
    using word [of x] word [of "mask_bit e"] by (auto simp: bit_or_iff)
qed

lemma redir_word1_mask: "redir_word1 (e\<lparr>mask_bit := x\<rparr>) = redir_word1 e"
  by (simp add: redir_word1_def)

text \<open>
  \<open>set_mask\<close> changes the mask of its line to the lowest bit of its argument, keeps the other
  fields of the line's redirection entry, and leaves every other register of the device alone.
\<close>

theorem set_mask_correct:
  assumes "ioapic_answers r0 s"
  shows "(\<forall>n<32. n \<noteq> 12 \<and> n \<noteq> 14 \<longrightarrow>
      bit (ioapic_regs r0 (set_mask line x s) (0x10 + line * 2)) n =
        (if n = 16 then bit x 0 else bit (ioapic_regs r0 s (0x10 + line * 2)) n)) \<and>
    same_but_status (ioapic_regs r0 (set_mask line x s) (0x11 + line * 2))
      (ioapic_regs r0 s (0x11 + line * 2)) \<and>
    (\<forall>r. r \<noteq> 0x10 + line * 2 \<and> r \<noteq> 0x11 + line * 2 \<longrightarrow>
      ioapic_regs r0 (set_mask line x s) r = ioapic_regs r0 s r)"
proof -
  obtain w0 s1 w1 s2 where rd: "ioapic_read_reg (0x10 + line * 2) s = (w0, s1)"
      "ioapic_read_reg (0x11 + line * 2) s1 = (w1, s2)"
    by (metis surj_pair)
  note r0 = ioapic_read_regs [OF rd(1) assms]
  note r1 = ioapic_read_regs [OF rd(2) r0(4)]
  let ?e = "redir_of_words w0 w1"
  have sm: "set_mask line x s =
      ioapic_write_reg (0x11 + line * 2) (redir_word1 (?e\<lparr>mask_bit := ucast x\<rparr>))
        (ioapic_write_reg (0x10 + line * 2) (redir_word0 (?e\<lparr>mask_bit := ucast x\<rparr>)) s2)"
    using rd by (simp add: set_mask_def ioapic_read_redir_def ioapic_write_redir_def Let_def add.commute
        add.left_commute)
  have regs: "ioapic_regs r0 (set_mask line x s) = (ioapic_regs r0 s)
      (0x10 + line * 2 := redir_word0 (?e\<lparr>mask_bit := ucast x\<rparr>), 0x11 + line * 2 := w1)"
    unfolding sm ioapic_write_regs redir_word1_mask redir_words r1(2) r0(2) ..
  have ne: "0x10 + line * 2 \<noteq> 0x11 + line * 2"
    by simp
  show ?thesis
    using r0 r1 ne by (auto simp: regs redir_word0_mask redir_words same_but_status_def bit_simps)
qed

text \<open>A machine with such a device.\<close>

definition ioapic_machine :: "(u32 \<Rightarrow> u32) \<Rightarrow> machine" where
  "ioapic_machine r0 = quiet_machine\<lparr>mmio := \<lambda>es a. if a = g_ioapic + 0x10
     then snd (ioapic_state r0 es) (fst (ioapic_state r0 es)) else 0\<rparr>"

theorem set_mask_witness:
  "bit (ioapic_regs (\<lambda>_. 0x8020) (set_mask 2 1 (ioapic_machine (\<lambda>_. 0x8020))) 0x14) 16"
proof -
  have "ioapic_answers (\<lambda>_. 0x8020) (ioapic_machine (\<lambda>_. 0x8020))"
    by (simp add: ioapic_answers_def same_but_status_def ioapic_machine_def)
  from set_mask_correct [OF this, of 2 1] show ?thesis
    by simp
qed

section \<open>The mode of the local APIC\<close>

fun apicbase_step :: "io_event \<Rightarrow> u64 \<Rightarrow> u64" where
  "apicbase_step (WrMsr c x) b = (if c = MSR_IA32_APICBASE then x else b)"
| "apicbase_step _ b = b"

definition apicbase :: "u64 \<Rightarrow> machine \<Rightarrow> u64" where
  "apicbase b0 s = fold apicbase_step (accesses s) b0"

text \<open>The base register reads back what was last written.\<close>

definition apicbase_answers :: "u64 \<Rightarrow> machine \<Rightarrow> bool" where
  "apicbase_answers b0 s \<longleftrightarrow> (\<forall>es. msr s es MSR_IA32_APICBASE = fold apicbase_step es b0)"

datatype mode_op = Enable_x2apic | Disable_apic | Reset_apic

fun mode_run :: "mode_op \<Rightarrow> machine \<Rightarrow> machine" where
  "mode_run Enable_x2apic s = snd (enable_x2apic s)"
| "mode_run Disable_apic s = disable_apic s"
| "mode_run Reset_apic s = reset_apic s"

definition mode_ok :: "u64 \<Rightarrow> machine \<Rightarrow> bool" where
  "mode_ok b0 s \<longleftrightarrow> (apic_ops s = X2apic_ops \<longleftrightarrow> bit (apicbase b0 s) 10)"

lemma enable_word:
  "(ucast (ucast (x :: u64) OR push_bit 10 1 :: u32) OR push_bit 32 (ucast (ucast (drop_bit 32 x) :: u32))) =
   x OR APIC_EXTD"
proof -
  have "(ucast (ucast x OR push_bit 10 1 :: u32) :: u64) = ucast (ucast x :: u32) OR APIC_EXTD"
    by (simp add: unsigned_or_eq APIC_EXTD_def)
  then have "ucast (ucast x OR push_bit 10 1 :: u32) OR push_bit 32 (ucast (ucast (drop_bit 32 x) :: u32)) =
      (ucast (ucast x :: u32) OR push_bit 32 (ucast (ucast (drop_bit 32 x) :: u32))) OR APIC_EXTD"
    by (simp only: ac_simps)
  then show ?thesis
    by (simp only: split_word)
qed

lemma enable_x2apic_eq:
  "enable_x2apic s =
     (if fst (snd (snd (cpuid_out s 1))) AND push_bit 21 1 \<noteq> 0
      then (True, s\<lparr>accesses := accesses s @ [RdMsr MSR_IA32_APICBASE,
        WrMsr MSR_IA32_APICBASE (msr s (accesses s) MSR_IA32_APICBASE OR APIC_EXTD)], apic_ops := X2apic_ops\<rparr>)
      else (False, s))"
  by (simp add: enable_x2apic_def rdmsr_ad_def wrmsr_ad_def Let_def enable_word split: prod.splits
      del: push_bit_of_1)

lemma mode_run_step:
  assumes "apicbase_answers b0 s" "mode_ok b0 s"
  shows "mode_ok b0 (mode_run c s)" "apicbase_answers b0 (mode_run c s)"
    "n \<noteq> 10 \<Longrightarrow> n \<noteq> 11 \<Longrightarrow> bit (apicbase b0 (mode_run c s)) n = bit (apicbase b0 s) n"
proof -
  have bits: "bit APIC_EXTD k \<longleftrightarrow> k = 10" "bit APIC_EN k \<longleftrightarrow> k = 11" for k
    by (auto simp: APIC_EXTD_def APIC_EN_def bit_push_bit_iff bit_1_iff simp del: push_bit_of_1)
  have rd: "msr s es MSR_IA32_APICBASE = fold apicbase_step es b0" for es
    using assms(1) by (simp add: apicbase_answers_def)
  note defs = apicbase_answers_def apicbase_def mode_ok_def enable_x2apic_eq disable_apic_def reset_apic_def
    Let_def rdmsr_eq wrmsr_eq
  show "apicbase_answers b0 (mode_run c s)"
    using assms(1) by (cases c) (simp_all add: defs)
  show "mode_ok b0 (mode_run c s)"
    using assms(2) by (cases c) (simp_all add: defs rd bits bit_or_iff bit_and_iff bit_not_iff)
  show "n \<noteq> 10 \<Longrightarrow> n \<noteq> 11 \<Longrightarrow> bit (apicbase b0 (mode_run c s)) n = bit (apicbase b0 s) n"
    using bit_imp_le_length [of "apicbase b0 s" n]
    by (cases c) (auto simp: defs rd bits bit_or_iff bit_and_iff bit_not_iff)
qed



end
