(* ===== verification/Proc.thy ===== *)
theory Proc
  imports Mptable Apic
begin

text \<open>
  Which processor is this (\<open>x86_64/proc.c\<close>): \<open>mycpu\<close> looks for the identifier of the local APIC
  among the processors \<open>mpinit\<close> found. A pointer into \<open>cpus\<close> is its index; \<open>mycpu\<close> falls off its end
  without a value when it finds none, which is \<open>None\<close>.
\<close>

section \<open>The model\<close>

function mycpu_loop :: "mpstate \<Rightarrow> u32 \<Rightarrow> nat \<Rightarrow> nat option" where
  "mycpu_loop mp aid i =
     (if i < ncpu mp then if ucast (apicid (cpus mp ! i)) = aid then Some i else mycpu_loop mp aid (Suc i)
      else None)"
  by pat_completeness auto
termination
  by (relation "measure (\<lambda>(mp, _, i). ncpu mp - i)") auto

declare mycpu_loop.simps [simp del]

definition mycpu :: "mpstate \<Rightarrow> machine \<Rightarrow> nat option \<times> machine" where
  "mycpu mp s =
     (let s = (if readeflags s AND FL_IF \<noteq> 0
               then say ''mycpu called with interrupts enabled\<newline>'' [] s else s);
          (aid, s) = lapicid (lapic mp) s
      in case mycpu_loop mp aid 0 of
           Some i \<Rightarrow> (Some i, s)
         | None \<Rightarrow> (None, say ''unknown apicid\<newline>'' [] s))"

definition cpuid :: "mpstate \<Rightarrow> machine \<Rightarrow> nat option \<times> machine" where
  "cpuid = mycpu"

section \<open>The search\<close>

text \<open>The identifiers of the processors that were found.\<close>

definition cpu_id_list :: "mpstate \<Rightarrow> byte list" where
  "cpu_id_list mp = take (ncpu mp) (map apicid (cpus mp))"

lemma ucast_byte_eq: "(ucast (a :: byte) :: u32) = ucast b \<longleftrightarrow> a = b"
proof
  assume "(ucast a :: u32) = ucast b"
  then have "(ucast (ucast a :: u32) :: byte) = ucast (ucast b :: u32)"
    by (rule arg_cong)
  then show "a = b"
    by (simp add: ucast_up_ucast_id is_up)
qed simp

lemma ucast_addr_0: "(ucast (a :: u32) :: u64) = 0 \<longleftrightarrow> a = 0"
proof
  assume "(ucast a :: u64) = 0"
  then have "(ucast (ucast a :: u64) :: u32) = ucast (0 :: u64)"
    by (rule arg_cong)
  then show "a = 0"
    by (simp add: ucast_up_ucast_id is_up)
qed simp

lemma mycpu_loop_finds:
  assumes "ncpu mp \<le> length (cpus mp)" "k < ncpu mp" "distinct (cpu_id_list mp)" "i \<le> k"
  shows "mycpu_loop mp (ucast (cpu_id_list mp ! k)) i = Some k"
  using assms(4)
proof (induction "k - i" arbitrary: i)
  case 0
  then show ?case
    using assms by (subst mycpu_loop.simps) (simp add: cpu_id_list_def)
next
  case (Suc d)
  then have "i < k"
    by simp
  then have "cpu_id_list mp ! i \<noteq> cpu_id_list mp ! k"
    using assms nth_eq_iff_index_eq [OF assms(3), of i k] by (simp add: cpu_id_list_def)
  then show ?case
    using Suc.hyps(1) [of "Suc i"] Suc.hyps(2) \<open>i < k\<close> assms
    by (subst mycpu_loop.simps) (simp add: cpu_id_list_def ucast_byte_eq)
qed

lemma mycpu_loop_none:
  "(\<And>k. i \<le> k \<Longrightarrow> k < ncpu mp \<Longrightarrow> ucast (apicid (cpus mp ! k)) \<noteq> aid) \<Longrightarrow> mycpu_loop mp aid i = None"
proof (induction mp aid i rule: mycpu_loop.induct)
  case (1 mp aid i)
  have "mycpu_loop mp aid (Suc i) = None" if "i < ncpu mp" "ucast (apicid (cpus mp ! i)) \<noteq> aid"
    using that by (rule "1.IH") (simp add: "1.prems")
  with "1.prems" [of i] show ?case
    by (subst mycpu_loop.simps) simp
qed

text \<open>The local APIC answers with the identifier \<open>aid\<close>.\<close>

definition apic_answers :: "mpstate \<Rightarrow> byte \<Rightarrow> machine \<Rightarrow> bool" where
  "apic_answers mp aid s \<longleftrightarrow> (\<forall>es. drop_bit 24 (mmio s es (lapic mp + 0x20)) = ucast aid)"

lemma mycpu_eq:
  assumes "lapic mp \<noteq> 0" "apic_answers mp (cpu_id_list mp ! k) s"
    and "ncpu mp \<le> length (cpus mp)" "k < ncpu mp" "distinct (cpu_id_list mp)"
  shows "\<exists>s'. mycpu mp s = (Some k, s') \<and>
    accesses s' = accesses s @ [RdMem (lapic mp + 0x20)] \<and> mmio s' = mmio s"
  using assms mycpu_loop_finds [OF assms(3,4,5), of 0]
  by (simp add: mycpu_def lapicid_def lapicr_def mem_read_def lapic_reg_simps Let_def apic_answers_def say_def)

lemma mycpu_unknown:
  assumes "lapic mp \<noteq> 0" "apic_answers mp aid s" "aid \<notin> set (cpu_id_list mp)" "ncpu mp \<le> length (cpus mp)"
  shows "fst (mycpu mp s) = None"
proof -
  have "mycpu_loop mp (ucast aid) 0 = None"
    using assms(3,4) by (intro mycpu_loop_none) (auto simp: cpu_id_list_def ucast_byte_eq in_set_conv_nth)
  with assms(1,2) show ?thesis
    by (simp add: mycpu_def lapicid_def lapicr_def mem_read_def lapic_reg_simps Let_def apic_answers_def say_def)
qed

section \<open>Properties\<close>

text \<open>
  After \<open>mpinit\<close> on a table of at most \<open>NCPU\<close> processors with different identifiers, \<open>mycpu\<close> and
  \<open>cpuid\<close> return on the \<open>k\<close>-th processor of the table, whose local APIC answers with its identifier,
  the element \<open>k\<close> of \<open>cpus\<close>; on a processor that is not in the table there is no result.
\<close>

theorem mycpu_after_mpinit:
  assumes "\<not> is_mp m 0" "length (cpus s) = NCPU" "ncpu s = 0"
    and "conf_entries m (found_conf m) = Some es" "conf_lapicaddr m (found_conf m) \<noteq> 0"
    and "distinct (cpu_ids es)" "length (cpu_ids es) \<le> NCPU"
  shows "\<exists>mp. mpinit bare_metal m s = Some mp \<and>
    (\<forall>k c. k < length (cpu_ids es) \<and> apic_answers mp (cpu_ids es ! k) c \<longrightarrow>
      fst (mycpu mp c) = Some k \<and> fst (cpuid mp c) = Some k) \<and>
    (\<forall>aid c. aid \<notin> set (cpu_ids es) \<and> apic_answers mp aid c \<longrightarrow> fst (mycpu mp c) = None)"
proof -
  obtain mp where mp: "mpinit bare_metal m s = Some mp" "ncpu mp = length (cpu_ids es)"
      "map apicid (cpus mp) = take NCPU (cpu_ids es @ drop (length (cpu_ids es)) (map apicid (cpus s)))"
      "lapic mp = ucast (conf_lapicaddr m (found_conf m))"
    using mpinit_result [OF assms(1-4), of bare_metal] assms(7) by auto
  have len: "length (cpus mp) = NCPU"
    using arg_cong [OF mp(3), of length] assms(2,7) by simp
  have ids: "cpu_id_list mp = cpu_ids es"
    using assms(7) by (simp add: cpu_id_list_def mp(2,3))
  have "lapic mp \<noteq> 0"
    using assms(5) by (simp add: mp(4) ucast_addr_0)
  then have "fst (mycpu mp c) = Some k" if "k < length (cpu_ids es)" "apic_answers mp (cpu_ids es ! k) c" for k c
    using that mycpu_eq [of mp k c] assms(6,7) by (auto simp: ids mp(2) len)
  moreover have "fst (mycpu mp c) = None" if "aid \<notin> set (cpu_ids es)" "apic_answers mp aid c" for aid c
    using that mycpu_unknown [of mp aid c] \<open>lapic mp \<noteq> 0\<close> assms(7) by (simp add: ids mp(2) len)
  ultimately show ?thesis
    using mp(1) by (auto simp: cpuid_def)
qed

theorem mycpu_witness:
  "\<exists>mp. mpinit True example_bios example_mp = Some mp \<and>
     (\<forall>c. apic_answers mp 5 c \<longrightarrow> fst (mycpu mp c) = Some 1)"
proof -
  have "conf_lapicaddr example_bios 0xF0010 = 0xFEE00000"
    by code_simp
  then have "\<exists>mp. mpinit True example_bios example_mp = Some mp \<and>
    (\<forall>k c. k < length [0, 5 :: byte] \<and> apic_answers mp ([0, 5] ! k) c \<longrightarrow>
      fst (mycpu mp c) = Some k \<and> fst (cpuid mp c) = Some k)"
    using mycpu_after_mpinit [of example_bios example_mp "[Proc_entry 0, Proc_entry 5, Ioapic_entry 9]" True]
    by (auto simp: example_found example_entries example_mp_def NCPU_def)
  then show ?thesis
    by fastforce
qed

end
