(* ===== verification/Boot.thy ===== *)
theory Boot
  imports Proc
begin

text \<open>
  Bringing the machine up: \<open>x86_64/main.c\<close> and the entry of the application processors in
  \<open>x86_64/cstart.S\<close>. The boot processor starts the others one after the other and waits for each;
  the interleaving of the processors is a step relation.
\<close>

section \<open>The functions\<close>

text \<open>\<open>boot_idt\<close> is the address of the table, which the linker chooses.\<close>

definition sizeof_boot_idt :: u32 where
  "sizeof_boot_idt = 256 * 16"

definition started_flag :: "nat \<Rightarrow> u32 \<Rightarrow> mpstate \<Rightarrow> mpstate" where
  "started_flag i x mp = mp\<lparr>cpus := (cpus mp)[i := (cpus mp ! i)\<lparr>started := x\<rparr>]\<rparr>"

text \<open>What an application processor runs; \<open>None\<close> when \<open>mycpu\<close> has no value to return.\<close>

definition mpenter :: "u64 \<Rightarrow> mpstate \<Rightarrow> machine \<Rightarrow> (mpstate \<times> machine) option" where
  "mpenter boot_idt mp s =
     (let (c1, s) = cpuid mp s; (c2, s) = cpuid mp s in
      do { c1 \<leftarrow> c1; c2 \<leftarrow> c2;
           let s = say (''cpu%d: starting %d'' @ [CHR 0x0D, CHR 0x0A])
             [VInt (of_nat c1), VInt (of_nat c2)] s;
           let s = lidt boot_idt (sizeof_boot_idt - 1) s;
           let s = enable_apic s;
           let (c, s) = mycpu mp s;
           c \<leftarrow> c;
           let (old, new) = xchg (started (cpus mp ! c)) 1;
           let mp = started_flag c new mp;
           Some (mp, snd (enable_x2apic s)) })"

definition list_apicid :: "mpstate \<Rightarrow> machine \<Rightarrow> machine" where
  "list_apicid mp s =
     (let s = say ''The number of processors : %d\<newline>'' [VInt (of_nat (ncpu mp))] s;
          s = fold (\<lambda>i. say ''%5d '' [VInt (ucast (apicid (cpus mp ! i)))]) [0..<ncpu mp] s
      in say ''\<newline>'' [] s)"

definition DEBUG :: "machine \<Rightarrow> machine" where
  "DEBUG = say ''move done!\<newline>'' []"

definition platform_shutdown :: "machine \<Rightarrow> machine" where
  "platform_shutdown s =
     (let s = outl 0x80000b80 0xcf8 s;
          (al, s) = inb 0xcfc s;
          al = al OR 1;
          s = outb al 0xcfc s;
          s = outl 0x80000b40 0xcf8 s;
          s = outl 0x7001 0xcfc s
      in outw 0x2000 0x7004 s)"

text \<open>
  \<open>lock xadd\<close> of -4096 on \<open>smp_stacktop\<close> in \<open>ap_start32\<close>: the stack pointer it takes and what it
  leaves.
\<close>

definition smp_stacktop0 :: u32 where "smp_stacktop0 = 0xa0000"

definition take_stack :: "u32 \<Rightarrow> u32 \<times> u32" where
  "take_stack smp_stacktop = (let esp = - 4096 in (smp_stacktop, smp_stacktop + esp))"

section \<open>Starting the other processors\<close>

text \<open>Where the boot processor is in \<open>startothers\<close>.\<close>

datatype boot_pc = Check nat | Waiting nat | Finished

text \<open>
  \<open>aps k\<close> is the processor of entry \<open>k\<close>, \<open>esps k\<close> the stack it took; \<open>entered\<close> are the processors
  that went through \<open>mpenter\<close>.
\<close>

record bootstate =
  mpst :: mpstate
  bsp :: machine
  aps :: "nat \<Rightarrow> machine"
  pc :: boot_pc
  entered :: "nat set"
  smp_stacktop :: u32
  esps :: "nat \<Rightarrow> u32"

definition ipis_sent :: "bootstate \<Rightarrow> (u32 \<times> ipi) list" where
  "ipis_sent s = map (\<lambda>(d, w). (d, decode_ipi w)) (ipis (lapic (mpst s)) (accesses (bsp s)))"

text \<open>
  The loop of \<open>startothers\<close> on the boot processor, and the other processors, each of which starts
  when it has been sent a start-up interrupt for address 0, where \<open>sipi_entry_mov\<close> put the entry
  code.
\<close>

inductive boot_step :: "u64 \<Rightarrow> bootstate \<Rightarrow> bootstate \<Rightarrow> bool" for boot_idt where
  skip_self: "\<lbrakk>pc s = Check i; i < ncpu (mpst s); mycpu (mpst s) (bsp s) = (Some i, m)\<rbrakk> \<Longrightarrow>
    boot_step boot_idt s (s\<lparr>bsp := m, pc := Check (Suc i)\<rparr>)"
| start_ap: "\<lbrakk>pc s = Check i; i < ncpu (mpst s); mycpu (mpst s) (bsp s) = (Some j, m); j \<noteq> i\<rbrakk> \<Longrightarrow>
    boot_step boot_idt s
      (s\<lparr>bsp := lapicstartap (lapic (mpst s)) (apicid (cpus (mpst s) ! i)) 0 m, pc := Waiting i\<rparr>)"
| wait_over: "\<lbrakk>pc s = Waiting i; started (cpus (mpst s) ! i) \<noteq> 0\<rbrakk> \<Longrightarrow>
    boot_step boot_idt s (s\<lparr>pc := Check (Suc i)\<rparr>)"
| finish: "\<lbrakk>pc s = Check i; \<not> i < ncpu (mpst s)\<rbrakk> \<Longrightarrow> boot_step boot_idt s (s\<lparr>pc := Finished\<rparr>)"
| enter_ap: "\<lbrakk>k < ncpu (mpst s); k \<notin> entered s;
    (ucast (apicid (cpus (mpst s) ! k)), Startup 0) \<in> set (ipis_sent s);
    take_stack (smp_stacktop s) = (esp, rest);
    mpenter boot_idt (mpst s) (aps s k) = Some (mp', m')\<rbrakk> \<Longrightarrow>
    boot_step boot_idt s (s\<lparr>mpst := mp', aps := (aps s)(k := m'), entered := insert k (entered s),
      smp_stacktop := rest, esps := (esps s)(k := esp)\<rparr>)"

section \<open>The invariant\<close>

text \<open>How far the boot processor has sent start-up interrupts, and how far it has waited.\<close>

fun sent_to :: "nat \<Rightarrow> boot_pc \<Rightarrow> nat" where
  "sent_to n (Check i) = i"
| "sent_to n (Waiting i) = Suc i"
| "sent_to n Finished = n"

fun up_to :: "nat \<Rightarrow> boot_pc \<Rightarrow> nat" where
  "up_to n (Check i) = i"
| "up_to n (Waiting i) = i"
| "up_to n Finished = n"

definition start_sequence :: "byte list \<Rightarrow> nat \<Rightarrow> (u32 \<times> ipi) list" where
  "start_sequence ids k =
     map (Pair (ucast (ids ! k))) [Init_assert, Init_deassert, Startup 0, Startup 0]"

definition start_sequences :: "nat \<Rightarrow> byte list \<Rightarrow> nat \<Rightarrow> (u32 \<times> ipi) list" where
  "start_sequences b ids m = concat (map (start_sequence ids) (filter (\<lambda>k. k \<noteq> b) [0..<m]))"

text \<open>The machine before \<open>startothers\<close>: \<open>b\<close> is the boot processor, \<open>ids\<close> are the identifiers.\<close>

definition machine_ok :: "nat \<Rightarrow> byte list \<Rightarrow> bootstate \<Rightarrow> bool" where
  "machine_ok b ids s \<longleftrightarrow>
     cpu_id_list (mpst s) = ids \<and> ncpu (mpst s) = length ids \<and> ncpu (mpst s) \<le> length (cpus (mpst s)) \<and>
     distinct ids \<and> b < length ids \<and> lapic (mpst s) \<noteq> 0 \<and> apic_answers (mpst s) (ids ! b) (bsp s) \<and>
     (\<forall>k<length ids. apic_answers (mpst s) (ids ! k) (aps s k))"

definition boot_start :: "nat \<Rightarrow> byte list \<Rightarrow> bootstate \<Rightarrow> bool" where
  "boot_start b ids s \<longleftrightarrow> machine_ok b ids s \<and> pc s = Check 0 \<and> entered s = {} \<and>
     (\<forall>k<length ids. started (cpus (mpst s) ! k) = 0) \<and> ipis_sent s = [] \<and> smp_stacktop s = smp_stacktop0"

definition boot_inv :: "nat \<Rightarrow> byte list \<Rightarrow> bootstate \<Rightarrow> bool" where
  "boot_inv b ids s \<longleftrightarrow> machine_ok b ids s \<and>
     (\<forall>k<length ids. started (cpus (mpst s) ! k) = (if k \<in> entered s then 1 else 0)) \<and>
     entered s \<subseteq> {k. k < sent_to (length ids) (pc s) \<and> k \<noteq> b} \<and>
     {k. k < up_to (length ids) (pc s) \<and> k \<noteq> b} \<subseteq> entered s \<and>
     sent_to (length ids) (pc s) \<le> length ids \<and> pc s \<noteq> Waiting b \<and>
     ipis_sent s = start_sequences b ids (sent_to (length ids) (pc s))"

lemma boot_start_inv: "boot_start b ids s \<Longrightarrow> boot_inv b ids s"
  by (simp add: boot_start_def boot_inv_def start_sequences_def)

lemma start_sequences_Suc:
  "start_sequences b ids (Suc m) =
     start_sequences b ids m @ (if m = b then [] else start_sequence ids m)"
  by (simp add: start_sequences_def)

lemma start_sequences_mem:
  assumes "(ucast (ids ! k), Startup 0) \<in> set (start_sequences b ids m)" "distinct ids"
    and "k < length ids" "m \<le> length ids"
  shows "k < m \<and> k \<noteq> b"
proof -
  obtain j where "j < m" "j \<noteq> b" "(ucast (ids ! j) :: u32) = ucast (ids ! k)"
    using assms(1) by (auto simp: start_sequences_def start_sequence_def)
  moreover from this have "j = k"
    using assms nth_eq_iff_index_eq [OF assms(2), of j k] by (simp add: ucast_byte_eq)
  ultimately show ?thesis
    by simp
qed

text \<open>The operations of the steps.\<close>

lemma mycpu_bsp:
  assumes "machine_ok b ids s" "mycpu (mpst s) (bsp s) = (r, m)"
  shows "r = Some b \<and> mmio m = mmio (bsp s) \<and> ipis base (accesses m) = ipis base (accesses (bsp s))"
proof -
  obtain s' where "mycpu (mpst s) (bsp s) = (Some b, s')"
      "accesses s' = accesses (bsp s) @ [RdMem (lapic (mpst s) + 0x20)]" "mmio s' = mmio (bsp s)"
    using mycpu_eq [of "mpst s" b "bsp s"] assms(1) by (auto simp: machine_ok_def)
  moreover have "ipis base (accesses (bsp s) @ [RdMem (lapic (mpst s) + 0x20)]) = ipis base (accesses (bsp s)) @ []"
    by (rule ipis_append) simp
  ultimately show ?thesis
    using assms(2) by simp
qed

lemma mmio_frame:
  "mmio (say f args s) = mmio s" "mmio (lidt p n s) = mmio s" "mmio (enable_apic s) = mmio s"
  "mmio (snd (enable_x2apic s)) = mmio s" "mmio (lapicstartap l i a s) = mmio s"
  by (simp_all add: say_def lidt_def enable_apic_def Let_def xapic_write_def mem_write_def
      enable_x2apic_eq lapicstartap_accesses)

lemma mpenter_eq:
  assumes "lapic mp \<noteq> 0" "apic_answers mp (cpu_id_list mp ! k) s"
    and "ncpu mp \<le> length (cpus mp)" "k < ncpu mp" "distinct (cpu_id_list mp)"
  shows "\<exists>s'. mpenter boot_idt mp s = Some (started_flag k 1 mp, s') \<and> mmio s' = mmio s"
proof -
  have me: "\<exists>t'. mycpu mp t = (Some k, t') \<and> mmio t' = mmio s" if "mmio t = mmio s" for t
    using mycpu_eq [of mp k t] that assms by (auto simp: apic_answers_def)
  from me [of s] obtain s1 where s1: "mycpu mp s = (Some k, s1)" "mmio s1 = mmio s"
    by auto
  from me [OF s1(2)] obtain s2 where s2: "mycpu mp s1 = (Some k, s2)" "mmio s2 = mmio s"
    by auto
  let ?t = "enable_apic (lidt boot_idt (sizeof_boot_idt - 1) (say (''cpu%d: starting %d'' @ [CHR 0x0D, CHR 0x0A])
             [VInt (of_nat k), VInt (of_nat k)] s2))"
  have "mmio ?t = mmio s"
    by (simp add: mmio_frame s2)
  from me [OF this] obtain s3 where s3: "mycpu mp ?t = (Some k, s3)" "mmio s3 = mmio s"
    by auto
  show ?thesis
    using s1 s2 s3 by (simp add: mpenter_def cpuid_def xchg_def mmio_frame)
qed

text \<open>Setting a flag keeps the identifiers.\<close>

lemma started_flag_frame:
  "cpu_id_list (started_flag k x mp) = cpu_id_list mp" "ncpu (started_flag k x mp) = ncpu mp"
  "lapic (started_flag k x mp) = lapic mp" "length (cpus (started_flag k x mp)) = length (cpus mp)"
  "apic_answers (started_flag k x mp) = apic_answers mp"
  "k < length (cpus mp) \<Longrightarrow> started (cpus (started_flag k x mp) ! i) = (if i = k then x else started (cpus mp ! i))"
  by (auto simp: started_flag_def cpu_id_list_def map_update_same apic_answers_def fun_eq_iff nth_list_update)

lemma cpu_id_list_nth: "k < ncpu mp \<Longrightarrow> ncpu mp \<le> length (cpus mp) \<Longrightarrow> cpu_id_list mp ! k = apicid (cpus mp ! k)"
  by (simp add: cpu_id_list_def)

lemma boot_inv_start_ap:
  assumes "boot_inv b ids s" "pc s = Check i" "i < ncpu (mpst s)" "i \<noteq> b"
    and "mycpu (mpst s) (bsp s) = (Some b, m)"
  shows "boot_inv b ids
    (s\<lparr>bsp := lapicstartap (lapic (mpst s)) (apicid (cpus (mpst s) ! i)) 0 m, pc := Waiting i\<rparr>)"
proof -
  let ?s = "s\<lparr>bsp := lapicstartap (lapic (mpst s)) (apicid (cpus (mpst s) ! i)) 0 m, pc := Waiting i\<rparr>"
  have ok: "machine_ok b ids s"
    using assms(1) by (simp add: boot_inv_def)
  note m = mycpu_bsp [OF ok assms(5)]
  have id: "apicid (cpus (mpst s) ! i) = ids ! i"
    using ok assms(3) cpu_id_list_nth [of i "mpst s"] by (simp add: machine_ok_def)
  obtain new where new: "ipis (lapic (mpst s)) (accesses (bsp ?s)) = ipis (lapic (mpst s)) (accesses (bsp s)) @ new"
      "map (\<lambda>(d, w). (d, decode_ipi w)) new = start_sequence ids i"
    using lapicstartap_sends [of 0 "lapic (mpst s)" "ids ! i" m] m by (auto simp: id start_sequence_def)
  have "ipis_sent ?s = ipis_sent s @ start_sequence ids i"
    using new by (simp add: ipis_sent_def)
  moreover have "machine_ok b ids ?s"
    using ok m by (simp add: machine_ok_def apic_answers_def mmio_frame)
  ultimately show ?thesis
    using assms ok by (auto simp: boot_inv_def start_sequences_Suc machine_ok_def)
qed

lemma boot_inv_enter_ap:
  assumes "boot_inv b ids s" "k < ncpu (mpst s)"
    and "(ucast (apicid (cpus (mpst s) ! k)), Startup 0) \<in> set (ipis_sent s)"
    and "mpenter boot_idt (mpst s) (aps s k) = Some (mp', m')"
  shows "boot_inv b ids (s\<lparr>mpst := mp', aps := (aps s)(k := m'), entered := insert k (entered s),
      smp_stacktop := rest, esps := (esps s)(k := esp)\<rparr>)"
proof -
  have ok: "machine_ok b ids s"
    using assms(1) by (simp add: boot_inv_def)
  have mp': "mp' = started_flag k 1 (mpst s)" "mmio m' = mmio (aps s k)"
    using mpenter_eq [of "mpst s" k "aps s k" boot_idt] ok assms(2,4) by (auto simp: machine_ok_def)
  have k: "k < sent_to (length ids) (pc s)" "k \<noteq> b"
    using start_sequences_mem [of ids k b "sent_to (length ids) (pc s)"] assms(1-3) ok
      cpu_id_list_nth [of k "mpst s"]
    by (auto simp: boot_inv_def machine_ok_def)
  have "k < length (cpus (mpst s))"
    using ok assms(2) by (simp add: machine_ok_def)
  then show ?thesis
    using assms(1,2) ok k
    by (auto simp: boot_inv_def machine_ok_def mp' started_flag_frame ipis_sent_def)
      (auto simp: apic_answers_def mp')
qed

lemma boot_inv_step:
  assumes "boot_step boot_idt s s'" "boot_inv b ids s"
  shows "boot_inv b ids s'"
  using assms
proof (induction rule: boot_step.induct)
  case (skip_self s i m)
  have ok: "machine_ok b ids s"
    using skip_self by (simp add: boot_inv_def)
  have "i = b" "mmio m = mmio (bsp s)" "ipis (lapic (mpst s)) (accesses m) = ipis (lapic (mpst s)) (accesses (bsp s))"
    using mycpu_bsp [OF ok skip_self(3)] by auto
  then show ?case
    using skip_self ok
    by (auto simp: boot_inv_def machine_ok_def apic_answers_def ipis_sent_def start_sequences_Suc less_Suc_eq)
next
  case (start_ap s i j m)
  have "j = b"
    using mycpu_bsp [OF _ start_ap(3), of b ids] start_ap(5) by (simp add: boot_inv_def)
  then show ?case
    using boot_inv_start_ap [of b ids s i m] start_ap by simp
next
  case (wait_over s i)
  then show ?case
    by (auto simp: boot_inv_def machine_ok_def ipis_sent_def less_Suc_eq split: if_splits)
next
  case (finish s i)
  then show ?case
    by (auto simp: boot_inv_def machine_ok_def ipis_sent_def)
next
  case (enter_ap k s esp rest mp' m')
  then show ?case
    by (intro boot_inv_enter_ap)
qed

text \<open>Stacks are handed out downwards, a page each.\<close>

definition stack_of :: "nat \<Rightarrow> u32" where
  "stack_of j = 0xa0000 - 4096 * of_nat j"

definition stack_inv :: "bootstate \<Rightarrow> bool" where
  "stack_inv s \<longleftrightarrow> finite (entered s) \<and> smp_stacktop s = stack_of (card (entered s)) \<and>
     (\<exists>f. bij_betw f (entered s) {..<card (entered s)} \<and> (\<forall>k\<in>entered s. esps s k = stack_of (f k)))"

lemma stack_inv_step:
  assumes "boot_step boot_idt s s'" "stack_inv s"
  shows "stack_inv s'"
  using assms
proof (induction rule: boot_step.induct)
  case (enter_ap k s esp rest mp' m')
  let ?n = "card (entered s)"
  obtain f where f: "bij_betw f (entered s) {..<?n}" "\<forall>k\<in>entered s. esps s k = stack_of (f k)"
    using enter_ap.prems by (auto simp: stack_inv_def)
  have st: "esp = stack_of ?n" "rest = stack_of (Suc ?n)"
    using enter_ap by (auto simp: take_stack_def stack_inv_def stack_of_def algebra_simps)
  have "bij_betw (f(k := ?n)) (entered s) {..<?n} \<longleftrightarrow> bij_betw f (entered s) {..<?n}"
    using enter_ap.hyps(2) by (intro bij_betw_cong) auto
  then have "bij_betw (f(k := ?n)) (insert k (entered s)) {..<Suc ?n}"
    using notIn_Un_bij_betw [of k "entered s" "f(k := ?n)" "{..<?n}"] enter_ap.hyps(2) f(1)
    by (simp add: lessThan_Suc)
  moreover have "\<forall>i\<in>insert k (entered s). ((esps s)(k := esp)) i = stack_of ((f(k := ?n)) i)"
    using f(2) enter_ap.hyps(2) st by auto
  ultimately show ?case
    using enter_ap.prems enter_ap.hyps(2) st by (auto simp: stack_inv_def)
qed (simp_all add: stack_inv_def)

text \<open>Every step takes the processors further.\<close>

fun boot_position :: "nat \<Rightarrow> boot_pc \<Rightarrow> nat" where
  "boot_position n (Check i) = 2 * i"
| "boot_position n (Waiting i) = 2 * i + 1"
| "boot_position n Finished = 2 * n + 1"

definition boot_measure :: "nat \<Rightarrow> bootstate \<Rightarrow> nat" where
  "boot_measure n s = boot_position n (pc s) + card (entered s)"

lemma boot_measure_step:
  assumes "boot_step boot_idt s s'" "boot_inv b ids s" "stack_inv s"
  shows "boot_measure (length ids) s < boot_measure (length ids) s'"
  using assms
  by (induction rule: boot_step.induct)
    (auto simp: boot_measure_def stack_inv_def boot_inv_def machine_ok_def)

lemma boot_reachable:
  assumes "(boot_step boot_idt)\<^sup>*\<^sup>* s s'" "boot_inv b ids s" "stack_inv s"
  shows "boot_inv b ids s' \<and> stack_inv s'"
  using assms by (induction rule: rtranclp_induct) (blast intro: boot_inv_step stack_inv_step)+

lemma boot_start_stack: "boot_start b ids s \<Longrightarrow> stack_inv s"
  by (simp add: boot_start_def stack_inv_def stack_of_def smp_stacktop0_def bij_betw_def)

lemma boot_measure_le:
  assumes "boot_inv b ids s"
  shows "boot_measure (length ids) s \<le> 3 * length ids + 1"
proof -
  have "entered s \<subseteq> {..<length ids}"
    using assms by (force simp: boot_inv_def)
  from card_mono [OF _ this] have "card (entered s) \<le> length ids"
    by simp
  moreover have "boot_position (length ids) (pc s) \<le> 2 * length ids + 1"
    using assms by (cases "pc s") (auto simp: boot_inv_def)
  ultimately show ?thesis
    by (simp add: boot_measure_def)
qed

lemma boot_progress:
  assumes "boot_inv b ids s" "pc s \<noteq> Finished"
  shows "\<exists>s'. boot_step boot_idt s s'"
proof (cases "pc s")
  case (Check i)
  obtain r m where m: "mycpu (mpst s) (bsp s) = (r, m)"
    by (cases "mycpu (mpst s) (bsp s)")
  have "r = Some b"
    using mycpu_bsp [OF _ m, of b ids] assms(1) by (simp add: boot_inv_def)
  then show ?thesis
    using Check m skip_self [of s i] start_ap [of s i b] finish [of s i]
    by (cases "i < ncpu (mpst s)"; cases "i = b") blast+
next
  case (Waiting i)
  then have i: "i < length ids" "i \<noteq> b" "(ucast (ids ! i), Startup 0) \<in> set (ipis_sent s)"
    using assms(1) by (auto simp: boot_inv_def start_sequences_Suc start_sequence_def)
  have ok: "machine_ok b ids s"
    using assms(1) by (simp add: boot_inv_def)
  show ?thesis
  proof (cases "i \<in> entered s")
    case True
    then show ?thesis
      using assms(1) i Waiting wait_over [of s i] by (auto simp: boot_inv_def)
  next
    case False
    obtain m' where "mpenter boot_idt (mpst s) (aps s i) = Some (started_flag i 1 (mpst s), m')"
      using mpenter_eq [of "mpst s" i "aps s i" boot_idt] ok i by (auto simp: machine_ok_def)
    moreover have "ids ! i = apicid (cpus (mpst s) ! i)"
      using ok i cpu_id_list_nth [of i "mpst s"] by (simp add: machine_ok_def)
    ultimately show ?thesis
      using enter_ap [of i s] False i ok by (fastforce simp: machine_ok_def take_stack_def)
  qed
qed (use assms(2) in simp)

lemma boot_finishes:
  assumes "boot_inv b ids s" "stack_inv s"
  shows "\<exists>s'. (boot_step boot_idt)\<^sup>*\<^sup>* s s' \<and> pc s' = Finished"
  using assms
proof (induction "3 * length ids + 1 - boot_measure (length ids) s" arbitrary: s rule: less_induct)
  case less
  show ?case
  proof (cases "pc s = Finished")
    case False
    then obtain t where t: "boot_step boot_idt s t"
      using boot_progress [OF less.prems(1)] by blast
    have inv: "boot_inv b ids t" "stack_inv t"
      using boot_inv_step [OF t] stack_inv_step [OF t] less.prems by blast+
    have "3 * length ids + 1 - boot_measure (length ids) t < 3 * length ids + 1 - boot_measure (length ids) s"
      using boot_measure_step [OF t less.prems] boot_measure_le [OF inv(1)] by simp
    from less.hyps [OF this inv] t show ?thesis
      by (meson converse_rtranclp_into_rtranclp)
  qed auto
qed

section \<open>Properties\<close>

text \<open>
  C7. However the processors are interleaved, at any time at most one of them has been sent a
  start-up interrupt and is not up yet; and when \<open>startothers\<close> is done every other processor has set
  its flag and exactly one start sequence was sent to each of them, in table order, and none to
  the boot processor.
\<close>

theorem startothers_correct:
  assumes "boot_start b ids s" "(boot_step boot_idt)\<^sup>*\<^sup>* s s'"
  shows "(\<forall>j k. j < length ids \<and> k < length ids \<and> j \<notin> entered s' \<and> k \<notin> entered s' \<and>
      (ucast (ids ! j), Startup 0) \<in> set (ipis_sent s') \<and> (ucast (ids ! k), Startup 0) \<in> set (ipis_sent s') \<longrightarrow>
      j = k) \<and>
    (pc s' = Finished \<longrightarrow>
      (\<forall>k<length ids. k \<noteq> b \<longrightarrow> started (cpus (mpst s') ! k) = 1) \<and>
      ipis_sent s' = start_sequences b ids (length ids))"
proof -
  have inv: "boot_inv b ids s'"
    using boot_reachable [OF assms(2)] boot_start_inv [OF assms(1)] boot_start_stack [OF assms(1)] by blast
  have ids: "distinct ids" "sent_to (length ids) (pc s') \<le> length ids"
    using inv by (auto simp: boot_inv_def machine_ok_def)
  have "k = sent_to (length ids) (pc s') - 1 \<and> 0 < sent_to (length ids) (pc s')"
    if "k < length ids" "k \<notin> entered s'" "(ucast (ids ! k), Startup 0) \<in> set (ipis_sent s')" for k
    using that inv start_sequences_mem [of ids k b "sent_to (length ids) (pc s')"] ids
    by (cases "pc s'") (fastforce simp: boot_inv_def less_Suc_eq)+
  then have "j = k"
    if "j < length ids \<and> k < length ids \<and> j \<notin> entered s' \<and> k \<notin> entered s' \<and>
      (ucast (ids ! j), Startup 0) \<in> set (ipis_sent s') \<and> (ucast (ids ! k), Startup 0) \<in> set (ipis_sent s')" for j k
    using that by metis
  then show ?thesis
    using inv by (auto simp: boot_inv_def)
qed


text \<open>
  C33. The stacks of the processors that are up are different pages, all in the region from
  0x60000 to 0xa0000, for up to \<open>NCPU\<close> processors.
\<close>

theorem ap_stacks_disjoint:
  assumes "boot_start b ids s" "(boot_step boot_idt)\<^sup>*\<^sup>* s s'" "length ids \<le> NCPU"
    and "j \<in> entered s'" "k \<in> entered s'" "j \<noteq> k"
  shows "(unat (esps s' j) + 4096 \<le> unat (esps s' k) \<or> unat (esps s' k) + 4096 \<le> unat (esps s' j)) \<and>
    0x60000 \<le> unat (esps s' j) - 4096 \<and> unat (esps s' j) \<le> 0xa0000"
proof -
  have inv: "boot_inv b ids s'" "stack_inv s'"
    using boot_reachable [OF assms(2)] boot_start_inv [OF assms(1)] boot_start_stack [OF assms(1)] by blast+
  have "entered s' \<subseteq> {..<length ids}"
    using inv(1) by (force simp: boot_inv_def)
  from card_mono [OF _ this] have n: "card (entered s') \<le> 64"
    using assms(3) by (simp add: NCPU_def)
  obtain f where f: "bij_betw f (entered s') {..<card (entered s')}" "\<forall>k\<in>entered s'. esps s' k = stack_of (f k)"
    using inv(2) by (auto simp: stack_inv_def)
  have lt: "f i < 64" if "i \<in> entered s'" for i
    using bij_betwE [OF f(1)] that n by fastforce
  have "unat (stack_of i) = 0xa0000 - 4096 * i" if "i < 64" for i
  proof -
    have "stack_of i = of_nat (0xa0000 - 4096 * i)"
      using that by (simp add: stack_of_def of_nat_diff)
    then show ?thesis
      by (simp add: unsigned_of_nat take_bit_nat_eq_self)
  qed
  moreover have "f j \<noteq> f k"
    using f(1) assms(4-6) by (auto simp: bij_betw_def inj_on_def)
  ultimately show ?thesis
    using f(2) assms(4,5) lt [OF assms(4)] lt [OF assms(5)] by auto
qed

section \<open>Witnesses\<close>

text \<open>Three processors with identifiers 0, 5 and 7, of which the first boots.\<close>

definition example_cpu :: "byte \<Rightarrow> machine" where
  "example_cpu aid = quiet_machine\<lparr>mmio := \<lambda>_ _. push_bit 24 (ucast aid)\<rparr>"

definition example_boot :: bootstate where
  "example_boot = \<lparr>mpst = \<lparr>cpus = map (\<lambda>i. \<lparr>apicid = i, started = 0\<rparr>) [0, 5, 7], ncpu = 3, ioapicid = 0,
       lapic = 0xFEE00000, mp_printed = []\<rparr>,
     bsp = example_cpu 0, aps = \<lambda>k. example_cpu ([0, 5, 7] ! k), pc = Check 0, entered = {},
     smp_stacktop = smp_stacktop0, esps = \<lambda>_. 0\<rparr>"

lemma example_cpu_answers: "apic_answers mp aid (example_cpu aid)"
proof -
  have "drop_bit 24 (push_bit 24 (ucast aid)) = (ucast aid :: u32)"
    by (rule bit_word_eqI) (auto simp: bit_simps dest: bit_imp_le_length)
  then show ?thesis
    by (simp add: apic_answers_def example_cpu_def)
qed

lemma example_boot_start: "boot_start 0 [0, 5, 7] example_boot"
proof -
  have "accesses (example_cpu aid) = []" for aid
    by (simp add: example_cpu_def quiet_machine_def)
  then show ?thesis
    by (simp add: example_cpu_answers boot_start_def machine_ok_def example_boot_def cpu_id_list_def ipis_sent_def ipis_def
        All_less_Suc)
qed

lemma example_boot_finishes:
  obtains s' where "(boot_step 0)\<^sup>*\<^sup>* example_boot s'" "pc s' = Finished"
  using boot_finishes [OF boot_start_inv [OF example_boot_start] boot_start_stack [OF example_boot_start]]
  by blast

theorem startothers_witness:
  "\<exists>s'. (boot_step 0)\<^sup>*\<^sup>* example_boot s' \<and> pc s' = Finished \<and> started (cpus (mpst s') ! 2) = 1"
proof -
  obtain s' where "(boot_step 0)\<^sup>*\<^sup>* example_boot s'" "pc s' = Finished"
    by (rule example_boot_finishes)
  with startothers_correct [OF example_boot_start this(1)] show ?thesis
    by auto
qed


theorem ap_stacks_witness:
  "\<exists>s'. (boot_step 0)\<^sup>*\<^sup>* example_boot s' \<and>
     (unat (esps s' 1) + 4096 \<le> unat (esps s' 2) \<or> unat (esps s' 2) + 4096 \<le> unat (esps s' 1))"
proof -
  obtain s' where s': "(boot_step 0)\<^sup>*\<^sup>* example_boot s'" "pc s' = Finished"
    by (rule example_boot_finishes)
  have "boot_inv 0 [0, 5, 7] s'"
    using boot_reachable [OF s'(1) boot_start_inv [OF example_boot_start] boot_start_stack [OF example_boot_start]]
    by blast
  then have "1 \<in> entered s'" "2 \<in> entered s'"
    using s'(2) by (auto simp: boot_inv_def)
  from ap_stacks_disjoint [OF example_boot_start s'(1) _ this] s'(1) show ?thesis
    by (auto simp: NCPU_def)
qed

end
