(* ===== verification/Bootmap.thy ===== *)
theory Bootmap
  imports Paging
begin

text \<open>
  The page tables the kernel is loaded with (the data of \<open>x86_64/cstart.S\<close>): \<open>prepare_64\<close> loads
  their root into cr3 on every processor. The translation is the one of \<open>Paging\<close>.
\<close>

section \<open>The tables\<close>

definition ptl2_quad :: "nat \<Rightarrow> u64" where
  "ptl2_quad i = 0x1e7 OR push_bit 21 (of_nat i)"

text \<open>
  The quadwords from the label \<open>ptl2\<close> on: four tables of 512 entries, \<open>ptl3\<close> and \<open>ptl4\<close>, each
  padded to a page. The labels are where the linker puts them.
\<close>

definition boot_quads :: "addr \<Rightarrow> u64 list" where
  "boot_quads ptl2 =
     map ptl2_quad [0..<512 * 4] @
     [ptl2 + 7 + 0 * 4096, ptl2 + 7 + 1 * 4096, ptl2 + 7 + 2 * 4096, ptl2 + 7 + 3 * 4096] @ replicate 508 0 @
     [ptl2 + 0x4000 + 7] @ replicate 511 0"

definition boot_root :: "addr \<Rightarrow> addr" where
  "boot_root ptl2 = ptl2 + 0x5000"

text \<open>The image in memory.\<close>

definition boot_image :: "mem \<Rightarrow> addr \<Rightarrow> bool" where
  "boot_image m ptl2 \<longleftrightarrow> (\<forall>i<length (boot_quads ptl2). load64 m (ptl2 + 8 * of_nat i) = boot_quads ptl2 ! i)"

section \<open>Its entries\<close>

lemma boot_quad:
  "boot_image m ptl2 \<Longrightarrow> i < 3072 \<Longrightarrow> load64 m (ptl2 + 8 * of_nat i) = boot_quads ptl2 ! i"
  by (simp add: boot_image_def boot_quads_def)

lemma ptl2_entry:
  assumes "boot_image m ptl2" "j < 4" "i < 512"
  shows "entry m (ptl2 + 4096 * of_nat j) i = ptl2_quad (512 * j + i)"
proof -
  have "ptl2 + 4096 * of_nat j + 8 * of_nat i = ptl2 + 8 * of_nat (512 * j + i)"
    by (simp add: algebra_simps)
  moreover have "512 * j + i < 2048"
    using assms by simp
  ultimately show ?thesis
    using boot_quad [OF assms(1), of "512 * j + i"] by (simp add: entry_def boot_quads_def nth_append add.assoc)
qed

lemma ptl3_entry:
  assumes "boot_image m ptl2" "i < 512"
  shows "entry m (ptl2 + 0x4000) i = (if i < 4 then ptl2 + 7 + 4096 * of_nat i else 0)"
proof -
  have "ptl2 + 0x4000 + 8 * of_nat i = ptl2 + 8 * of_nat (2048 + i)"
    by (simp add: algebra_simps)
  moreover have "boot_quads ptl2 ! (2048 + i) = (if i < 4 then ptl2 + 7 + 4096 * of_nat i else 0)"
  proof (cases "i < 4")
    case True
    then consider "i = 0" | "i = 1" | "i = 2" | "i = 3"
      by linarith
    then show ?thesis
      by cases (simp_all add: boot_quads_def nth_append)
  next
    case False
    then show ?thesis
      using assms(2) by (auto simp: boot_quads_def nth_append nth_Cons')
  qed
  ultimately show ?thesis
    using boot_quad [OF assms(1), of "2048 + i"] assms(2) by (simp add: entry_def add.assoc)
qed

lemma ptl4_entry:
  assumes "boot_image m ptl2" "i < 512"
  shows "entry m (boot_root ptl2) i = (if i = 0 then ptl2 + 0x4000 + 7 else 0)"
proof -
  have "boot_root ptl2 + 8 * of_nat i = ptl2 + 8 * of_nat (2560 + i)"
    by (simp add: boot_root_def algebra_simps)
  moreover have "boot_quads ptl2 ! (2560 + i) = (if i = 0 then ptl2 + 0x4000 + 7 else 0)"
    using assms(2) by (simp add: boot_quads_def nth_append nth_Cons')
  ultimately show ?thesis
    using boot_quad [OF assms(1), of "2560 + i"] assms(2) by (simp add: entry_def add.assoc)
qed

lemma aligned_plus_7:
  assumes "page_aligned p"
  shows "p + 7 = p OR 7"
proof (rule disjunctive_add_eq_or, rule bit_word_eqI)
  fix n
  show "bit (p AND 7) n = bit (0 :: u64) n"
    using assms unfolding bit_and_iff bit_7 by (auto simp: page_aligned_bit)
qed

lemma boot_frame:
  assumes "n < 2048"
  shows "leaf 1 (ptl2_quad n) v = Some (push_bit 21 (of_nat n) OR (v AND mask 21))"
    "\<not> is_table 1 (ptl2_quad n)"
proof -
  let ?x = "of_nat n :: u64"
  have x: "k < 11" if "bit ?x k" for k
    using that assms by (intro bit_below [OF that]) simp
  have flags: "k < 9" if "bit (0x1e7 :: u64) k" for k
    using that by (intro bit_below [OF that]) simp
  have "ptl2_quad n AND PT_ADDR_MASK AND NOT (mask 21) = push_bit 21 ?x"
  proof (rule bit_word_eqI)
    fix k
    assume "k < LENGTH(64)"
    then show "bit (ptl2_quad n AND PT_ADDR_MASK AND NOT (mask 21)) k = bit (push_bit 21 ?x) k"
      using flags [of k] x [of "k - 21"]
      unfolding ptl2_quad_def bit_and_iff bit_or_iff bit_not_iff bit_mask_iff bit_push_bit_iff bit_PT_ADDR_MASK
      by auto
  qed
  moreover have "bit (ptl2_quad n) 0" "bit (ptl2_quad n) 7"
    by (simp_all add: ptl2_quad_def bit_or_iff bit_push_bit_iff)
  ultimately show "leaf 1 (ptl2_quad n) v = Some (push_bit 21 (of_nat n) OR (v AND mask 21))"
    "\<not> is_table 1 (ptl2_quad n)"
    by (simp_all add: leaf_def is_table_def)
qed

section \<open>The translation\<close>

text \<open>An address below 4 GiB is its directory and table index and its offset.\<close>

lemma identity_frame:
  assumes "vpn v < 1048576"
  shows "push_bit 21 (of_nat (512 * idx v 3 + idx v 2)) OR (v AND mask 21) = take_bit 48 v"
proof -
  have "vpn v div 262144 mod 512 = vpn v div 262144"
    using assms by (simp add: less_mult_imp_div_less)
  moreover have "vpn v div 262144 = vpn v div 512 div 512"
    by (simp add: div_mult2_eq [symmetric])
  ultimately have n: "512 * idx v 3 + idx v 2 = vpn v div 512"
    by (simp add: idx_vpn)
  have "vpn v div 512 = unat (drop_bit 9 (take_bit 36 (drop_bit 12 v)))"
    unfolding vpn_def unat_drop_bit_eq by (simp add: drop_bit_nat_def)
  then have "of_nat (vpn v div 512) = drop_bit 9 (take_bit 36 (drop_bit 12 v))"
    by simp
  then show ?thesis
    unfolding n by (simp only:) (rule bit_word_eqI, auto simp: bit_simps)
qed

text \<open>
  The tables in the kernel image translate every address below 4 GiB to itself and no other
  address, wherever the linker puts them below 4 GiB.
\<close>

theorem boot_tables_identity:
  assumes "boot_image m ptl2" "page_aligned ptl2" "unat ptl2 + 0x6000 \<le> 2 ^ 32"
  shows "walk m 4 (boot_root ptl2) v = (if vpn v < 1048576 then Some (take_bit 48 v) else None)"
proof -
  have phys: "page_aligned (ptl2 + 4096 * of_nat j)" "(ptl2 + 4096 * of_nat j) AND PT_ADDR_MASK = ptl2 + 4096 * of_nat j"
    if "j < 6" for j
  proof -
    have "unat (4096 * of_nat j :: u64) = 4096 * j"
      using that unat_of_nat_u64 [of "4096 * j"] by simp
    then show "page_aligned (ptl2 + 4096 * of_nat j)"
      by (intro page_aligned_add assms(2)) (simp add: page_aligned_unat)
    then show "(ptl2 + 4096 * of_nat j) AND PT_ADDR_MASK = ptl2 + 4096 * of_nat j"
      using assms(3) that unat_plus_of_nat [of ptl2 "4096 * j"] by (intro masked_id) simp_all
  qed
  have ptr: "is_table l (ptl2 + 4096 * of_nat j + 7)" "(ptl2 + 4096 * of_nat j + 7) AND PT_ADDR_MASK = ptl2 + 4096 * of_nat j"
    if "j < 6" "0 < l" for j l
    using table_entry(1) [OF phys(2) [OF that(1)]] table_entry(2) [OF phys(2) [OF that(1)] that(2)]
    by (simp_all add: aligned_plus_7 [OF phys(1) [OF that(1)]])
  have none: "\<not> is_table l 0" "leaf l 0 v = None" for l
    by (simp_all add: is_table_def leaf_def)
  have w2: "walk m 2 (ptl2 + 4096 * of_nat (idx v 3)) v = Some (take_bit 48 v)" if "vpn v < 1048576"
  proof -
    have "idx v 3 < 4"
      using that by (simp add: idx_vpn less_mult_imp_div_less)
    then show ?thesis
      using walk.simps(2) [of m 1 "ptl2 + 4096 * of_nat (idx v 3)" v] ptl2_entry [OF assms(1) _ idx_less, of "idx v 3" v 2]
        boot_frame(1) [of "512 * idx v 3 + idx v 2" v] boot_frame(2) [of "512 * idx v 3 + idx v 2"] identity_frame [OF that] idx_less [of v 2]
      by (simp add: numeral_2_eq_2 [symmetric] del: walk.simps of_nat_add of_nat_mult)
  qed
  have w3: "walk m 3 (ptl2 + 0x4000) v = (if vpn v < 1048576 then Some (take_bit 48 v) else None)"
    if "idx v 4 = 0"
  proof -
    have "vpn v < 134217728"
      using that by (simp add: idx_vpn div_eq_0_iff)
    then have "idx v 3 = vpn v div 262144"
      by (simp add: idx_vpn less_mult_imp_div_less)
    then have "idx v 3 < 4 \<longleftrightarrow> vpn v < 1048576"
      by (simp add: div_less_iff_less_mult)
    moreover have e: "ptl2 + 7 + 4096 * of_nat (idx v 3) = ptl2 + 4096 * of_nat (idx v 3) + 7"
      by simp
    ultimately show ?thesis
      using walk.simps(2) [of m 2 "ptl2 + 0x4000" v] w2 ptl3_entry [OF assms(1) idx_less, of v 3] none
        ptr [of "idx v 3" 2]
      by (auto simp: e Let_def simp del: walk.simps)
  qed
  show ?thesis
    using walk.simps(2) [of m 3 "boot_root ptl2" v] w3 ptr(1) [of 4 3] ptr(2) [of 4 3] none
      ptl4_entry [OF assms(1) idx_less, of v 4]
    by (auto simp: idx_vpn)
qed

section \<open>Witness\<close>

text \<open>The image as the loader writes it, here at 2 MiB.\<close>

definition put_quads :: "addr \<Rightarrow> u64 list \<Rightarrow> mem" where
  "put_quads a qs = fold (\<lambda>(i, q) m. store64 m (a + 8 * of_nat i) q) (enumerate 0 qs) (\<lambda>_. 0)"

lemma quads_apart:
  fixes a :: u64
  assumes "i < n" "8 * n + 8 < 18446744073709551616"
  shows "disj (a + 8 * of_nat i) 8 (a + 8 * of_nat n) 8"
proof (rule disj_apart)
  have n: "unat (8 * of_nat n :: u64) = 8 * n" and i: "unat (8 * of_nat i :: u64) = 8 * i"
    using assms unat_of_nat_u64 [of "8 * n"] unat_of_nat_u64 [of "8 * i"] by simp_all
  have "a + 8 * of_nat n - (a + 8 * of_nat i) = 8 * of_nat n - 8 * of_nat i"
    "a + 8 * of_nat i - (a + 8 * of_nat n) = 8 * of_nat i - (8 * of_nat n :: u64)"
    by simp_all
  then show "8 \<le> unat (a + 8 * of_nat n - (a + 8 * of_nat i))"
    "8 \<le> unat (a + 8 * of_nat i - (a + 8 * of_nat n))"
    using assms by (simp_all only: unat_diff_split n i) auto
qed

lemma put_quads_load:
  assumes "8 * length qs + 8 < 18446744073709551616" "i < length qs"
  shows "load64 (put_quads a qs) (a + 8 * of_nat i) = qs ! i"
  using assms
proof (induction qs rule: rev_induct)
  case (snoc q qs)
  show ?case
  proof (cases "i = length qs")
    case False
    then have "i < length qs"
      using snoc.prems by simp
    moreover have "load64 (store64 (put_quads a qs) (a + 8 * of_nat (length qs)) q) (a + 8 * of_nat i) =
        load64 (put_quads a qs) (a + 8 * of_nat i)"
      using quads_apart [OF \<open>i < length qs\<close>] snoc.prems(1) by (intro load64_store64_disj) simp
    ultimately show ?thesis
      using snoc by (simp add: put_quads_def enumerate_append_eq nth_append)
  qed (simp add: put_quads_def enumerate_append_eq nth_append)
qed simp

theorem boot_tables_witness:
  "walk (put_quads 0x200000 (boot_quads 0x200000)) 4 0x205000 0xFEE00020 = Some 0xFEE00020"
proof -
  have "boot_image (put_quads 0x200000 (boot_quads 0x200000)) 0x200000"
    unfolding boot_image_def by (intro allI impI put_quads_load) (simp_all add: boot_quads_def)
  from boot_tables_identity [OF this, of "0xFEE00020"] show ?thesis
    by (simp add: page_aligned_def boot_root_def vpn_def take_bit_eq_mask mask_eq_exp_minus_1)
qed

end
