(* ===== verification/Desc.thy ===== *)
theory Desc
  imports Cpu "HOL-Library.Sublist"
begin

text \<open>
  Exceptions (\<open>x86_64/desc.c\<close> with \<open>include/desc.h\<close>): the gates of the interrupt table, the entry
  stubs and the register frame they build, the dispatch to handlers and the table of instructions
  that may fault. Addresses the linker chooses (the stubs, \<open>boot_idt\<close>, the exception table) and the
  handlers other code registers are arguments.
\<close>

section \<open>The gates of the interrupt table\<close>

text \<open>\<open>idt_entry_t\<close>, each field at its width; the unnamed bits are always zero.\<close>

record idt_entry =
  offset0 :: u16
  selector :: u16
  ist :: "3 word"
  gate_type :: "4 word"
  dpl :: "2 word"
  present :: "1 word"
  offset1 :: u16
  offset2 :: u32
  reserved_word :: u32

definition null_gate :: idt_entry where
  "null_gate = \<lparr>offset0 = 0, selector = 0, ist = 0, gate_type = 0, dpl = 0, present = 0, offset1 = 0,
     offset2 = 0, reserved_word = 0\<rparr>"

text \<open>The two quadwords of an entry in memory.\<close>

definition gate_lo :: "idt_entry \<Rightarrow> u64" where
  "gate_lo e =
     ucast (offset0 e) OR push_bit 16 (ucast (selector e)) OR push_bit 32 (ucast (ist e)) OR
     push_bit 40 (ucast (gate_type e)) OR push_bit 45 (ucast (dpl e)) OR push_bit 47 (ucast (present e)) OR
     push_bit 48 (ucast (offset1 e))"

definition gate_hi :: "idt_entry \<Rightarrow> u64" where
  "gate_hi e = ucast (offset2 e) OR push_bit 32 (ucast (reserved_word e))"

section \<open>Registers and state\<close>

text \<open>\<open>struct ex_regs\<close>.\<close>

record ex_regs =
  rax :: u64
  rcx :: u64
  rdx :: u64
  rbx :: u64
  dummy :: u64
  rbp :: u64
  rsi :: u64
  rdi :: u64
  r8 :: u64
  r9 :: u64
  r10 :: u64
  r11 :: u64
  r12 :: u64
  r13 :: u64
  r14 :: u64
  r15 :: u64
  vec :: u64
  error_code :: u64
  rip :: u64
  cs_sel :: u64
  rflags :: u64

text \<open>A function pointer to the one handler of this file, or to one of another file.\<close>

datatype handler = Check_exception_table | Other_handler nat

text \<open>\<open>gs4\<close> is the word at gs:4 of the processor.\<close>

record desc =
  boot_idt :: "idt_entry list"
  exception_handlers :: "handler option list"
  idt_initialized :: bool
  gs4 :: u32
  cpu :: machine

text \<open>What a handler can do: come back, or stay in a loop for ever in the state given.\<close>

datatype outcome = Returns ex_regs desc | Hangs desc

section \<open>The functions\<close>

text \<open>\<open>None\<close> when \<open>vec\<close> is not an index of the array.\<close>

definition set_idt_entry :: "nat \<Rightarrow> u64 \<Rightarrow> u32 \<Rightarrow> desc \<Rightarrow> desc option" where
  "set_idt_entry i addr level s =
     (if i < length (boot_idt s) then
        let e = null_gate;
            e = e\<lparr>offset0 := ucast addr\<rparr>;
            e = e\<lparr>selector := read_cs (cpu s)\<rparr>;
            e = e\<lparr>ist := 0\<rparr>;
            e = e\<lparr>gate_type := 14\<rparr>;
            e = e\<lparr>dpl := ucast level\<rparr>;
            e = e\<lparr>present := 1\<rparr>;
            e = e\<lparr>offset1 := ucast (drop_bit 16 addr)\<rparr>;
            e = e\<lparr>offset2 := ucast (drop_bit 32 addr)\<rparr>
        in Some (s\<lparr>boot_idt := (boot_idt s)[i := e]\<rparr>)
      else None)"

definition exception_mnemonic :: "u32 \<Rightarrow> string" where
  "exception_mnemonic v =
     (if v = 0 then ''#DE'' else if v = 1 then ''#DB'' else if v = 2 then ''#NMI'' else if v = 3 then ''#BP''
      else if v = 4 then ''#OF'' else if v = 5 then ''#BR'' else if v = 6 then ''#UD'' else if v = 7 then ''#NM''
      else if v = 8 then ''#DF'' else if v = 10 then ''#TS'' else if v = 11 then ''#NP''
      else if v = 12 then ''#SS'' else if v = 13 then ''#GP'' else if v = 14 then ''#PF''
      else if v = 16 then ''#MF'' else if v = 17 then ''#AC'' else if v = 18 then ''#MC''
      else if v = 19 then ''#XM'' else ''#??'')"

definition desc_say :: "string \<Rightarrow> va_arg list \<Rightarrow> desc \<Rightarrow> desc" where
  "desc_say fmt args s = s\<lparr>cpu := say fmt args (cpu s)\<rparr>"

definition unhandled_exception :: "ex_regs \<Rightarrow> bool \<Rightarrow> desc \<Rightarrow> outcome" where
  "unhandled_exception regs from_cpu s =
     (let s = desc_say ''Unhandled %sexception %ld %s at ip %016lx\<newline>''
            [VStr (bytes_of (if from_cpu then ''cpu '' else '''') @ [0]), VInt (vec regs),
             VStr (bytes_of (exception_mnemonic (ucast (vec regs))) @ [0]), VInt (rip regs)] s;
          s = (if vec regs = 14
               then desc_say ''PF at %#lx addr %#lx\<newline>'' [VInt (rip regs), VInt (read_cr2 (cpu s))] s else s);
          s = desc_say (''error_code=%04lx      rflags=%08lx      cs=%08lx\<newline>'' @
              ''rax=%016lx rcx=%016lx rdx=%016lx rbx=%016lx\<newline>'' @
              ''rbp=%016lx rsi=%016lx rdi=%016lx\<newline>'' @
              '' r8=%016lx  r9=%016lx r10=%016lx r11=%016lx\<newline>'' @
              ''r12=%016lx r13=%016lx r14=%016lx r15=%016lx\<newline>'' @
              ''cr0=%016lx cr2=%016lx cr3=%016lx cr4=%016lx\<newline>'' @
              ''cr8=%016lx\<newline>'')
            (map VInt [error_code regs, rflags regs, cs_sel regs, rax regs, rcx regs, rdx regs, rbx regs,
              rbp regs, rsi regs, rdi regs, r8 regs, r9 regs, r10 regs, r11 regs, r12 regs, r13 regs, r14 regs,
              r15 regs, read_cr0 (cpu s), read_cr2 (cpu s), read_cr3 (cpu s), read_cr4 (cpu s),
              read_cr8 (cpu s)]) s
      in Hangs s)"

text \<open>The records between \<open>exception_table_start\<close> and \<open>exception_table_end\<close>.\<close>

record ex_record =
  ex_rip :: u64
  ex_handler :: u64

fun search_table :: "ex_record list \<Rightarrow> u64 \<Rightarrow> u64 option" where
  "search_table [] a = None"
| "search_table (ex # exs) a = (if ex_rip ex = a then Some (ex_handler ex) else search_table exs a)"

definition check_exception_table :: "ex_record list \<Rightarrow> ex_regs \<Rightarrow> desc \<Rightarrow> outcome" where
  "check_exception_table table regs s =
     (let ex_val = ucast (vec regs OR push_bit 16 (error_code regs) OR
            push_bit 8 (drop_bit 16 (rflags regs) AND 1));
          s = s\<lparr>gs4 := ex_val\<rparr>
      in case search_table table (rip regs) of
           Some h \<Rightarrow> Returns (regs\<lparr>rip := h\<rparr>) s
         | None \<Rightarrow> unhandled_exception regs False s)"

definition handle_exception :: "u8 \<Rightarrow> handler option \<Rightarrow> desc \<Rightarrow> handler option \<times> desc" where
  "handle_exception v fn s =
     (let old = exception_handlers s ! unat v
      in (old, if uint v < 256 then s\<lparr>exception_handlers := (exception_handlers s)[unat v := fn]\<rparr> else s))"

text \<open>\<open>others\<close> is what the handlers of other files do.\<close>

fun call_handler :: "ex_record list \<Rightarrow> (nat \<Rightarrow> ex_regs \<Rightarrow> desc \<Rightarrow> outcome) \<Rightarrow> handler \<Rightarrow> ex_regs \<Rightarrow> desc \<Rightarrow> outcome" where
  "call_handler table others Check_exception_table regs s = check_exception_table table regs s"
| "call_handler table others (Other_handler n) regs s = others n regs s"

definition do_handle_exception :: "ex_record list \<Rightarrow> (nat \<Rightarrow> ex_regs \<Rightarrow> desc \<Rightarrow> outcome) \<Rightarrow> ex_regs \<Rightarrow> desc \<Rightarrow> outcome" where
  "do_handle_exception table others regs s =
     (if vec regs < 256 then
        case exception_handlers s ! unat (vec regs) of
          Some h \<Rightarrow> call_handler table others h regs s
        | None \<Rightarrow> unhandled_exception regs True s
      else unhandled_exception regs True s)"

definition exception_vector :: "desc \<Rightarrow> u32" where
  "exception_vector s = ucast (ucast (gs4 s) :: u8)"

definition exception_rflags_rf :: "desc \<Rightarrow> bool" where
  "exception_rflags_rf s \<longleftrightarrow> (ucast (drop_bit 8 (gs4 s)) :: u8) AND 1 \<noteq> 0"

section \<open>The stubs\<close>

text \<open>\<open>EX(NAME, N)\<close> pushes a zero in place of an error code, \<open>EX_E(NAME, N)\<close> does not.\<close>

datatype stub = EX_0 nat | EX_E nat

definition idt_handlers :: "nat \<Rightarrow> stub option" where
  "idt_handlers = [0 \<mapsto> EX_0 0, 1 \<mapsto> EX_0 1, 2 \<mapsto> EX_0 2, 3 \<mapsto> EX_0 3, 4 \<mapsto> EX_0 4, 5 \<mapsto> EX_0 5, 6 \<mapsto> EX_0 6, 7 \<mapsto> EX_0 7,
     8 \<mapsto> EX_E 8, 10 \<mapsto> EX_E 10, 11 \<mapsto> EX_E 11, 12 \<mapsto> EX_E 12, 13 \<mapsto> EX_E 13, 14 \<mapsto> EX_E 14,
     16 \<mapsto> EX_0 16, 17 \<mapsto> EX_E 17, 18 \<mapsto> EX_0 18, 19 \<mapsto> EX_0 19]"

text \<open>The stack, its top first. The slot of \<open>sub $8, %rsp\<close> keeps what memory held there.\<close>

fun stub_pushes :: "stub \<Rightarrow> u64 list \<Rightarrow> u64 list" where
  "stub_pushes (EX_0 n) st = of_nat n # 0 # st"
| "stub_pushes (EX_E n) st = of_nat n # st"

record gprs =
  g_rax :: u64
  g_rcx :: u64
  g_rdx :: u64
  g_rbx :: u64
  g_rbp :: u64
  g_rsi :: u64
  g_rdi :: u64
  g_r8 :: u64
  g_r9 :: u64
  g_r10 :: u64
  g_r11 :: u64
  g_r12 :: u64
  g_r13 :: u64
  g_r14 :: u64
  g_r15 :: u64

definition push_all :: "u64 list \<Rightarrow> u64 list \<Rightarrow> u64 list" where
  "push_all xs st = fold (#) xs st"

definition save_regs :: "gprs \<Rightarrow> u64 \<Rightarrow> u64 list \<Rightarrow> u64 list" where
  "save_regs g junk st =
     (let st = push_all [g_r15 g, g_r14 g, g_r13 g, g_r12 g] st;
          st = push_all [g_r11 g, g_r10 g, g_r9 g, g_r8 g] st;
          st = junk # push_all [g_rdi g, g_rsi g, g_rbp g] st
      in push_all [g_rbx g, g_rdx g, g_rcx g, g_rax g] st)"

text \<open>\<open>struct ex_regs\<close> at the top of the stack, as it is read and as it is left.\<close>

definition regs_at :: "u64 list \<Rightarrow> ex_regs" where
  "regs_at st = \<lparr>rax = st ! 0, rcx = st ! 1, rdx = st ! 2, rbx = st ! 3, dummy = st ! 4, rbp = st ! 5,
     rsi = st ! 6, rdi = st ! 7, r8 = st ! 8, r9 = st ! 9, r10 = st ! 10, r11 = st ! 11, r12 = st ! 12,
     r13 = st ! 13, r14 = st ! 14, r15 = st ! 15, vec = st ! 16, error_code = st ! 17, rip = st ! 18,
     cs_sel = st ! 19, rflags = st ! 20\<rparr>"

definition write_regs :: "ex_regs \<Rightarrow> u64 list \<Rightarrow> u64 list" where
  "write_regs r st =
     [rax r, rcx r, rdx r, rbx r, dummy r, rbp r, rsi r, rdi r, r8 r, r9 r, r10 r, r11 r, r12 r, r13 r, r14 r,
      r15 r, vec r, error_code r, rip r, cs_sel r, rflags r] @ drop 21 st"

text \<open>The pops of \<open>__handle_exception\<close>, which end at the frame of \<open>iretq\<close>.\<close>

fun restore_regs :: "u64 list \<Rightarrow> (gprs \<times> u64 list) option" where
  "restore_regs (xa # xc # xd # xb # _ # xbp # xsi # xdi # x8 # x9 # x10 # x11 # x12 # x13 # x14 # x15 # _ # _ # st) =
     Some (\<lparr>g_rax = xa, g_rcx = xc, g_rdx = xd, g_rbx = xb, g_rbp = xbp, g_rsi = xsi, g_rdi = xdi, g_r8 = x8,
       g_r9 = x9, g_r10 = x10, g_r11 = x11, g_r12 = x12, g_r13 = x13, g_r14 = x14, g_r15 = x15\<rparr>, st)"
| "restore_regs _ = None"

datatype fault_result = Resumed gprs "u64 list" desc | Stays desc

text \<open>From the first instruction of a stub to the \<open>iretq\<close>.\<close>

definition handle_fault :: "ex_record list \<Rightarrow> (nat \<Rightarrow> ex_regs \<Rightarrow> desc \<Rightarrow> outcome) \<Rightarrow> stub \<Rightarrow> gprs \<Rightarrow> u64 \<Rightarrow> u64 list \<Rightarrow> desc \<Rightarrow>
    fault_result option" where
  "handle_fault table others stub g junk st s =
     (let st = stub_pushes stub st;
          st = save_regs g junk st
      in case do_handle_exception table others (regs_at st) s of
           Returns r s \<Rightarrow> map_option (\<lambda>(g, st). Resumed g st s) (restore_regs (write_regs r st))
         | Hangs s \<Rightarrow> Some (Stays s))"

section \<open>Setting up\<close>

text \<open>\<open>stub_addr\<close> are the addresses of the stubs, \<open>idt_addr\<close> that of the table.\<close>

definition install_stubs :: "(nat \<Rightarrow> u64) \<Rightarrow> nat \<Rightarrow> desc \<Rightarrow> desc option" where
  "install_stubs stub_addr n s =
     fold (\<lambda>i r. do { s \<leftarrow> r; if idt_handlers i \<noteq> None then set_idt_entry i (stub_addr i) 0 s else Some s })
       [0..<n] (Some s)"

definition setup_idt :: "(nat \<Rightarrow> u64) \<Rightarrow> u64 \<Rightarrow> desc \<Rightarrow> desc option" where
  "setup_idt stub_addr idt_addr s =
     (if idt_initialized s then Some s
      else do { let s = s\<lparr>idt_initialized := True\<rparr>;
                s \<leftarrow> install_stubs stub_addr 32 s;
                let (_, s) = handle_exception 0 (Some Check_exception_table) s;
                let (_, s) = handle_exception 6 (Some Check_exception_table) s;
                let (_, s) = handle_exception 13 (Some Check_exception_table) s;
                Some (s\<lparr>cpu := lidt idt_addr (256 * 16) (cpu s)\<rparr>) })"

section \<open>Gates\<close>

text \<open>How the processor reads a gate.\<close>

definition gate_target :: "u64 \<Rightarrow> u64 \<Rightarrow> u64" where
  "gate_target lo hi = take_bit 16 lo OR push_bit 16 (drop_bit 48 lo) OR push_bit 32 (take_bit 32 hi)"

definition gate_selector :: "u64 \<Rightarrow> u16" where
  "gate_selector lo = ucast (drop_bit 16 lo)"

definition gate_kind :: "u64 \<Rightarrow> u8" where
  "gate_kind lo = ucast (drop_bit 40 lo)"

text \<open>The entry \<open>set_idt_entry\<close> writes.\<close>

definition gate_for :: "u64 \<Rightarrow> u16 \<Rightarrow> u32 \<Rightarrow> idt_entry" where
  "gate_for addr sel level = \<lparr>offset0 = ucast addr, selector = sel, ist = 0, gate_type = 14, dpl = ucast level,
     present = 1, offset1 = ucast (drop_bit 16 addr), offset2 = ucast (drop_bit 32 addr), reserved_word = 0\<rparr>"

lemma set_idt_entry_eq:
  "set_idt_entry i addr level s =
     (if i < length (boot_idt s)
      then Some (s\<lparr>boot_idt := (boot_idt s)[i := gate_for addr (read_cs (cpu s)) level]\<rparr>) else None)"
  by (simp add: set_idt_entry_def gate_for_def null_gate_def)

text \<open>The bits of the low quadword.\<close>

lemma gate_lo_bits:
  fixes addr :: u64 and sel :: u16 and level :: u32
  defines "lo \<equiv> gate_lo (gate_for addr sel level)"
  shows "k < 16 \<Longrightarrow> bit lo k = bit addr k"
    "k < 16 \<Longrightarrow> bit lo (16 + k) = bit sel k"
    "k < 8 \<Longrightarrow> bit lo (40 + k) = (k \<in> {1, 2, 3, 7} \<or> k \<in> {5, 6} \<and> bit level (k - 5))"
    "k < 16 \<Longrightarrow> bit lo (48 + k) = bit addr (16 + k)"
proof -
  note defs = lo_def gate_lo_def gate_for_def idt_entry.select_convs bit_or_iff bit_push_bit_iff bit_ucast_iff
    bit_drop_bit_eq comp_def
  show "k < 16 \<Longrightarrow> bit lo k = bit addr k"
    unfolding defs by simp
  show "k < 16 \<Longrightarrow> bit lo (16 + k) = bit sel k"
    unfolding defs by simp
  show "k < 8 \<Longrightarrow> bit lo (40 + k) = (k \<in> {1, 2, 3, 7} \<or> k \<in> {5, 6} \<and> bit level (k - 5))"
  proof -
    assume "k < 8"
    then consider "k = 0" | "k = 1" | "k = 2" | "k = 3" | "k = 4" | "k = 5" | "k = 6" | "k = 7"
      by linarith
    then show ?thesis
      unfolding defs by cases (auto dest: bit_imp_le_length)
  qed
  show "k < 16 \<Longrightarrow> bit lo (48 + k) = bit addr (16 + k)"
    unfolding defs by (auto dest: bit_imp_le_length)
qed

lemma gate_for_target:
  "gate_target (gate_lo (gate_for addr sel level)) (gate_hi (gate_for addr sel level)) = addr"
proof (rule bit_word_eqI)
  fix n
  assume "n < LENGTH(64)"
  have hi: "bit (gate_hi (gate_for addr sel level)) k = bit addr (32 + k)" if "k < 32" for k
    using that by (simp add: gate_hi_def gate_for_def bit_simps)
  consider "n < 16" | "16 \<le> n" "n < 32" | "32 \<le> n"
    by linarith
  then show "bit (gate_target (gate_lo (gate_for addr sel level)) (gate_hi (gate_for addr sel level))) n = bit addr n"
  proof cases
    case 1
    then show ?thesis
      by (simp add: gate_target_def bit_or_iff bit_push_bit_iff bit_take_bit_iff gate_lo_bits)
  next
    case 2
    then show ?thesis
      using gate_lo_bits(4) [of "n - 16" addr sel level]
      by (simp add: gate_target_def bit_or_iff bit_push_bit_iff bit_take_bit_iff bit_drop_bit_eq)
  next
    case 3
    then have "\<not> bit (gate_lo (gate_for addr sel level)) (48 + (n - 16))"
      using bit_imp_le_length [of "gate_lo (gate_for addr sel level)" "48 + (n - 16)"] by auto
    moreover have "n - 32 < 32"
      using 3 \<open>n < LENGTH(64)\<close> by simp
    ultimately show ?thesis
      using 3 \<open>n < LENGTH(64)\<close> hi [of "n - 32"]
      by (simp add: gate_target_def bit_or_iff bit_push_bit_iff bit_take_bit_iff bit_drop_bit_eq)
  qed
qed

lemma gate_for_selector: "gate_selector (gate_lo (gate_for addr sel level)) = sel"
  by (rule bit_word_eqI) (simp add: gate_selector_def bit_ucast_iff bit_drop_bit_eq gate_lo_bits)

text \<open>Present, an interrupt gate of 64 bits, with the privilege level.\<close>

lemma gate_for_kind: "gate_kind (gate_lo (gate_for addr sel level)) = 0x8E OR push_bit 5 (ucast (ucast level :: 2 word))"
proof (rule bit_word_eqI)
  fix n
  assume n: "n < LENGTH(8)"
  then have b: "bit (gate_kind (gate_lo (gate_for addr sel level))) n =
      (n \<in> {1, 2, 3, 7} \<or> n \<in> {5, 6} \<and> bit level (n - 5))"
    by (simp add: gate_kind_def bit_ucast_iff bit_drop_bit_eq gate_lo_bits(3))
  from n consider "n = 0" | "n = 1" | "n = 2" | "n = 3" | "n = 4" | "n = 5" | "n = 6" | "n = 7"
    by fastforce
  then show "bit (gate_kind (gate_lo (gate_for addr sel level))) n =
      bit (0x8E OR push_bit 5 (ucast (ucast level :: 2 word)) :: u8) n"
    unfolding b by cases (simp_all add: bit_or_iff bit_push_bit_iff bit_ucast_iff)
qed

section \<open>Setting up\<close>

lemma install_stubs_eq:
  assumes "n \<le> length (boot_idt s)"
  shows "\<exists>s'. install_stubs stub_addr n s = Some s' \<and> s' = s\<lparr>boot_idt := boot_idt s'\<rparr> \<and>
    length (boot_idt s') = length (boot_idt s) \<and>
    (\<forall>i<length (boot_idt s). boot_idt s' ! i =
      (if i < n \<and> idt_handlers i \<noteq> None then gate_for (stub_addr i) (read_cs (cpu s)) 0 else boot_idt s ! i))"
  using assms
proof (induction n)
  case (Suc n)
  then obtain s' where s': "install_stubs stub_addr n s = Some s'" "s' = s\<lparr>boot_idt := boot_idt s'\<rparr>"
      "length (boot_idt s') = length (boot_idt s)"
      "\<forall>i<length (boot_idt s). boot_idt s' ! i =
        (if i < n \<and> idt_handlers i \<noteq> None then gate_for (stub_addr i) (read_cs (cpu s)) 0 else boot_idt s ! i)"
    by auto
  have cpu: "cpu s' = cpu s"
    by (subst s'(2)) simp
  have step: "install_stubs stub_addr (Suc n) s =
      (if idt_handlers n \<noteq> None then set_idt_entry n (stub_addr n) 0 s' else Some s')"
    using s'(1) by (simp add: install_stubs_def)
  show ?case
  proof (cases "idt_handlers n = None")
    case True
    then have "idt_handlers i \<noteq> None \<Longrightarrow> i < Suc n \<longleftrightarrow> i < n" for i
      by (metis less_Suc_eq)
    with True s' step show ?thesis
      by auto
  next
    case False
    let ?t = "s'\<lparr>boot_idt := (boot_idt s')[n := gate_for (stub_addr n) (read_cs (cpu s)) 0]\<rparr>"
    have "install_stubs stub_addr (Suc n) s = Some ?t"
      using False Suc.prems s'(3) by (simp add: step set_idt_entry_eq cpu)
    moreover have "?t = s\<lparr>boot_idt := boot_idt ?t\<rparr>"
      by (subst (1) s'(2)) simp
    moreover have "\<forall>i<length (boot_idt s). boot_idt ?t ! i = (if i < Suc n \<and> idt_handlers i \<noteq> None
        then gate_for (stub_addr i) (read_cs (cpu s)) 0 else boot_idt s ! i)"
      using False s'(3,4) Suc.prems by (auto simp: nth_list_update less_Suc_eq)
    ultimately show ?thesis
      using s'(3) by (intro exI [of _ ?t]) simp
  qed
qed (simp add: install_stubs_def)

lemma handle_exception_eq:
  "snd (handle_exception v fn s) = s\<lparr>exception_handlers := (exception_handlers s)[unat v := fn]\<rparr>"
proof -
  have "uint v < 2 ^ 8"
    by (rule order.strict_trans2 [OF unsigned_less]) simp
  then show ?thesis
    by (simp add: handle_exception_def Let_def)
qed

lemma setup_idt_gates:
  assumes "\<not> idt_initialized s" "length (boot_idt s) = 256" "length (exception_handlers s) = 256"
  shows "\<exists>s'. setup_idt stub_addr idt_addr s = Some s' \<and> idt_initialized s' \<and> length (boot_idt s') = 256 \<and>
    (\<forall>i<256. boot_idt s' ! i = (if i < 32 \<and> idt_handlers i \<noteq> None
      then gate_for (stub_addr i) (read_cs (cpu s)) 0 else boot_idt s ! i)) \<and>
    exception_handlers s' = (exception_handlers s)[0 := Some Check_exception_table,
      6 := Some Check_exception_table, 13 := Some Check_exception_table] \<and>
    cpu s' = lidt idt_addr (256 * 16) (cpu s)"
proof -
  obtain t where t: "install_stubs stub_addr 32 (s\<lparr>idt_initialized := True\<rparr>) = Some t"
      "t = s\<lparr>idt_initialized := True, boot_idt := boot_idt t\<rparr>" "length (boot_idt t) = 256"
      "\<forall>i<256. boot_idt t ! i = (if i < 32 \<and> idt_handlers i \<noteq> None
        then gate_for (stub_addr i) (read_cs (cpu s)) 0 else boot_idt s ! i)"
    using install_stubs_eq [of 32 "s\<lparr>idt_initialized := True\<rparr>" stub_addr] assms(2) by (auto cong: if_cong)
  let ?s = "t\<lparr>exception_handlers := (exception_handlers t)[0 := Some Check_exception_table,
      6 := Some Check_exception_table, 13 := Some Check_exception_table],
      cpu := lidt idt_addr (256 * 16) (cpu t)\<rparr>"
  have t': "idt_initialized t" "exception_handlers t = exception_handlers s" "cpu t = cpu s"
    by (subst t(2), simp)+
  have "setup_idt stub_addr idt_addr s = Some ?s"
    using assms(1) t(1) handle_exception_eq
    by (simp add: setup_idt_def case_prod_beta)
  then show ?thesis
    using t(3,4) t' by (intro exI [of _ ?s]) simp
qed

text \<open>
  The first \<open>setup_idt\<close> makes the first 32 entries for which there is a stub present interrupt
  gates to it, in the current code segment and for privilege level 0; leaves the other entries as
  they were; registers the exception-table handler for the vectors 0, 6 and 13 only; and loads the
  table. A second call changes nothing.
\<close>

theorem setup_idt_correct:
  assumes "\<not> idt_initialized s" "length (boot_idt s) = 256" "length (exception_handlers s) = 256"
  shows "\<exists>s'. setup_idt stub_addr idt_addr s = Some s' \<and> setup_idt stub_addr idt_addr s' = Some s' \<and>
    length (boot_idt s') = 256 \<and>
    (\<forall>i<256. if i < 32 \<and> idt_handlers i \<noteq> None
      then gate_target (gate_lo (boot_idt s' ! i)) (gate_hi (boot_idt s' ! i)) = stub_addr i \<and>
        gate_selector (gate_lo (boot_idt s' ! i)) = read_cs (cpu s) \<and> gate_kind (gate_lo (boot_idt s' ! i)) = 0x8E
      else boot_idt s' ! i = boot_idt s ! i) \<and>
    (\<forall>i<256. exception_handlers s' ! i =
      (if i \<in> {0, 6, 13} then Some Check_exception_table else exception_handlers s ! i)) \<and>
    idtr (cpu s') = (4096, idt_addr)"
proof -
  obtain s' where s': "setup_idt stub_addr idt_addr s = Some s'" "idt_initialized s'" "length (boot_idt s') = 256"
      "\<forall>i<256. boot_idt s' ! i = (if i < 32 \<and> idt_handlers i \<noteq> None
        then gate_for (stub_addr i) (read_cs (cpu s)) 0 else boot_idt s ! i)"
      "exception_handlers s' = (exception_handlers s)[0 := Some Check_exception_table,
        6 := Some Check_exception_table, 13 := Some Check_exception_table]"
      "cpu s' = lidt idt_addr (256 * 16) (cpu s)"
    using setup_idt_gates [OF assms] by blast
  moreover have "setup_idt stub_addr idt_addr s' = Some s'"
    using s'(2) by (simp add: setup_idt_def)
  moreover have "exception_handlers s' ! i =
      (if i \<in> {0, 6, 13} then Some Check_exception_table else exception_handlers s ! i)" if "i < 256" for i
    using that assms(3) s'(5) by (simp add: nth_list_update)
  ultimately show ?thesis
    by (intro exI [of _ s']) (auto simp: gate_for_target gate_for_selector gate_for_kind lidt_def)
qed

section \<open>The register frame\<close>

text \<open>The vectors for which the processor pushes an error code.\<close>

definition pushes_error_code :: "nat \<Rightarrow> bool" where
  "pushes_error_code i \<longleftrightarrow> i \<in> {8, 10, 11, 12, 13, 14, 17}"

definition fault_stack :: "nat \<Rightarrow> u64 \<Rightarrow> u64 list \<Rightarrow> u64 list" where
  "fault_stack i err frame = (if pushes_error_code i then err # frame else frame)"

definition fault_regs :: "nat \<Rightarrow> u64 \<Rightarrow> gprs \<Rightarrow> u64 \<Rightarrow> u64 \<Rightarrow> u64 \<Rightarrow> u64 \<Rightarrow> ex_regs" where
  "fault_regs i err g junk ip sel fl =
     \<lparr>rax = g_rax g, rcx = g_rcx g, rdx = g_rdx g, rbx = g_rbx g, dummy = junk, rbp = g_rbp g, rsi = g_rsi g,
      rdi = g_rdi g, r8 = g_r8 g, r9 = g_r9 g, r10 = g_r10 g, r11 = g_r11 g, r12 = g_r12 g, r13 = g_r13 g,
      r14 = g_r14 g, r15 = g_r15 g, vec = of_nat i, error_code = (if pushes_error_code i then err else 0),
      rip = ip, cs_sel = sel, rflags = fl\<rparr>"

definition gprs_of :: "ex_regs \<Rightarrow> gprs" where
  "gprs_of r = \<lparr>g_rax = rax r, g_rcx = rcx r, g_rdx = rdx r, g_rbx = rbx r, g_rbp = rbp r, g_rsi = rsi r,
     g_rdi = rdi r, g_r8 = r8 r, g_r9 = r9 r, g_r10 = r10 r, g_r11 = r11 r, g_r12 = r12 r, g_r13 = r13 r,
     g_r14 = r14 r, g_r15 = r15 r\<rparr>"

lemma idt_handlers_cases:
  assumes "idt_handlers i = Some stub"
  shows "stub = (if pushes_error_code i then EX_E i else EX_0 i)" "i < 20"
  using assms by (auto simp: idt_handlers_def pushes_error_code_def split: if_splits)

lemma saved_frame:
  assumes "idt_handlers i = Some stub"
  shows "regs_at (save_regs g junk (stub_pushes stub (fault_stack i err (ip # sel # fl # rest)))) =
      fault_regs i err g junk ip sel fl"
    "drop 21 (save_regs g junk (stub_pushes stub (fault_stack i err (ip # sel # fl # rest)))) = rest"
  using idt_handlers_cases(1) [OF assms]
  by (simp_all add: save_regs_def push_all_def regs_at_def fault_stack_def fault_regs_def)

lemma handle_fault_eq:
  assumes "idt_handlers i = Some stub"
  shows "handle_fault table others stub g junk (fault_stack i err (ip # sel # fl # rest)) s =
    Some (case do_handle_exception table others (fault_regs i err g junk ip sel fl) s of
      Returns r t \<Rightarrow> Resumed (gprs_of r) (rip r # cs_sel r # rflags r # rest) t
    | Hangs t \<Rightarrow> Stays t)"
  unfolding handle_fault_def Let_def saved_frame(1) [OF assms] write_regs_def saved_frame(2) [OF assms]
  by (simp add: gprs_of_def split: outcome.split)

text \<open>
  C34. For every stub in the table, whether the processor pushes an error code for its vector or
  not, the handler gets the registers of the interrupted program, its instruction pointer, code
  segment and flags, the vector and the error code (0 if there is none); and when it returns the
  program goes on with the registers the handler left in the frame and the stack as it was.
\<close>

theorem handle_fault_correct:
  assumes "idt_handlers i = Some stub"
  shows "handle_fault table others stub g junk (fault_stack i err (ip # sel # fl # rest)) s =
    Some (case do_handle_exception table others (fault_regs i err g junk ip sel fl) s of
      Returns r t \<Rightarrow> Resumed (gprs_of r) (rip r # cs_sel r # rflags r # rest) t
    | Hangs t \<Rightarrow> Stays t)"
  using assms by (rule handle_fault_eq)

section \<open>Instructions that may fault\<close>

lemma ex_val_bits:
  fixes w e f :: u64
  assumes "unat w < 256"
  defines "x \<equiv> ucast (w OR push_bit 16 e OR push_bit 8 (drop_bit 16 f AND 1)) :: u32"
  shows "ucast (ucast x :: u8) = (ucast w :: u32)" "(ucast (drop_bit 8 x) :: u8) AND 1 \<noteq> 0 \<longleftrightarrow> bit f 16"
proof -
  have w: "k < 8" if "bit w k" for k
    using bit_below [OF that, of 8] assms(1) by simp
  show "ucast (ucast x :: u8) = (ucast w :: u32)"
    using w by (intro bit_word_eqI) (auto simp: x_def bit_simps)
  have "\<not> bit w 8"
    using w [of 8] by auto
  then have "bit (ucast (drop_bit 8 x) :: u8) 0 \<longleftrightarrow> bit f 16"
    by (simp add: x_def bit_simps)
  then show "(ucast (drop_bit 8 x) :: u8) AND 1 \<noteq> 0 \<longleftrightarrow> bit f 16"
    by (simp add: and_one_eq bit_0 odd_iff_mod_2_eq_one)
qed

lemma fault_regs_fields:
  "vec (fault_regs i err g junk ip sel fl) = of_nat i" "rip (fault_regs i err g junk ip sel fl) = ip"
  "cs_sel (fault_regs i err g junk ip sel fl) = sel" "rflags (fault_regs i err g junk ip sel fl) = fl"
  "gprs_of (fault_regs i err g junk ip sel fl\<lparr>rip := h\<rparr>) = g"
  by (simp_all add: gprs_of_def fault_regs_def)

lemma unhandled_exception_reports:
  "\<exists>t. unhandled_exception r from_cpu s = Hangs t \<and> prefix (said (cpu s)) (said (cpu t)) \<and>
     said (cpu t) \<noteq> said (cpu s)"
  by (simp add: unhandled_exception_def desc_say_def say_def Let_def)

text \<open>
  C9. A fault with a vector whose handler is the exception-table one, at an instruction of the
  table, goes on at the recorded address with every register, the flags and the stack as they were;
  \<open>exception_vector\<close> and \<open>exception_rflags_rf\<close> then give the vector and the resume flag of that
  fault. At an instruction that is not in the table the processor reports the fault and stays.
\<close>

theorem asm_try_correct:
  assumes "idt_handlers i = Some stub" "exception_handlers s ! i = Some Check_exception_table"
  shows "case search_table table ip of
      Some h \<Rightarrow> \<exists>t. handle_fault table others stub g junk (fault_stack i err (ip # sel # fl # rest)) s =
          Some (Resumed g (h # sel # fl # rest) t) \<and>
        exception_vector t = of_nat i \<and> (exception_rflags_rf t \<longleftrightarrow> bit fl 16) \<and>
        s = t\<lparr>gs4 := gs4 s\<rparr>
    | None \<Rightarrow> \<exists>t. handle_fault table others stub g junk (fault_stack i err (ip # sel # fl # rest)) s =
          Some (Stays t) \<and> prefix (said (cpu s)) (said (cpu t)) \<and> said (cpu t) \<noteq> said (cpu s)"
proof -
  let ?r = "fault_regs i err g junk ip sel fl"
  have i: "i < 20" "unat (of_nat i :: u64) = i"
    using idt_handlers_cases(2) [OF assms(1)] by simp_all
  then have v: "(of_nat i :: u64) < 256"
    by (simp add: word_less_nat_alt)
  have do_h: "do_handle_exception table others ?r s = check_exception_table table ?r s"
    using assms(2) v i by (simp add: do_handle_exception_def fault_regs_fields)
  show ?thesis
  proof (cases "search_table table ip")
    case None
    then obtain t where "check_exception_table table ?r s = Hangs t" "prefix (said (cpu s)) (said (cpu t))"
        "said (cpu t) \<noteq> said (cpu s)"
      using unhandled_exception_reports [of ?r False "s\<lparr>gs4 := ucast (vec ?r OR push_bit 16 (error_code ?r) OR
        push_bit 8 (drop_bit 16 (rflags ?r) AND 1))\<rparr>"]
      by (auto simp: check_exception_table_def fault_regs_fields)
    with None show ?thesis
      by (simp add: handle_fault_eq [OF assms(1)] do_h)
  next
    case (Some h)
    define t where "t = s\<lparr>gs4 := ucast (vec ?r OR push_bit 16 (error_code ?r) OR
      push_bit 8 (drop_bit 16 (rflags ?r) AND 1))\<rparr>"
    have "check_exception_table table ?r s = Returns (?r\<lparr>rip := h\<rparr>) t"
      using Some by (simp add: check_exception_table_def t_def fault_regs_fields Let_def)
    moreover have "(ucast (of_nat i :: u64) :: u32) = of_nat i"
      using i by (simp add: unsigned_of_nat take_bit_nat_eq_self)
    then have "exception_vector t = of_nat i" "exception_rflags_rf t \<longleftrightarrow> bit fl 16"
      using ex_val_bits [of "of_nat i" "error_code ?r" fl] i
      by (simp_all add: t_def exception_vector_def exception_rflags_rf_def fault_regs_fields)
    moreover have "s = t\<lparr>gs4 := gs4 s\<rparr>"
      by (simp add: t_def)
    ultimately show ?thesis
      using Some by (simp add: handle_fault_eq [OF assms(1)] do_h fault_regs_fields)
  qed
qed

section \<open>Witnesses\<close>

definition example_desc :: desc where
  "example_desc = \<lparr>boot_idt = replicate 256 null_gate,
     exception_handlers = (replicate 256 None)[13 := Some Check_exception_table],
     idt_initialized = False, gs4 = 0, cpu = quiet_machine\<rparr>"

definition example_gprs :: gprs where
  "example_gprs = \<lparr>g_rax = 1, g_rcx = 2, g_rdx = 3, g_rbx = 4, g_rbp = 5, g_rsi = 6, g_rdi = 7, g_r8 = 8, g_r9 = 9,
     g_r10 = 10, g_r11 = 11, g_r12 = 12, g_r13 = 13, g_r14 = 14, g_r15 = 15\<rparr>"

theorem setup_idt_witness:
  "\<exists>s'. setup_idt (\<lambda>i. 0x100000 + 16 * of_nat i) 0x7000 example_desc = Some s' \<and>
     gate_target (gate_lo (boot_idt s' ! 14)) (gate_hi (boot_idt s' ! 14)) = 0x1000E0 \<and>
     boot_idt s' ! 15 = null_gate"
proof -
  obtain s' where "setup_idt (\<lambda>i. 0x100000 + 16 * of_nat i) 0x7000 example_desc = Some s'"
      "\<forall>i<256. if i < 32 \<and> idt_handlers i \<noteq> None
        then gate_target (gate_lo (boot_idt s' ! i)) (gate_hi (boot_idt s' ! i)) = 0x100000 + 16 * of_nat i \<and>
          gate_selector (gate_lo (boot_idt s' ! i)) = read_cs (cpu example_desc) \<and>
          gate_kind (gate_lo (boot_idt s' ! i)) = 0x8E
        else boot_idt s' ! i = boot_idt example_desc ! i"
    using setup_idt_correct [of example_desc "\<lambda>i. 0x100000 + 16 * of_nat i" "0x7000"]
    by (auto simp: example_desc_def)
  note s' = this
  from spec [OF s'(2), of 14] spec [OF s'(2), of 15] s'(1) show ?thesis
    by (simp add: idt_handlers_def example_desc_def)
qed

theorem handle_fault_witness:
  "handle_fault [] (\<lambda>_ r t. Returns (r\<lparr>rip := 0x2000\<rparr>) t) (EX_0 3) example_gprs 0 [0x1000, 8, 2, 0x9000, 0x10]
     (example_desc\<lparr>exception_handlers := (replicate 256 None)[3 := Some (Other_handler 0)]\<rparr>) =
   Some (Resumed example_gprs [0x2000, 8, 2, 0x9000, 0x10]
     (example_desc\<lparr>exception_handlers := (replicate 256 None)[3 := Some (Other_handler 0)]\<rparr>))"
  using handle_fault_correct [of 3 "EX_0 3" "[]" "\<lambda>_ r t. Returns (r\<lparr>rip := 0x2000\<rparr>) t" example_gprs 0 0 "0x1000" 8 2
      "[0x9000, 0x10]" "example_desc\<lparr>exception_handlers := (replicate 256 None)[3 := Some (Other_handler 0)]\<rparr>"]
  by (simp add: idt_handlers_def fault_stack_def pushes_error_code_def do_handle_exception_def fault_regs_def
      gprs_of_def example_gprs_def)

theorem asm_try_witness:
  "\<exists>t. handle_fault [\<lparr>ex_rip = 0x1000, ex_handler = 0x3000\<rparr>] (\<lambda>_ r t. Returns r t) (EX_E 13) example_gprs 0
       [0x50, 0x1000, 8, 0x10002] example_desc = Some (Resumed example_gprs [0x3000, 8, 0x10002] t) \<and>
     exception_vector t = 13 \<and> exception_rflags_rf t"
  using asm_try_correct [of 13 "EX_E 13" example_desc "[\<lparr>ex_rip = 0x1000, ex_handler = 0x3000\<rparr>]"
      "\<lambda>_ r t. Returns r t" example_gprs 0 "0x50" "0x1000" 8 "0x10002" "[]"]
  by (auto simp: idt_handlers_def fault_stack_def pushes_error_code_def example_desc_def)

end
