(* ===== verification/Console.thy ===== *)
theory Console
  imports Ports Spinlock Cstring Printf
begin

text \<open>
  The text screen (\<open>x86_64/console.c\<close>): 25 rows of 80 cells in video memory, where the bare-metal
  build prints. It is shown to be a terminal that scrolls, given as rows.
\<close>

section \<open>The model\<close>

definition ROWS :: u32 where "ROWS = 25"
definition COLUMNS :: u32 where "COLUMNS = 80"

text \<open>\<open>vga\<close> are the cells of video memory.\<close>

record console = io +
  con_lock :: spinlock
  console_cleared :: bool
  cur_x :: u32
  cur_y :: u32
  vga :: "u16 list"

text \<open>A slot is an index of \<open>vga\<close>; \<open>None\<close> is the null pointer, which nothing may be written to.\<close>

definition slot_from_xy :: "u32 \<Rightarrow> u32 \<Rightarrow> nat option" where
  "slot_from_xy x y =
     (if x \<ge> COLUMNS then None else if y \<ge> ROWS then None else Some (unat (x + (y * COLUMNS))))"

definition console_clear :: "console \<Rightarrow> console" where
  "console_clear s =
     (let s = s\<lparr>vga := fold (\<lambda>i cells. cells[i := 0]) [0..<unat (ROWS * COLUMNS)] (vga s)\<rparr>
      in s\<lparr>cur_x := 0, cur_y := 0\<rparr>)"

definition write_reg :: "u8 \<Rightarrow> u8 \<Rightarrow> console \<Rightarrow> console" where
  "write_reg reg x s = (let s = outb reg 0x3d4 s in outb x 0x3d5 s)"

definition console_init :: "console \<Rightarrow> console" where
  "console_init s = (let s = write_reg 0x0a 0x20 s in console_clear s)"

fun fold_opt :: "('a \<Rightarrow> 's \<Rightarrow> 's option) \<Rightarrow> 'a list \<Rightarrow> 's \<Rightarrow> 's option" where
  "fold_opt f [] s = Some s"
| "fold_opt f (x # xs) s = do { s \<leftarrow> f x s; fold_opt f xs s }"

definition copy_cell :: "nat \<Rightarrow> nat \<Rightarrow> u16 list \<Rightarrow> u16 list option" where
  "copy_cell y x cells =
     do { src \<leftarrow> slot_from_xy (of_nat x) (of_nat y + 1);
          dst \<leftarrow> slot_from_xy (of_nat x) (of_nat y);
          Some (cells[dst := cells ! src]) }"

definition blank_cell :: "nat \<Rightarrow> u16 list \<Rightarrow> u16 list option" where
  "blank_cell x cells = do { dst \<leftarrow> slot_from_xy (of_nat x) (ROWS - 1); Some (cells[dst := 0]) }"

definition new_line :: "console \<Rightarrow> console option" where
  "new_line s =
     (let s = s\<lparr>cur_x := 0\<rparr>;
          s = s\<lparr>cur_y := cur_y s + 1\<rparr>
      in if cur_y s \<ge> ROWS then
           let s = s\<lparr>cur_y := ROWS - 1\<rparr>
           in do { cells \<leftarrow> fold_opt (\<lambda>y. fold_opt (copy_cell y) [0..<unat COLUMNS]) [0..<unat (ROWS - 1)] (vga s);
                   cells \<leftarrow> fold_opt blank_cell [0..<unat COLUMNS] cells;
                   Some (s\<lparr>vga := cells\<rparr>) }
         else Some s)"

text \<open>\<open>0x0700 | ch\<close> with \<open>ch\<close> a signed \<open>char\<close>.\<close>

definition cell_of :: "byte \<Rightarrow> u16" where
  "cell_of ch = 0x0700 OR scast ch"

definition console_putc :: "byte \<Rightarrow> console \<Rightarrow> console option" where
  "console_putc ch s =
     (if ch = 10 then new_line s
      else if ch = 13 then Some (s\<lparr>cur_x := 0\<rparr>)
      else do { slot \<leftarrow> slot_from_xy (cur_x s) (cur_y s);
                let s = s\<lparr>vga := (vga s)[slot := cell_of ch]\<rparr>;
                let s = s\<lparr>cur_x := cur_x s + 1\<rparr>;
                if cur_x s \<ge> COLUMNS then new_line s else Some s })"

definition console_puts :: "byte list \<Rightarrow> console \<Rightarrow> console option" where
  "console_puts b s =
     do { l \<leftarrow> spin_lock (con_lock s);
          let s = s\<lparr>con_lock := l\<rparr>;
          len \<leftarrow> strlen b;
          let s = (if \<not> console_cleared s then (console_init s)\<lparr>console_cleared := True\<rparr> else s);
          s \<leftarrow> fold_opt (\<lambda>i. console_putc (b ! i)) [0..<unat len] s;
          Some (s\<lparr>con_lock := spin_unlock (con_lock s)\<rparr>) }"

section \<open>A terminal\<close>

text \<open>Rows of cells, and the row and column of the next character.\<close>

record terminal =
  trows :: "u16 list list"
  tx :: nat
  ty :: nat

definition blank_row :: "u16 list" where
  "blank_row = replicate 80 0"

definition blank_term :: terminal where
  "blank_term = \<lparr>trows = replicate 25 blank_row, tx = 0, ty = 0\<rparr>"

definition term_newline :: "terminal \<Rightarrow> terminal" where
  "term_newline t =
     (if ty t < 24 then t\<lparr>tx := 0, ty := Suc (ty t)\<rparr>
      else t\<lparr>trows := tl (trows t) @ [blank_row], tx := 0, ty := 24\<rparr>)"

definition term_putc :: "byte \<Rightarrow> terminal \<Rightarrow> terminal" where
  "term_putc ch t =
     (if ch = 10 then term_newline t
      else if ch = 13 then t\<lparr>tx := 0\<rparr>
      else let t = t\<lparr>trows := (trows t)[ty t := (trows t ! ty t)[tx t := cell_of ch]], tx := Suc (tx t)\<rparr>
           in if tx t < 80 then t else term_newline t)"

definition console_ok :: "console \<Rightarrow> bool" where
  "console_ok s \<longleftrightarrow> length (vga s) = 2000 \<and> cur_x s < COLUMNS \<and> cur_y s < ROWS"

definition row_of :: "u16 list \<Rightarrow> nat \<Rightarrow> u16 list" where
  "row_of cells y = take 80 (drop (80 * y) cells)"

definition screen :: "console \<Rightarrow> terminal" where
  "screen s = \<lparr>trows = map (row_of (vga s)) [0..<25], tx = unat (cur_x s), ty = unat (cur_y s)\<rparr>"

section \<open>Scrolling\<close>

lemma slot_from_xy_eq:
  assumes "x < 80" "y < 25"
  shows "slot_from_xy (of_nat x) (of_nat y) = Some (x + 80 * y)"
proof -
  have "unat (of_nat x :: u32) = x" "unat (of_nat y :: u32) = y"
    using assms by (simp_all add: unsigned_of_nat take_bit_nat_eq_self)
  moreover have "unat (of_nat (x + 80 * y) :: u32) = x + 80 * y"
    using assms by (subst unsigned_of_nat) (simp add: take_bit_nat_eq_self)
  ultimately show ?thesis
    using assms by (simp add: slot_from_xy_def COLUMNS_def ROWS_def word_le_nat_alt mult.commute)
qed

lemma fold_opt_append: "fold_opt f (xs @ ys) s = do { s \<leftarrow> fold_opt f xs s; fold_opt f ys s }"
  by (induction xs arbitrary: s) (auto split: bind_splits)

lemma copy_row:
  assumes "y < 24" "length cells = 2000" "n \<le> 80"
  shows "\<exists>cells'. fold_opt (copy_cell y) [0..<n] cells = Some cells' \<and> length cells' = 2000 \<and>
    (\<forall>i<2000. cells' ! i = (if 80 * y \<le> i \<and> i < 80 * y + n then cells ! (i + 80) else cells ! i))"
  using assms(3)
proof (induction n)
  case (Suc n)
  then obtain cells' where c: "fold_opt (copy_cell y) [0..<n] cells = Some cells'" "length cells' = 2000"
      "\<forall>i<2000. cells' ! i = (if 80 * y \<le> i \<and> i < 80 * y + n then cells ! (i + 80) else cells ! i)"
    by auto
  let ?cells = "cells'[n + 80 * y := cells' ! (n + 80 * Suc y)]"
  have "copy_cell y n cells' = Some ?cells"
    using slot_from_xy_eq [of n "Suc y"] slot_from_xy_eq [of n y] assms(1) Suc.prems
    by (simp add: copy_cell_def add.commute)
  then have "fold_opt (copy_cell y) [0..<Suc n] cells = Some ?cells"
    using c(1) by (simp add: fold_opt_append)
  moreover have "?cells ! i = (if 80 * y \<le> i \<and> i < 80 * y + Suc n then cells ! (i + 80) else cells ! i)"
    if "i < 2000" for i
  proof -
    have "n + 80 * Suc y < 2000" "n + 80 * y < 2000"
      using assms(1) Suc.prems by simp_all
    then show ?thesis
      using that c(2,3) by (auto simp: nth_list_update ac_simps)
  qed
  ultimately show ?case
    using c(2) by (intro exI [of _ ?cells]) simp
qed (use assms in auto)

lemma copy_rows:
  assumes "length cells = 2000" "n \<le> 24"
  shows "\<exists>cells'. fold_opt (\<lambda>y. fold_opt (copy_cell y) [0..<80]) [0..<n] cells = Some cells' \<and> length cells' = 2000 \<and>
    (\<forall>i<2000. cells' ! i = (if i < 80 * n then cells ! (i + 80) else cells ! i))"
  using assms(2)
proof (induction n)
  case (Suc n)
  then obtain c1 where c1: "fold_opt (\<lambda>y. fold_opt (copy_cell y) [0..<80]) [0..<n] cells = Some c1" "length c1 = 2000"
      "\<forall>i<2000. c1 ! i = (if i < 80 * n then cells ! (i + 80) else cells ! i)"
    by auto
  obtain c2 where c2: "fold_opt (copy_cell n) [0..<80] c1 = Some c2" "length c2 = 2000"
      "\<forall>i<2000. c2 ! i = (if 80 * n \<le> i \<and> i < 80 * n + 80 then c1 ! (i + 80) else c1 ! i)"
    using copy_row [of n c1 80] Suc.prems c1(2) by auto
  have "c2 ! i = (if i < 80 * Suc n then cells ! (i + 80) else cells ! i)" if "i < 2000" for i
    using that c2(3) c1(3) Suc.prems by auto
  then show ?case
    using c1(1) c2(1,2) by (simp add: fold_opt_append)
qed (use assms in auto)

lemma blank_cells:
  assumes "length cells = 2000" "n \<le> 80"
  shows "\<exists>cells'. fold_opt blank_cell [0..<n] cells = Some cells' \<and> length cells' = 2000 \<and>
    (\<forall>i<2000. cells' ! i = (if 1920 \<le> i \<and> i < 1920 + n then 0 else cells ! i))"
  using assms(2)
proof (induction n)
  case (Suc n)
  then obtain c where c: "fold_opt blank_cell [0..<n] cells = Some c" "length c = 2000"
      "\<forall>i<2000. c ! i = (if 1920 \<le> i \<and> i < 1920 + n then 0 else cells ! i)"
    by auto
  have "blank_cell n c = Some (c[n + 80 * 24 := 0])"
    using slot_from_xy_eq [of n 24] Suc.prems by (simp add: blank_cell_def ROWS_def)
  then show ?case
    using c Suc.prems by (auto simp: fold_opt_append nth_list_update)
qed (use assms in auto)

lemma rows_nth:
  assumes "length cells = 2000" "y < 25" "x < 80"
  shows "row_of cells y ! x = cells ! (80 * y + x)" "length (row_of cells y) = 80"
  using assms by (simp_all add: row_of_def)

lemma scrolled_rows:
  assumes "length cells = 2000" "length cells' = 2000"
    and "\<And>i. i < 2000 \<Longrightarrow> cells' ! i = (if i < 1920 then cells ! (i + 80) else 0)"
  shows "map (row_of cells') [0..<25] = tl (map (row_of cells) [0..<25]) @ [blank_row]"
proof (rule nth_equalityI)
  fix y
  assume "y < length (map (row_of cells') [0..<25])"
  then have y: "y < 25"
    by simp
  show "map (row_of cells') [0..<25] ! y = (tl (map (row_of cells) [0..<25]) @ [blank_row]) ! y"
  proof (cases "y < 24")
    case True
    then have "row_of cells' y = row_of cells (Suc y)"
      using assms by (intro nth_equalityI) (simp_all add: row_of_def algebra_simps)
    with True show ?thesis
      by (simp add: nth_append nth_tl)
  next
    case False
    then have "y = 24"
      using y by simp
    moreover have "row_of cells' 24 = blank_row"
      using assms(2,3) by (intro nth_equalityI) (simp_all add: row_of_def blank_row_def)
    ultimately show ?thesis
      by (simp add: nth_append)
  qed
qed simp

section \<open>The screen is a terminal\<close>

definition same_device :: "console \<Rightarrow> console \<Rightarrow> bool" where
  "same_device s s' \<longleftrightarrow> con_lock s' = con_lock s \<and> console_cleared s' = console_cleared s \<and>
     accesses s' = accesses s"

lemma console_ok_unat:
  "console_ok s \<longleftrightarrow> length (vga s) = 2000 \<and> unat (cur_x s) < 80 \<and> unat (cur_y s) < 25"
  by (simp add: console_ok_def COLUMNS_def ROWS_def word_less_nat_alt)

lemma unat_next: "unat (x :: u32) < 100 \<Longrightarrow> unat (x + 1) = Suc (unat x)"
  by (simp add: unat_word_ariths)

lemma new_line_refines:
  assumes "length (vga s) = 2000" "unat (cur_y s) < 25"
  shows "\<exists>s'. new_line s = Some s' \<and> console_ok s' \<and> screen s' = term_newline (screen s) \<and>
    same_device s s'"
proof (cases "unat (cur_y s) < 24")
  case True
  then have y: "unat (cur_y s + 1) = Suc (unat (cur_y s))"
    by (intro unat_next) simp
  then have "new_line s = Some (s\<lparr>cur_x := 0, cur_y := cur_y s + 1\<rparr>)"
    using True by (simp add: new_line_def ROWS_def word_le_nat_alt)
  then show ?thesis
    using True assms y by (simp add: console_ok_unat screen_def term_newline_def same_device_def)
next
  case False
  then have y: "unat (cur_y s) = 24" "unat (cur_y s + 1) = 25"
    using assms(2) unat_next [of "cur_y s"] by simp_all
  obtain c1 where c1: "fold_opt (\<lambda>y. fold_opt (copy_cell y) [0..<80]) [0..<24] (vga s) = Some c1" "length c1 = 2000"
      "\<forall>i<2000. c1 ! i = (if i < 1920 then vga s ! (i + 80) else vga s ! i)"
    using copy_rows [OF assms(1), of 24] by auto
  obtain c2 where c2: "fold_opt blank_cell [0..<80] c1 = Some c2" "length c2 = 2000"
      "\<forall>i<2000. c2 ! i = (if 1920 \<le> i \<and> i < 2000 then 0 else c1 ! i)"
    using blank_cells [OF c1(2), of 80] by auto
  have "c2 ! i = (if i < 1920 then vga s ! (i + 80) else 0)" if "i < 2000" for i
    using that c1(3) c2(3) by simp
  then have rows: "map (row_of c2) [0..<25] = tl (map (row_of (vga s)) [0..<25]) @ [blank_row]"
    by (intro scrolled_rows assms(1) c2(2))
  have "new_line s = Some (s\<lparr>cur_x := 0, cur_y := 24, vga := c2\<rparr>)"
    using y c1(1) c2(1) by (simp add: new_line_def ROWS_def COLUMNS_def word_le_nat_alt)
  then show ?thesis
    using c2(2) y rows by (simp add: console_ok_unat screen_def term_newline_def same_device_def del: upt_Suc)
qed

lemma put_cell_rows:
  assumes "length cells = 2000" "x < 80" "y < 25"
  shows "map (row_of (cells[x + 80 * y := c])) [0..<25] =
    (map (row_of cells) [0..<25])[y := (row_of cells y)[x := c]]"
proof (rule nth_equalityI)
  fix j
  assume "j < length (map (row_of (cells[x + 80 * y := c])) [0..<25])"
  then have j: "j < 25"
    by simp
  have "row_of (cells[x + 80 * y := c]) j = (if j = y then (row_of cells y)[x := c] else row_of cells j)"
  proof (rule nth_equalityI)
    fix k
    assume "k < length (row_of (cells[x + 80 * y := c]) j)"
    then have k: "k < 80"
      using assms(1) by (simp add: row_of_def)
    have "j = (80 * j + k) div 80 \<and> k = (80 * j + k) mod 80" "y = (x + 80 * y) div 80 \<and> x = (x + 80 * y) mod 80"
      using k assms(2) by simp_all
    then have "80 * j + k = x + 80 * y \<longleftrightarrow> j = y \<and> k = x"
      by (metis add.commute)
    then show "row_of (cells[x + 80 * y := c]) j ! k =
        (if j = y then (row_of cells y)[x := c] else row_of cells j) ! k"
      using assms j k by (auto simp: row_of_def nth_list_update)
  qed (use assms in \<open>simp add: row_of_def\<close>)
  then show "map (row_of (cells[x + 80 * y := c])) [0..<25] ! j =
      ((map (row_of cells) [0..<25])[y := (row_of cells y)[x := c]]) ! j"
    using assms j by (simp add: nth_list_update)
qed simp

lemma console_putc_refines:
  assumes "console_ok s"
  shows "\<exists>s'. console_putc ch s = Some s' \<and> console_ok s' \<and> screen s' = term_putc ch (screen s) \<and>
    same_device s s'"
proof -
  consider "ch = 10" | "ch = 13" | "ch \<noteq> 10" "ch \<noteq> 13"
    by blast
  then show ?thesis
  proof cases
    case 1
    then show ?thesis
      using new_line_refines [of s] assms by (auto simp: console_putc_def term_putc_def console_ok_unat)
  next
    case 2
    then show ?thesis
      using assms by (simp add: console_putc_def term_putc_def console_ok_unat screen_def same_device_def)
  next
    case 3
    let ?x = "unat (cur_x s)" and ?y = "unat (cur_y s)"
    let ?s = "s\<lparr>vga := (vga s)[?x + 80 * ?y := cell_of ch], cur_x := cur_x s + 1\<rparr>"
    have ok: "length (vga s) = 2000" "?x < 80" "?y < 25"
      using assms by (simp_all add: console_ok_unat)
    have x: "unat (cur_x s + 1) = Suc ?x"
      using ok(2) by (intro unat_next) simp
    have "slot_from_xy (cur_x s) (cur_y s) = Some (?x + 80 * ?y)"
      using slot_from_xy_eq [OF ok(2,3)] by simp
    then have putc: "console_putc ch s = (if Suc ?x < 80 then Some ?s else new_line ?s)"
      using 3 by (simp add: console_putc_def COLUMNS_def word_le_nat_alt x)
    have "screen ?s = screen s\<lparr>trows := (trows (screen s))[?y := (trows (screen s) ! ?y)[?x := cell_of ch]],
        tx := Suc ?x\<rparr>"
      using ok by (simp add: screen_def x put_cell_rows)
    then have scr: "term_putc ch (screen s) = (if Suc ?x < 80 then screen ?s else term_newline (screen ?s))"
      using 3 by (simp add: term_putc_def Let_def) (simp add: screen_def)
    show ?thesis
    proof (cases "Suc ?x < 80")
      case True
      then show ?thesis
        using putc scr ok x by (simp add: console_ok_unat same_device_def)
    next
      case False
      obtain s' where "new_line ?s = Some s'" "console_ok s'" "screen s' = term_newline (screen ?s)"
          "same_device ?s s'"
        using new_line_refines [of ?s] ok by auto
      then show ?thesis
        using False putc scr by (intro exI [of _ s']) (auto simp: same_device_def)
    qed
  qed
qed

lemma putc_loop_refines:
  assumes "console_ok s" "n \<le> length b"
  shows "\<exists>s'. fold_opt (\<lambda>i. console_putc (b ! i)) [0..<n] s = Some s' \<and> console_ok s' \<and>
    screen s' = fold term_putc (take n b) (screen s) \<and> same_device s s'"
  using assms(2)
proof (induction n)
  case (Suc n)
  then obtain s1 where s1: "fold_opt (\<lambda>i. console_putc (b ! i)) [0..<n] s = Some s1" "console_ok s1"
      "screen s1 = fold term_putc (take n b) (screen s)" "same_device s s1"
    by auto
  obtain s2 where "console_putc (b ! n) s1 = Some s2" "console_ok s2" "screen s2 = term_putc (b ! n) (screen s1)"
      "same_device s1 s2"
    using console_putc_refines [OF s1(2)] by blast
  then show ?case
    using s1 Suc.prems by (simp add: fold_opt_append take_Suc_conv_app_nth same_device_def)
qed (simp add: assms(1) same_device_def)

lemma fold_clear:
  "n \<le> length cells \<Longrightarrow> fold (\<lambda>i cells. cells[i := 0]) [0..<n] cells = replicate n 0 @ drop n cells"
proof (induction n)
  case (Suc n)
  then have "drop n cells = cells ! n # drop (Suc n) cells"
    by (intro Cons_nth_drop_Suc [symmetric]) simp
  with Suc show ?case
    by (simp add: list_update_append replicate_app_Cons_same flip: replicate_Suc)
qed simp

lemma console_init_screen:
  assumes "length (vga s) = 2000"
  shows "console_ok (console_init s)" "screen (console_init s) = blank_term" "con_lock (console_init s) = con_lock s"
proof -
  have "vga (console_init s) = replicate 2000 0"
    using assms fold_clear [of 2000 "vga s"]
    by (simp add: console_init_def write_reg_def outb_def console_clear_def ROWS_def COLUMNS_def)
  moreover have xy: "cur_x (console_init s) = 0" "cur_y (console_init s) = 0"
    by (simp_all add: console_init_def console_clear_def Let_def)
  moreover have "map (row_of (replicate 2000 0)) [0..<25] = replicate 25 blank_row"
    by (rule nth_equalityI) (simp_all add: row_of_def blank_row_def)
  ultimately show "console_ok (console_init s)" "screen (console_init s) = blank_term"
    by (simp_all add: console_ok_unat screen_def blank_term_def del: upt_Suc)
  show "con_lock (console_init s) = con_lock s"
    by (simp add: console_init_def write_reg_def outb_def console_clear_def Let_def)
qed

text \<open>What the screen shows: before the first string it is cleared.\<close>

definition shown :: "console \<Rightarrow> terminal" where
  "shown s = (if console_cleared s then screen s else blank_term)"

definition console_ready :: "console \<Rightarrow> bool" where
  "console_ready s \<longleftrightarrow> console_ok s \<and> lock_v (con_lock s) = 0"

lemma console_puts_shows:
  assumes "console_ready s" "0 \<notin> set b" "length b < 2 ^ 64"
  shows "\<exists>s'. console_puts (b @ 0 # r) s = Some s' \<and> console_ready s' \<and>
    shown s' = fold term_putc b (shown s)"
proof -
  let ?l = "s\<lparr>con_lock := (con_lock s)\<lparr>lock_v := 1\<rparr>\<rparr>"
  let ?s = "if \<not> console_cleared s then (console_init ?l)\<lparr>console_cleared := True\<rparr> else ?l"
  have ok: "console_ok ?s" "screen ?s = shown s" "console_cleared ?s"
    using assms(1) console_init_screen [of ?l]
    by (auto simp: console_ready_def console_ok_unat shown_def screen_def)
  obtain s' where s': "fold_opt (\<lambda>i. console_putc ((b @ 0 # r) ! i)) [0..<length b] ?s = Some s'" "console_ok s'"
      "screen s' = fold term_putc b (shown s)" "same_device ?s s'"
    using putc_loop_refines [OF ok(1), of "length b" "b @ 0 # r"] ok(2) by auto
  have "console_puts (b @ 0 # r) s = Some (s'\<lparr>con_lock := spin_unlock (con_lock s')\<rparr>)"
    using assms s'(1) by (simp add: console_puts_def console_ready_def Let_def)
  then show ?thesis
    using s'(2-4) ok(3) by (simp add: console_ready_def console_ok_def shown_def screen_def same_device_def)
qed

text \<open>The screen is a character sink: the bare-metal build prints on it.\<close>

interpretation vga_sink: char_sink console_puts shown "fold term_putc" console_ready
  by unfold_locales (rule console_puts_shows)

section \<open>Properties\<close>

text \<open>
  C19. In the bare-metal build \<open>printf\<close> returns and the screen then shows what a terminal of 25 rows
  and 80 columns shows after the text, cut to 1999 bytes: it wraps at the right edge, starts over
  at a carriage return, and scrolls at the bottom. The null pointer of \<open>slot_from_xy\<close> is never
  written to, and the lock is free again.
\<close>

theorem console_printf_correct:
  assumes "console_ready s" "render fmt va = Some out" "0 \<notin> set out" "length junk = BUFSZ"
  shows "\<exists>s'. printf True console_puts p junk fmt va s = Some (s', of_nat (length out)) \<and>
    console_ready s' \<and> shown s' = fold term_putc (take (BUFSZ - 1) out) (shown s)"
  using assms by (rule vga_sink.printf_written) simp

text \<open>
  The attribute of a cell is grey on black for the characters below 128, but all ones, which is
  bright white on white and blinking, for those above: the sign of the \<open>char\<close> is extended over it.
\<close>

theorem cell_attribute:
  "cell_of ch = (if ch < 128 then 0x0700 OR ucast ch else 0xFF00 OR ucast ch)"
proof -
  have "ch < 128 \<longleftrightarrow> \<not> bit ch 7"
  proof
    assume "ch < 128"
    then have "unat ch < 2 ^ 7"
      by (simp add: word_less_nat_alt)
    then show "\<not> bit ch 7"
      using bit_below [of ch 7 7] by auto
  next
    assume "\<not> bit ch 7"
    then have "n < 7" if "bit ch n" for n
      using that bit_imp_le_length [OF that] by (cases "n = 7") auto
    then have "take_bit 7 ch = ch"
      by (intro bit_word_eqI) (auto simp: bit_take_bit_iff)
    then have "unat ch < 2 ^ 7"
      by (metis unsigned_take_bit_eq take_bit_nat_less_exp)
    then show "ch < 128"
      by (simp add: word_less_nat_alt)
  qed
  moreover have "cell_of ch = (if bit ch 7 then 0xFF00 OR ucast ch else 0x0700 OR ucast ch)"
  proof (rule bit_word_eqI)
    fix n
    assume n: "n < LENGTH(16)"
    have grey: "8 \<le> n" if "bit (0x0700 :: u16) n"
      using that bit_push_bit_iff [of 8 "7 :: u16" n] by (simp add: push_bit_eq_mult)
    have ones: "bit (0xFF00 :: u16) n \<longleftrightarrow> 8 \<le> n"
    proof -
      have m: "(0xFF00 :: u16) = push_bit 8 (mask 8)"
        by (simp add: push_bit_eq_mult mask_eq_exp_minus_1)
      show ?thesis
        unfolding m bit_push_bit_iff bit_mask_iff using n by auto
    qed
    have sign: "bit (scast ch :: u16) n \<longleftrightarrow> bit ch (min n 7)" and low: "bit (ucast ch :: u16) n \<longleftrightarrow> bit ch n"
      using n by (auto simp: bit_signed_iff bit_ucast_iff min.commute)
    have "n < 8" if "bit ch n"
      using bit_imp_le_length [OF that] by simp
    then show "bit (cell_of ch) n = bit (if bit ch 7 then 0xFF00 OR ucast ch else 0x0700 OR ucast ch :: u16) n"
      using grey unfolding cell_of_def if_distrib [of "\<lambda>w. bit w n"] bit_or_iff ones sign low
      by (cases "n < 7"; cases "n = 7") (auto simp: min_def)
  qed
  ultimately show ?thesis
    by simp
qed

section \<open>Witness\<close>

definition example_console :: console where
  "example_console = \<lparr>inputs = \<lambda>_ _. 0, reads = 0, accesses = [], con_lock = \<lparr>lock_v = 0\<rparr>, console_cleared = False,
     cur_x = 0, cur_y = 0, vga = replicate 2000 0x0741\<rparr>"

theorem console_printf_witness:
  "\<exists>s'. printf True console_puts (\<lambda>_ _. None) (replicate 2000 0) (bytes_of ''hi\<newline>'' @ [0]) [] example_console =
      Some (s', 3) \<and> tx (shown s') = 0 \<and> ty (shown s') = 1 \<and>
      take 3 (trows (shown s') ! 0) = [0x0768, 0x0769, 0]"
proof -
  let ?out = "bytes_of ''hi\<newline>''"
  have "render (?out @ [0]) [] = Some ?out" "0 \<notin> set ?out"
    by (simp_all add: bytes_of_def chr_def)
  moreover have "console_ready example_console" "length (replicate 2000 (0 :: byte)) = BUFSZ"
    by (simp_all add: console_ready_def console_ok_unat example_console_def BUFSZ_def)
  ultimately obtain s' where s': "printf True console_puts (\<lambda>_ _. None) (replicate 2000 0) (?out @ [0]) [] example_console =
      Some (s', of_nat (length ?out))" "shown s' = fold term_putc (take (BUFSZ - 1) ?out) (shown example_console)"
    using console_printf_correct by blast
  have out: "take (BUFSZ - 1) ?out = ?out" "length ?out = 3" "shown example_console = blank_term"
    by (simp_all add: bytes_of_def BUFSZ_def shown_def example_console_def)
  have cells: "cell_of 104 = 0x0768" "cell_of 105 = 0x0769"
    by code_simp+
  have hi: "?out = [104, 105, 10]"
    by (simp add: bytes_of_def chr_def)
  have final: "tx (fold term_putc ?out blank_term) = 0" "ty (fold term_putc ?out blank_term) = 1"
      "trows (fold term_putc ?out blank_term) ! 0 = blank_row[0 := 0x0768, 1 := 0x0769]"
    unfolding hi by (simp_all add: term_putc_def term_newline_def blank_term_def cells)
  have "take 3 (blank_row[0 := 0x0768, 1 := 0x0769]) = [0x0768, 0x0769, 0]"
    by (simp add: blank_row_def take_update_swap numeral_3_eq_3)
  then show ?thesis
    using s' final unfolding out by (intro exI [of _ s']) simp
qed

end
