(* ===== verification/Ipi.thy ===== *)
theory Ipi
  imports Proc Desc Spinlock
begin

text \<open>
  Interrupting another processor (the first part of \<open>x86_64/mp.c\<close>): \<open>on_cpu\<close> sends an interrupt to
  one processor and waits until its handler has run. The processors are interleaved: one step is one
  access to a shared variable or to the interrupt controller by one processor, or a step of the
  hardware, which carries an interrupt to its destination and enters the handler.
\<close>

section \<open>Setting up\<close>

definition IPI_VECTOR :: u32 where "IPI_VECTOR = 0x20"

text \<open>\<open>ipi_entry\<close> is the address of the entry code of the handler.\<close>

definition smp_init :: "(nat \<Rightarrow> u64) \<Rightarrow> u64 \<Rightarrow> u64 \<Rightarrow> desc \<Rightarrow> desc option" where
  "smp_init stub_addr idt_addr ipi_entry s =
     do { s \<leftarrow> setup_idt stub_addr idt_addr s;
          set_idt_entry (unat IPI_VECTOR) ipi_entry 0 s }"

definition do_test :: "desc \<Rightarrow> outcome" where
  "do_test s = Hangs (desc_say ''STOP'' [] s)"

section \<open>The processors\<close>

text \<open>
  Where a processor is in \<open>__on_cpu\<close>, with the identifier of the processor it calls: outside, in the
  loop of \<open>spin_lock\<close>, before \<open>ipi_done = 0\<close>, before \<open>apic_icr_write\<close>, in the wait loop, before
  \<open>spin_unlock\<close>. Where it is in \<open>ipi\<close>: outside, before \<open>ipi_done = 1\<close>, before the write to \<open>APIC_EOI\<close>.
\<close>

datatype ipi_pc = Out | Locking u32 | Clearing u32 | Sending u32 | Await u32 | Unlocking u32

datatype handler_pc = Idle | Entered | Acking

text \<open>
  \<open>flight\<close> are the interrupts on their way, destination and command word, \<open>irr\<close> the vectors requested
  at each processor. \<open>returned\<close> and \<open>handled\<close> are the history: the processors of the calls that
  returned, and those on which the handler ran, in order. \<open>gs0\<close> is the word at gs:0 of each processor.
\<close>

record smp =
  ipi_lock :: spinlock
  ipi_done :: u32
  at_cpu :: "nat \<Rightarrow> machine"
  gs0 :: "nat \<Rightarrow> u32"
  caller :: "nat \<Rightarrow> ipi_pc"
  in_ipi :: "nat \<Rightarrow> handler_pc"
  flight :: "(u32 \<times> u32) list"
  irr :: "nat \<Rightarrow> u8 set"
  returned :: "u32 list"
  handled :: "u32 list"

definition setup_smp_id :: "nat \<Rightarrow> smp \<Rightarrow> smp" where
  "setup_smp_id i s =
     (let (x, m) = apic_id (at_cpu s i) in s\<lparr>at_cpu := (at_cpu s)(i := m), gs0 := (gs0 s)(i := x)\<rparr>)"

definition smp_id :: "nat \<Rightarrow> smp \<Rightarrow> u32" where
  "smp_id i s = gs0 s i"

text \<open>The identifier a call of \<open>on_cpu\<close> for entry \<open>t\<close> of \<open>cpus\<close> passes on.\<close>

definition dest_of :: "mpstate \<Rightarrow> nat \<Rightarrow> u32" where
  "dest_of mp t = ucast (apicid (cpus mp ! t))"

definition IPI_COMMAND :: u32 where
  "IPI_COMMAND = APIC_INT_ASSERT OR APIC_DEST_PHYSICAL OR APIC_DM_FIXED OR IPI_VECTOR"

text \<open>The interrupts sent between two states of a processor.\<close>

definition new_ipis :: "machine \<Rightarrow> machine \<Rightarrow> (u32 \<times> u32) list" where
  "new_ipis m m' = drop (length (ipis g_apic (accesses m))) (ipis g_apic (accesses m'))"

definition interrupts_on :: "machine \<Rightarrow> bool" where
  "interrupts_on m \<longleftrightarrow> readeflags m AND FL_IF \<noteq> 0"

text \<open>The steps that get something done. A processor in the handler does not go on with its call.\<close>

inductive smp_work :: "mpstate \<Rightarrow> smp \<Rightarrow> smp \<Rightarrow> bool" for mp where
  lock: "\<lbrakk>i < ncpu mp; caller s i = Locking d; in_ipi s i = Idle; sync_lock_test_and_set (ipi_lock s) 1 = (0, l)\<rbrakk> \<Longrightarrow>
    smp_work mp s (s\<lparr>ipi_lock := l, caller := (caller s)(i := Clearing d)\<rparr>)"
| clear: "\<lbrakk>i < ncpu mp; caller s i = Clearing d; in_ipi s i = Idle\<rbrakk> \<Longrightarrow>
    smp_work mp s (s\<lparr>ipi_done := 0, caller := (caller s)(i := Sending d)\<rparr>)"
| send: "\<lbrakk>i < ncpu mp; caller s i = Sending d; in_ipi s i = Idle; apic_icr_write IPI_COMMAND d (at_cpu s i) = Some m\<rbrakk> \<Longrightarrow>
    smp_work mp s (s\<lparr>at_cpu := (at_cpu s)(i := m), flight := flight s @ new_ipis (at_cpu s i) m,
      caller := (caller s)(i := Await d)\<rparr>)"
| seen: "\<lbrakk>i < ncpu mp; caller s i = Await d; in_ipi s i = Idle; ipi_done s \<noteq> 0\<rbrakk> \<Longrightarrow>
    smp_work mp s (s\<lparr>caller := (caller s)(i := Unlocking d)\<rparr>)"
| unlock: "\<lbrakk>i < ncpu mp; caller s i = Unlocking d; in_ipi s i = Idle\<rbrakk> \<Longrightarrow>
    smp_work mp s (s\<lparr>ipi_lock := spin_unlock (ipi_lock s), caller := (caller s)(i := Out),
      returned := returned s @ [d]\<rparr>)"
| deliver: "\<lbrakk>j < ncpu mp; flight s = xs @ (dest_of mp j, w) # ys; decode_ipi w = Fixed v\<rbrakk> \<Longrightarrow>
    smp_work mp s (s\<lparr>flight := xs @ ys, irr := (irr s)(j := insert v (irr s j))\<rparr>)"
| interrupt: "\<lbrakk>j < ncpu mp; in_ipi s j = Idle; interrupts_on (at_cpu s j); ucast IPI_VECTOR \<in> irr s j\<rbrakk> \<Longrightarrow>
    smp_work mp s (s\<lparr>irr := (irr s)(j := irr s j - {ucast IPI_VECTOR}), in_ipi := (in_ipi s)(j := Entered)\<rparr>)"
| ipi_done: "\<lbrakk>j < ncpu mp; in_ipi s j = Entered\<rbrakk> \<Longrightarrow>
    smp_work mp s (s\<lparr>ipi_done := 1, in_ipi := (in_ipi s)(j := Acking), handled := handled s @ [dest_of mp j]\<rparr>)"
| ipi_eoi: "\<lbrakk>j < ncpu mp; in_ipi s j = Acking\<rbrakk> \<Longrightarrow>
    smp_work mp s (s\<lparr>at_cpu := (at_cpu s)(j := apic_write APIC_EOI 0 (at_cpu s j)), in_ipi := (in_ipi s)(j := Idle)\<rparr>)"

text \<open>All steps: also a new call, and one more turn of one of the two loops.\<close>

inductive smp_step :: "mpstate \<Rightarrow> smp \<Rightarrow> smp \<Rightarrow> bool" for mp where
  work: "smp_work mp s s' \<Longrightarrow> smp_step mp s s'"
| on_cpu: "\<lbrakk>i < ncpu mp; caller s i = Out; in_ipi s i = Idle; t < ncpu mp\<rbrakk> \<Longrightarrow>
    smp_step mp s (s\<lparr>caller := (caller s)(i := Locking (dest_of mp t))\<rparr>)"
| spin: "\<lbrakk>i < ncpu mp; caller s i = Locking d; in_ipi s i = Idle; sync_lock_test_and_set (ipi_lock s) 1 = (old, l);
    old \<noteq> 0\<rbrakk> \<Longrightarrow> smp_step mp s (s\<lparr>ipi_lock := l\<rparr>)"
| wait: "\<lbrakk>i < ncpu mp; caller s i = Await d; in_ipi s i = Idle; ipi_done s = 0\<rbrakk> \<Longrightarrow> smp_step mp s s"

inductive_cases smp_workE: "smp_work mp s s'"
inductive_cases smp_stepE: "smp_step mp s s'"

section \<open>The invariant\<close>

text \<open>The processors between the lock and its release, and the one interrupt that may be under way.\<close>

fun holds :: "ipi_pc \<Rightarrow> bool" where
  "holds Out \<longleftrightarrow> False"
| "holds (Locking _) \<longleftrightarrow> False"
| "holds _ \<longleftrightarrow> True"

definition under_way :: "smp \<Rightarrow> (u32 \<times> u32) list \<times> (nat \<Rightarrow> u8 set) \<times> (nat \<Rightarrow> bool)" where
  "under_way s = (flight s, irr s, \<lambda>j. in_ipi s j = Entered)"

definition nothing_under_way :: "(u32 \<times> u32) list \<times> (nat \<Rightarrow> u8 set) \<times> (nat \<Rightarrow> bool)" where
  "nothing_under_way = ([], \<lambda>_. {}, \<lambda>_. False)"

definition one_under_way :: "mpstate \<Rightarrow> u32 \<Rightarrow> (u32 \<times> u32) list \<times> (nat \<Rightarrow> u8 set) \<times> (nat \<Rightarrow> bool) \<Rightarrow> bool" where
  "one_under_way mp d w \<longleftrightarrow> (\<exists>t<ncpu mp. d = dest_of mp t \<and>
     (w = ([(d, IPI_COMMAND)], \<lambda>_. {}, \<lambda>_. False) \<or>
      w = ([], (\<lambda>_. {})(t := {ucast IPI_VECTOR}), \<lambda>_. False) \<or>
      w = ([], \<lambda>_. {}, \<lambda>j. j = t)))"

text \<open>What holds while a processor is at a point of its call.\<close>

fun at_point :: "mpstate \<Rightarrow> smp \<Rightarrow> ipi_pc \<Rightarrow> bool" where
  "at_point mp s (Clearing d) \<longleftrightarrow> under_way s = nothing_under_way \<and> handled s = returned s"
| "at_point mp s (Sending d) \<longleftrightarrow> under_way s = nothing_under_way \<and> handled s = returned s \<and> ipi_done s = 0"
| "at_point mp s (Await d) \<longleftrightarrow>
     (if ipi_done s = 0 then one_under_way mp d (under_way s) \<and> handled s = returned s
      else under_way s = nothing_under_way \<and> handled s = returned s @ [d])"
| "at_point mp s (Unlocking d) \<longleftrightarrow> under_way s = nothing_under_way \<and> handled s = returned s @ [d]"
| "at_point mp s pc \<longleftrightarrow> False"

fun target_ok :: "mpstate \<Rightarrow> ipi_pc \<Rightarrow> bool" where
  "target_ok mp Out \<longleftrightarrow> True"
| "target_ok mp (Locking d) \<longleftrightarrow> d \<in> dest_of mp ` {..<ncpu mp}"
| "target_ok mp (Clearing d) \<longleftrightarrow> d \<in> dest_of mp ` {..<ncpu mp}"
| "target_ok mp (Sending d) \<longleftrightarrow> d \<in> dest_of mp ` {..<ncpu mp}"
| "target_ok mp (Await d) \<longleftrightarrow> d \<in> dest_of mp ` {..<ncpu mp}"
| "target_ok mp (Unlocking d) \<longleftrightarrow> d \<in> dest_of mp ` {..<ncpu mp}"

definition smp_inv :: "mpstate \<Rightarrow> smp \<Rightarrow> bool" where
  "smp_inv mp s \<longleftrightarrow> (\<forall>i. target_ok mp (caller s i)) \<and>
     (if lock_v (ipi_lock s) = 0
      then (\<forall>i. \<not> holds (caller s i)) \<and> under_way s = nothing_under_way \<and> handled s = returned s
      else \<exists>i<ncpu mp. (\<forall>j. holds (caller s j) \<longleftrightarrow> j = i) \<and> at_point mp s (caller s i))"

definition smp_start :: "smp \<Rightarrow> bool" where
  "smp_start s \<longleftrightarrow> lock_v (ipi_lock s) = 0 \<and> caller s = (\<lambda>_. Out) \<and> in_ipi s = (\<lambda>_. Idle) \<and> flight s = [] \<and>
     irr s = (\<lambda>_. {}) \<and> returned s = [] \<and> handled s = []"

lemma smp_inv_start: "smp_start s \<Longrightarrow> smp_inv mp s"
  by (simp add: smp_start_def smp_inv_def under_way_def nothing_under_way_def)

lemma dest_less: "dest_of mp t < 256"
proof -
  have "unat (apicid (cpus mp ! t)) < 2 ^ LENGTH(8)"
    by (rule unsigned_less)
  then have "unat (dest_of mp t) < 256"
    by (simp add: dest_of_def unsigned_ucast_eq take_bit_nat_eq_self)
  then show ?thesis
    by (simp add: word_less_nat_alt)
qed

text \<open>What the interrupt controller does for \<open>__on_cpu\<close> and \<open>ipi\<close>, in either mode.\<close>

lemma icr_write_sends:
  assumes "apic_icr_write x d m = Some m'" "d < 256"
  shows "new_ipis m m' = [(d, x)]" "m' = m\<lparr>accesses := accesses m'\<rparr>"
proof -
  have "ipis g_apic (accesses m') = ipis g_apic (accesses m) @ [(d, x)] \<and> m' = m\<lparr>accesses := accesses m'\<rparr>"
    using assms xapic.driver_run [of "[Send x d]" m m'] x2apic.driver_run [of "[Send x d]" m m']
    by (cases "apic_ops m") simp_all
  then show "new_ipis m m' = [(d, x)]" "m' = m\<lparr>accesses := accesses m'\<rparr>"
    by (auto simp: new_ipis_def)
qed

lemma eoi_frame: "apic_write APIC_EOI 0 m = m\<lparr>accesses := accesses (apic_write APIC_EOI 0 m)\<rparr>"
  using xapic.acknowledge [of m] x2apic.acknowledge [of m] by (cases "apic_ops m") (auto simp: apic_write_def)

lemma decode_IPI_COMMAND: "decode_ipi IPI_COMMAND = Fixed (ucast IPI_VECTOR)"
  by code_simp

lemma smp_inv_holder:
  assumes "smp_inv mp s" "holds (caller s i)"
  shows "lock_v (ipi_lock s) \<noteq> 0" "holds (caller s j) \<longleftrightarrow> j = i" "at_point mp s (caller s i)" "i < ncpu mp"
  using assms by (auto simp: smp_inv_def split: if_splits)

lemma smp_inv_target: "smp_inv mp s \<Longrightarrow> target_ok mp (caller s i)"
  by (simp add: smp_inv_def)

lemma smp_inv_held:
  assumes "\<And>j. target_ok mp (caller s j)" "lock_v (ipi_lock s) \<noteq> 0" "i < ncpu mp" "\<And>j. holds (caller s j) \<longleftrightarrow> j = i"
    "at_point mp s (caller s i)"
  shows "smp_inv mp s"
  using assms by (auto simp: smp_inv_def)

text \<open>A step of the hardware or of the handler changes neither the callers nor the lock.\<close>

lemma smp_inv_other:
  assumes "smp_inv mp s" "caller s' = caller s" "ipi_lock s' = ipi_lock s" "under_way s \<noteq> nothing_under_way"
    "\<And>d. one_under_way mp d (under_way s) \<Longrightarrow> ipi_done s = 0 \<Longrightarrow> handled s = returned s \<Longrightarrow> at_point mp s' (Await d)"
  shows "smp_inv mp s'"
proof -
  obtain i where i: "holds (caller s i)"
    using assms(1,4) by (auto simp: smp_inv_def split: if_splits)
  note h = smp_inv_holder [OF assms(1) i]
  then obtain d where d: "caller s i = Await d" "one_under_way mp d (under_way s)" "ipi_done s = 0" "handled s = returned s"
    using assms(4) i by (cases "caller s i") (auto split: if_splits)
  then show ?thesis
    using h assms by (intro smp_inv_held [of mp s' i]) (auto simp: smp_inv_def)
qed

lemma smp_inv_caller:
  assumes "smp_inv mp s" "smp_work mp s s'" "caller s' \<noteq> caller s"
  shows "smp_inv mp s'"
  using assms(2,3)
proof (cases rule: smp_work.cases)
  case (lock i d l)
  then show ?thesis
    using assms(1) smp_inv_target [OF assms(1), of i] by (intro smp_inv_held [of mp s' i])
      (auto simp: smp_inv_def sync_lock_test_and_set_def under_way_def split: if_splits)
next
  case (clear i d)
  then show ?thesis
    using smp_inv_holder [OF assms(1), of i] smp_inv_target [OF assms(1)] smp_inv_target [OF assms(1), of i]
    by (intro smp_inv_held [of mp s' i]) (auto simp: under_way_def)
next
  case (send i d m)
  then have "d \<in> dest_of mp ` {..<ncpu mp}"
    using smp_inv_target [OF assms(1), of i] by simp
  then have "new_ipis (at_cpu s i) m = [(d, IPI_COMMAND)]"
    using icr_write_sends(1) [OF send(5)] dest_less by auto
  then show ?thesis
    using smp_inv_holder [OF assms(1), of i] smp_inv_target [OF assms(1)] send \<open>d \<in> _\<close>
    by (intro smp_inv_held [of mp s' i]) (auto simp: under_way_def nothing_under_way_def one_under_way_def)
next
  case (seen i d)
  then show ?thesis
    using smp_inv_holder [OF assms(1), of i] smp_inv_target [OF assms(1)] smp_inv_target [OF assms(1), of i]
    by (intro smp_inv_held [of mp s' i]) (auto simp: under_way_def)
next
  case (unlock i d)
  then show ?thesis
    using smp_inv_holder [OF assms(1), of i] assms(1) by (auto simp: smp_inv_def under_way_def)
qed simp_all

lemma smp_inv_work:
  assumes "smp_inv mp s" "smp_work mp s s'"
  shows "smp_inv mp s'"
proof (cases "caller s' = caller s")
  case True
  show ?thesis
    using assms(2)
  proof (cases rule: smp_work.cases)
    case (deliver j xs w ys v)
    then show ?thesis
      by (intro smp_inv_other [OF assms(1) True])
        (auto simp: under_way_def nothing_under_way_def one_under_way_def Cons_eq_append_conv append_eq_Cons_conv
          decode_IPI_COMMAND)
  next
    case (interrupt j)
    show ?thesis
    proof (rule smp_inv_other [OF assms(1) True])
      fix d
      assume d: "one_under_way mp d (under_way s)" "ipi_done s = 0" "handled s = returned s"
      then have "d = dest_of mp j \<and> under_way s = ([], (\<lambda>_. {})(j := {ucast IPI_VECTOR}), \<lambda>_. False)"
        using interrupt by (auto simp: under_way_def one_under_way_def split: if_splits)
      then have "under_way s' = ([], \<lambda>_. {}, \<lambda>k. k = j)" "d = dest_of mp j"
        using interrupt by (auto simp: under_way_def fun_eq_iff)
      then show "at_point mp s' (Await d)"
        using d interrupt by (auto simp: one_under_way_def)
    qed (use interrupt in \<open>auto simp: under_way_def nothing_under_way_def\<close>)
  next
    case (ipi_done j)
    then show ?thesis
      by (intro smp_inv_other [OF assms(1) True])
        (auto simp: under_way_def nothing_under_way_def one_under_way_def fun_eq_iff)
  next
    case (ipi_eoi j)
    then have "under_way s' = under_way s"
      by (auto simp: under_way_def)
    then have "at_point mp s' p = at_point mp s p" for p
      using ipi_eoi by (cases p) simp_all
    then show ?thesis
      using assms(1) ipi_eoi \<open>under_way s' = under_way s\<close> by (simp add: smp_inv_def)
  qed (use True in \<open>simp_all add: fun_eq_iff split: if_splits\<close>)
qed (use assms smp_inv_caller in blast)

lemma smp_inv_step:
  assumes "smp_inv mp s" "smp_step mp s s'"
  shows "smp_inv mp s'"
  using assms(2)
proof (cases rule: smp_step.cases)
  case work
  then show ?thesis
    using assms(1) by (rule smp_inv_work [rotated])
next
  case (on_cpu i t)
  have same: "at_point mp s' = at_point mp s"
    using on_cpu by (intro ext, rename_tac p, case_tac p) (simp_all add: under_way_def)
  show ?thesis
  proof (cases "\<exists>h. holds (caller s h)")
    case True
    then obtain h where h: "holds (caller s h)"
      by blast
    with on_cpu have "h \<noteq> i"
      by auto
    then show ?thesis
      using on_cpu same smp_inv_holder [OF assms(1) h] smp_inv_target [OF assms(1)]
      by (intro smp_inv_held [of mp s' h]) auto
  qed (use assms(1) on_cpu in \<open>auto simp: smp_inv_def under_way_def split: if_splits\<close>)
next
  case (spin i d old l)
  then have "ipi_lock s' = (ipi_lock s)\<lparr>lock_v := 1\<rparr>" "lock_v (ipi_lock s) \<noteq> 0"
    by (auto simp: sync_lock_test_and_set_def)
  moreover have "at_point mp s' = at_point mp s"
    using spin by (intro ext, rename_tac p, case_tac p) (simp_all add: under_way_def)
  ultimately show ?thesis
    using assms(1) spin by (simp add: smp_inv_def)
qed (use assms(1) in simp)

lemma smp_inv_reachable: "(smp_step mp)\<^sup>*\<^sup>* s0 s \<Longrightarrow> smp_start s0 \<Longrightarrow> smp_inv mp s"
  by (induction rule: rtranclp_induct) (blast intro: smp_inv_start smp_inv_step)+

section \<open>Progress\<close>

text \<open>An upper bound on the work that is left.\<close>

fun pc_weight :: "ipi_pc \<Rightarrow> nat" where
  "pc_weight Out = 0"
| "pc_weight (Locking _) = 9"
| "pc_weight (Clearing _) = 8"
| "pc_weight (Sending _) = 7"
| "pc_weight (Await _) = 2"
| "pc_weight (Unlocking _) = 1"

fun handler_weight :: "handler_pc \<Rightarrow> nat" where
  "handler_weight Idle = 0"
| "handler_weight Entered = 2"
| "handler_weight Acking = 1"

definition cpu_weight :: "smp \<Rightarrow> nat \<Rightarrow> nat" where
  "cpu_weight s k = pc_weight (caller s k) + handler_weight (in_ipi s k) + (if ucast IPI_VECTOR \<in> irr s k then 3 else 0)"

definition smp_weight :: "mpstate \<Rightarrow> smp \<Rightarrow> nat" where
  "smp_weight mp s = 4 * length (flight s) + (\<Sum>k<ncpu mp. cpu_weight s k)"

lemma sum_change:
  fixes F F' :: "nat \<Rightarrow> nat"
  assumes "i < n" "\<And>k. k \<noteq> i \<Longrightarrow> F' k = F k"
  shows "(\<Sum>k<n. F' k) + F i = (\<Sum>k<n. F k) + F' i"
proof -
  have "(\<Sum>k\<in>{..<n} - {i}. F' k) = (\<Sum>k\<in>{..<n} - {i}. F k)"
    using assms(2) by (intro sum.cong) auto
  then show ?thesis
    using assms(1) by (simp add: sum.remove [of "{..<n}" i F'] sum.remove [of "{..<n}" i F])
qed

lemma smp_weight_less:
  assumes "i < ncpu mp" "\<And>k. k \<noteq> i \<Longrightarrow> cpu_weight s' k = cpu_weight s k"
    "4 * length (flight s') + cpu_weight s' i < 4 * length (flight s) + cpu_weight s i"
  shows "smp_weight mp s' < smp_weight mp s"
  using sum_change [of i "ncpu mp" "cpu_weight s'" "cpu_weight s"] assms by (simp add: smp_weight_def)

lemma smp_work_weight:
  assumes "smp_inv mp s" "smp_work mp s s'"
  shows "smp_weight mp s' < smp_weight mp s"
  using assms(2)
proof (cases rule: smp_work.cases)
  case (send i d m)
  then have "d < 256"
    using smp_inv_target [OF assms(1), of i] dest_less by auto
  then have "new_ipis (at_cpu s i) m = [(d, IPI_COMMAND)]"
    using icr_write_sends(1) send by blast
  then show ?thesis
    using send by (intro smp_weight_less [of i]) (simp_all add: cpu_weight_def)
next
  case (deliver j xs w ys v)
  then show ?thesis
    by (intro smp_weight_less [of j]) (simp_all add: cpu_weight_def)
next
  case (lock i d l)
  then show ?thesis
    by (intro smp_weight_less [of i]) (simp_all add: cpu_weight_def)
next
  case (clear i d)
  then show ?thesis
    by (intro smp_weight_less [of i]) (simp_all add: cpu_weight_def)
next
  case (seen i d)
  then show ?thesis
    by (intro smp_weight_less [of i]) (simp_all add: cpu_weight_def)
next
  case (unlock i d)
  then show ?thesis
    by (intro smp_weight_less [of i]) (simp_all add: cpu_weight_def)
next
  case (interrupt j)
  then show ?thesis
    by (intro smp_weight_less [of j]) (simp_all add: cpu_weight_def)
next
  case (ipi_done j)
  then show ?thesis
    by (intro smp_weight_less [of j]) (simp_all add: cpu_weight_def)
next
  case (ipi_eoi j)
  then show ?thesis
    by (intro smp_weight_less [of j]) (simp_all add: cpu_weight_def)
qed

text \<open>The processors take interrupts and use the command register of the newer mode.\<close>

definition smp_ready :: "mpstate \<Rightarrow> smp \<Rightarrow> bool" where
  "smp_ready mp s \<longleftrightarrow> (\<forall>i<ncpu mp. interrupts_on (at_cpu s i) \<and> apic_ops (at_cpu s i) = X2apic_ops)"

lemma machine_frame:
  "m' = m\<lparr>accesses := es\<rparr> \<Longrightarrow> interrupts_on m' = interrupts_on m \<and> apic_ops m' = apic_ops m"
  by (simp add: interrupts_on_def readeflags_def)

lemma smp_step_frame:
  assumes "smp_inv mp s" "smp_step mp s s'"
  shows "interrupts_on (at_cpu s' k) = interrupts_on (at_cpu s k) \<and> apic_ops (at_cpu s' k) = apic_ops (at_cpu s k)"
  using assms(2)
proof (cases rule: smp_step.cases)
  case work
  then show ?thesis
  proof (cases rule: smp_work.cases)
    case (send i d m)
    then have "d < 256"
      using smp_inv_target [OF assms(1), of i] dest_less by auto
    then show ?thesis
      using send machine_frame [OF icr_write_sends(2) [OF send(5)]] by simp
  next
    case (ipi_eoi j)
    then show ?thesis
      using machine_frame [OF eoi_frame] by simp
  qed simp_all
qed simp_all

lemma smp_await_progress:
  assumes "one_under_way mp d (under_way s)" "\<And>j. j < ncpu mp \<Longrightarrow> in_ipi s j = Idle" "smp_ready mp s"
  shows "\<exists>s'. smp_work mp s s'"
proof -
  obtain t where t: "t < ncpu mp" "flight s = [(dest_of mp t, IPI_COMMAND)] \<or>
      ucast IPI_VECTOR \<in> irr s t \<or> in_ipi s t = Entered"
    using assms(1) unfolding one_under_way_def under_way_def by (auto dest: fun_cong)
  then have "flight s = [] @ (dest_of mp t, IPI_COMMAND) # [] \<or> ucast IPI_VECTOR \<in> irr s t"
    using assms(2) [OF t(1)] by simp
  then show ?thesis
  proof
    assume "flight s = [] @ (dest_of mp t, IPI_COMMAND) # []"
    from smp_work.deliver [OF t(1) this decode_IPI_COMMAND] show ?thesis
      by blast
  next
    assume "ucast IPI_VECTOR \<in> irr s t"
    with smp_work.interrupt [OF t(1) assms(2) [OF t(1)]] t(1) assms(3) show ?thesis
      by (auto simp: smp_ready_def)
  qed
qed

lemma smp_progress:
  assumes inv: "smp_inv mp s" and "smp_ready mp s" "i < ncpu mp" "caller s i \<noteq> Out"
  shows "\<exists>s'. smp_work mp s s'"
proof (cases "\<exists>j<ncpu mp. in_ipi s j \<noteq> Idle")
  case True
  then show ?thesis
    by (meson handler_pc.exhaust smp_work.ipi_done smp_work.ipi_eoi)
next
  case False
  then have idle: "in_ipi s j = Idle" if "j < ncpu mp" for j
    using that by blast
  show ?thesis
  proof (cases "lock_v (ipi_lock s) = 0")
    case True
    then have "\<not> holds (caller s i)"
      using inv by (simp add: smp_inv_def)
    then obtain d where "caller s i = Locking d"
      using assms(4) by (cases "caller s i") simp_all
    moreover have "sync_lock_test_and_set (ipi_lock s) 1 = (0, (ipi_lock s)\<lparr>lock_v := 1\<rparr>)"
      using True by (simp add: sync_lock_test_and_set_def)
    ultimately show ?thesis
      using smp_work.lock [OF assms(3) _ idle [OF assms(3)]] by blast
  next
    case False
    then obtain h where h: "h < ncpu mp" "at_point mp s (caller s h)"
      using inv by (auto simp: smp_inv_def)
    show ?thesis
    proof (cases "caller s h")
      case (Sending d)
      have "\<exists>m. apic_icr_write IPI_COMMAND d (at_cpu s h) = Some m"
        using assms(2) h(1) by (simp add: smp_ready_def apic_icr_write_def x2apic_ops_def x2apic_icr_write_def)
      then show ?thesis
        using smp_work.send [OF h(1) Sending idle [OF h(1)]] by blast
    next
      case (Await d)
      show ?thesis
      proof (cases "ipi_done s = 0")
        case True
        then show ?thesis
          using h(2) Await idle assms(2) by (auto intro: smp_await_progress)
      qed (use smp_work.seen [OF h(1) Await idle [OF h(1)]] in blast)
    next
      case (Clearing d)
      then show ?thesis
        using smp_work.clear [OF h(1) _ idle [OF h(1)]] by blast
    next
      case (Unlocking d)
      then show ?thesis
        using smp_work.unlock [OF h(1) _ idle [OF h(1)]] by blast
    qed (use h(2) in simp_all)
  qed
qed

lemma smp_ready_step: "smp_inv mp s \<Longrightarrow> smp_ready mp s \<Longrightarrow> smp_step mp s s' \<Longrightarrow> smp_ready mp s'"
  by (simp add: smp_ready_def smp_step_frame)

lemma smp_ready_reachable:
  assumes "smp_start s0" "smp_ready mp s0" "(smp_step mp)\<^sup>*\<^sup>* s0 s"
  shows "smp_ready mp s"
  using assms(3)
proof (induction rule: rtranclp_induct)
  case (step y z)
  then show ?case
    using smp_inv_reachable [OF step.hyps(1) assms(1)] by (blast intro: smp_ready_step)
qed (rule assms(2))

lemma smp_completes:
  assumes "smp_inv mp s" "smp_ready mp s"
  shows "\<exists>s'. (smp_work mp)\<^sup>*\<^sup>* s s' \<and> smp_inv mp s' \<and> (\<forall>i<ncpu mp. caller s' i = Out)"
  using assms
proof (induction "smp_weight mp s" arbitrary: s rule: less_induct)
  case less
  show ?case
  proof (cases "\<exists>i<ncpu mp. caller s i \<noteq> Out")
    case True
    then obtain t where "smp_work mp s t"
      using smp_progress [OF less.prems] by blast
    moreover from this obtain s' where "(smp_work mp)\<^sup>*\<^sup>* t s'" "smp_inv mp s'" "\<forall>i<ncpu mp. caller s' i = Out"
      using less.hyps [of t] less.prems smp_work_weight smp_inv_work smp_ready_step smp_step.work by metis
    ultimately show ?thesis
      by (blast intro: converse_rtranclp_into_rtranclp)
  qed (use less.prems in blast)
qed

lemma smp_inv_all_out:
  assumes "smp_inv mp s" "\<forall>i<ncpu mp. caller s i = Out"
  shows "handled s = returned s"
proof -
  have "lock_v (ipi_lock s) = 0"
    using assms by (fastforce simp: smp_inv_def split: if_splits)
  then show ?thesis
    using assms(1) by (simp add: smp_inv_def)
qed

section \<open>A target that takes no interrupts\<close>

lemma masked_step:
  assumes "smp_inv mp s" "\<forall>k<ncpu mp. dest_of mp k = dest_of mp t \<longrightarrow> k = t" "smp_step mp s s'"
    "caller s i = Await (dest_of mp t) \<and> ipi_done s = 0 \<and> in_ipi s t \<noteq> Entered \<and> \<not> interrupts_on (at_cpu s t)"
  shows "caller s' i = Await (dest_of mp t) \<and> ipi_done s' = 0 \<and> in_ipi s' t \<noteq> Entered \<and> \<not> interrupts_on (at_cpu s' t)"
proof -
  have on: "\<not> interrupts_on (at_cpu s' t)"
    using smp_step_frame [OF assms(1,3)] assms(4) by simp
  have holder: "k = i" if "holds (caller s k)" for k
    using smp_inv_holder(2) [OF assms(1), of i k] that assms(4) by simp
  have quiet: "in_ipi s k \<noteq> Entered" if "k < ncpu mp" for k
    using smp_inv_holder(3) [OF assms(1), of i] assms(2,4) that
    by (auto simp: one_under_way_def under_way_def dest: fun_cong)
  show ?thesis
    using assms(3)
  proof (cases rule: smp_step.cases)
    case work
    then show ?thesis
      using on assms(4) holder quiet by (cases rule: smp_work.cases) auto
  qed (use on assms(4) in auto)
qed

section \<open>One run of a call\<close>

text \<open>
  The run of \<open>on_cpu\<close> in which no other processor calls and the handler is through before the caller
  looks at \<open>ipi_done\<close> again. \<open>None\<close> when the call does not come back: the lock is taken, or the
  processor called takes no interrupts.
\<close>

definition run_ipi :: "mpstate \<Rightarrow> nat \<Rightarrow> smp \<Rightarrow> smp option" where
  "run_ipi mp j s =
     (if j < ncpu mp \<and> in_ipi s j = Idle \<and> interrupts_on (at_cpu s j)
      then Some (s\<lparr>ipi_done := 1, handled := handled s @ [dest_of mp j],
        at_cpu := (at_cpu s)(j := apic_write APIC_EOI 0 (at_cpu s j))\<rparr>)
      else None)"

definition on_cpu_run :: "mpstate \<Rightarrow> nat \<Rightarrow> nat \<Rightarrow> smp \<Rightarrow> smp option" where
  "on_cpu_run mp i t s =
     (case sync_lock_test_and_set (ipi_lock s) 1 of (old, l) \<Rightarrow>
        if old \<noteq> 0 then None
        else do { let s = s\<lparr>ipi_lock := l\<rparr>;
                  let s = s\<lparr>ipi_done := 0\<rparr>;
                  m \<leftarrow> apic_icr_write IPI_COMMAND (dest_of mp t) (at_cpu s i);
                  s \<leftarrow> run_ipi mp t (s\<lparr>at_cpu := (at_cpu s)(i := m)\<rparr>);
                  Some (s\<lparr>ipi_lock := spin_unlock (ipi_lock s), returned := returned s @ [dest_of mp t]\<rparr>) })"

definition smp_quiet :: "smp \<Rightarrow> bool" where
  "smp_quiet s \<longleftrightarrow> lock_v (ipi_lock s) = 0 \<and> caller s = (\<lambda>_. Out) \<and> in_ipi s = (\<lambda>_. Idle) \<and> flight s = [] \<and>
     irr s = (\<lambda>_. {})"

lemma on_cpu_run_steps:
  assumes "smp_quiet s" "i < ncpu mp" "on_cpu_run mp i t s = Some s'"
  shows "(smp_step mp)\<^sup>*\<^sup>* s s'"
proof -
  let ?d = "dest_of mp t" and ?l = "(ipi_lock s)\<lparr>lock_v := 1\<rparr>" and ?v = "ucast IPI_VECTOR :: u8"
  note q = assms(1) [unfolded smp_quiet_def]
  obtain m where m: "apic_icr_write IPI_COMMAND ?d (at_cpu s i) = Some m" and t: "t < ncpu mp"
      "interrupts_on (((at_cpu s)(i := m)) t)"
    and s': "s' = s\<lparr>ipi_lock := spin_unlock ?l, ipi_done := 1, handled := handled s @ [?d], returned := returned s @ [?d],
      at_cpu := ((at_cpu s)(i := m))(t := apic_write APIC_EOI 0 (((at_cpu s)(i := m)) t))\<rparr>"
    using assms(3) q by (auto simp: on_cpu_run_def run_ipi_def sync_lock_test_and_set_def Let_def bind_eq_Some_conv
        split: if_splits)
  define c where "c p = (\<lambda>_. Out)(i := p)" for p
  let ?s1 = "s\<lparr>caller := c (Locking ?d)\<rparr>"
  let ?s2 = "s\<lparr>ipi_lock := ?l, caller := c (Clearing ?d)\<rparr>"
  let ?s3 = "s\<lparr>ipi_lock := ?l, ipi_done := 0, caller := c (Sending ?d)\<rparr>"
  let ?s4 = "s\<lparr>ipi_lock := ?l, ipi_done := 0, at_cpu := (at_cpu s)(i := m), flight := [(?d, IPI_COMMAND)], caller := c (Await ?d)\<rparr>"
  let ?s5 = "?s4\<lparr>flight := [], irr := (\<lambda>_. {})(t := {?v})\<rparr>"
  let ?s6 = "?s4\<lparr>flight := [], in_ipi := (\<lambda>_. Idle)(t := Entered)\<rparr>"
  let ?s7 = "?s4\<lparr>flight := [], in_ipi := (\<lambda>_. Idle)(t := Acking), ipi_done := 1, handled := handled s @ [?d]\<rparr>"
  let ?s8 = "s'\<lparr>ipi_lock := ?l, caller := c (Await ?d), returned := returned s\<rparr>"
  have 1: "smp_step mp s ?s1"
    using smp_step.on_cpu [of i mp s t] q assms(2) t(1) by (simp add: c_def)
  have 2: "smp_work mp ?s1 ?s2"
    using smp_work.lock [of i mp ?s1 ?d ?l] q assms(2) by (simp add: c_def sync_lock_test_and_set_def)
  have 3: "smp_work mp ?s2 ?s3"
    using smp_work.clear [of i mp ?s2 ?d] q assms(2) by (simp add: c_def)
  have 4: "smp_work mp ?s3 ?s4"
    using smp_work.send [of i mp ?s3 ?d m] q assms(2) m icr_write_sends(1) [OF m dest_less] by (simp add: c_def)
  have 5: "smp_work mp ?s4 ?s5"
    using smp_work.deliver [OF t(1), of ?s4 "[]" IPI_COMMAND "[]"] q decode_IPI_COMMAND by simp
  have 6: "smp_work mp ?s5 ?s6"
    using smp_work.interrupt [OF t(1), of ?s5] q t(2) by (cases s) (simp add: fun_upd_idem)
  have 7: "smp_work mp ?s6 ?s7"
    using smp_work.ipi_done [OF t(1), of ?s6] by (cases s) simp
  have 8: "smp_work mp ?s7 ?s8"
    using smp_work.ipi_eoi [OF t(1), of ?s7] q by (cases s) (simp add: s' fun_upd_idem)
  have 9: "smp_work mp ?s8 (?s8\<lparr>caller := c (Unlocking ?d)\<rparr>)"
    using smp_work.seen [of i mp ?s8 ?d] q assms(2) by (cases s) (simp add: c_def s')
  have 10: "smp_work mp (?s8\<lparr>caller := c (Unlocking ?d)\<rparr>) s'"
    using smp_work.unlock [of i mp "?s8\<lparr>caller := c (Unlocking ?d)\<rparr>" ?d] q assms(2) by (cases s) (simp add: c_def s' fun_upd_idem)
  note step = converse_rtranclp_into_rtranclp [where r = "smp_step mp", OF smp_step.work]
  show ?thesis
    by (rule converse_rtranclp_into_rtranclp [OF 1 step [OF 2 step [OF 3 step [OF 4 step [OF 5 step [OF 6 step [OF 7
      step [OF 8 step [OF 9 step [OF 10 rtranclp.rtrancl_refl]]]]]]]]]])
qed

lemma on_cpu_run_returns:
  assumes "smp_quiet s" "apic_ops (at_cpu s i) = X2apic_ops" "t < ncpu mp" "interrupts_on (at_cpu s t)"
  shows "\<exists>s'. on_cpu_run mp i t s = Some s' \<and> smp_quiet s' \<and>
    (\<forall>k. interrupts_on (at_cpu s' k) = interrupts_on (at_cpu s k) \<and> apic_ops (at_cpu s' k) = apic_ops (at_cpu s k))"
proof -
  obtain m where m: "apic_icr_write IPI_COMMAND (dest_of mp t) (at_cpu s i) = Some m"
    using assms(2) by (simp add: apic_icr_write_def x2apic_ops_def x2apic_icr_write_def)
  note frame = machine_frame [OF icr_write_sends(2) [OF m dest_less]]
  have eoi: "interrupts_on (apic_write APIC_EOI 0 x) = interrupts_on x" "apic_ops (apic_write APIC_EOI 0 x) = apic_ops x" for x
    using machine_frame [OF eoi_frame] by blast+
  have "interrupts_on (((at_cpu s)(i := m)) t)"
    using assms(4) frame by (cases "t = i") simp_all
  then show ?thesis
    using assms m frame by (cases "t = i") (simp_all add: on_cpu_run_def run_ipi_def smp_quiet_def sync_lock_test_and_set_def Let_def eoi)
qed

section \<open>Properties\<close>

text \<open>
  After \<open>smp_init\<close> the interrupt \<open>__on_cpu\<close> sends, of fixed delivery with \<open>IPI_VECTOR\<close>, goes
  through a present interrupt gate to \<open>ipi_entry\<close>, and the gates of the exceptions are the stubs.
\<close>

theorem smp_init_correct:
  assumes "\<not> idt_initialized s" "length (boot_idt s) = 256" "length (exception_handlers s) = 256"
  shows "\<exists>s'. smp_init stub_addr idt_addr ipi_entry s = Some s' \<and>
    (\<exists>v. decode_ipi IPI_COMMAND = Fixed v \<and>
      gate_target (gate_lo (boot_idt s' ! unat v)) (gate_hi (boot_idt s' ! unat v)) = ipi_entry \<and>
      gate_selector (gate_lo (boot_idt s' ! unat v)) = read_cs (cpu s) \<and>
      gate_kind (gate_lo (boot_idt s' ! unat v)) = 0x8E) \<and>
    (\<forall>i<32. idt_handlers i \<noteq> None \<longrightarrow>
      gate_target (gate_lo (boot_idt s' ! i)) (gate_hi (boot_idt s' ! i)) = stub_addr i)"
proof -
  obtain t where t: "setup_idt stub_addr idt_addr s = Some t" "length (boot_idt t) = 256"
      "\<forall>i<256. boot_idt t ! i = (if i < 32 \<and> idt_handlers i \<noteq> None
        then gate_for (stub_addr i) (read_cs (cpu s)) 0 else boot_idt s ! i)"
      "cpu t = lidt idt_addr (256 * 16) (cpu s)"
    using setup_idt_gates [OF assms] by blast
  let ?s = "t\<lparr>boot_idt := (boot_idt t)[32 := gate_for ipi_entry (read_cs (cpu s)) 0]\<rparr>"
  have vector: "decode_ipi IPI_COMMAND = Fixed 32" "unat IPI_VECTOR = 32"
    by code_simp+
  have "smp_init stub_addr idt_addr ipi_entry s = Some ?s"
    using t by (simp add: smp_init_def vector set_idt_entry_eq read_cs_def lidt_def)
  moreover have "boot_idt ?s ! i = gate_for (stub_addr i) (read_cs (cpu s)) 0" if "i < 32" "idt_handlers i \<noteq> None" for i
    using that t(2,3) by simp
  ultimately show ?thesis
    using t(2) by (intro exI [of _ ?s]) (simp add: vector gate_for_target gate_for_selector gate_for_kind)
qed



text \<open>
  A call to a processor that takes no interrupts never returns: once it waits, it waits for ever.
\<close>

theorem on_cpu_masked:
  assumes "smp_start s0" "(smp_step mp)\<^sup>*\<^sup>* s0 s" "\<forall>k<ncpu mp. dest_of mp k = dest_of mp t \<longrightarrow> k = t"
    "caller s i = Await (dest_of mp t)" "ipi_done s = 0" "in_ipi s t \<noteq> Entered" "\<not> interrupts_on (at_cpu s t)"
    "(smp_step mp)\<^sup>*\<^sup>* s s'"
  shows "caller s' i = Await (dest_of mp t)"
proof -
  have "caller s' i = Await (dest_of mp t) \<and> ipi_done s' = 0 \<and> in_ipi s' t \<noteq> Entered \<and>
      \<not> interrupts_on (at_cpu s' t) \<and> smp_inv mp s'"
    using assms(8)
  proof (induction rule: rtranclp_induct)
    case base
    then show ?case
      using assms(4-7) smp_inv_reachable [OF assms(2,1)] by simp
  next
    case (step y z)
    then show ?case
      using masked_step [OF _ assms(3)] smp_inv_step by blast
  qed
  then show ?thesis
    by simp
qed

section \<open>Witnesses\<close>

definition two_cpus :: mpstate where
  "two_cpus = \<lparr>cpus = [\<lparr>apicid = 0, started = 0\<rparr>, \<lparr>apicid = 1, started = 1\<rparr>], ncpu = 2, ioapicid = 2,
     lapic = 0xfee00000, mp_printed = []\<rparr>"

definition example_smp :: "(nat \<Rightarrow> u64) \<Rightarrow> smp" where
  "example_smp fl = \<lparr>ipi_lock = \<lparr>lock_v = 0\<rparr>, ipi_done = 0,
     at_cpu = \<lambda>i. quiet_machine\<lparr>eflags := fl i, apic_ops := X2apic_ops\<rparr>, gs0 = \<lambda>_. 0,
     caller = \<lambda>_. Out, in_ipi = \<lambda>_. Idle, flight = [], irr = \<lambda>_. {}, returned = [], handled = []\<rparr>"

lemma example_smp_start: "smp_start (example_smp fl)"
  by (simp add: smp_start_def example_smp_def)

lemma example_smp_ready: "smp_ready two_cpus (example_smp (\<lambda>_. 0x202))"
proof -
  have "interrupts_on (quiet_machine\<lparr>eflags := 0x202, apic_ops := X2apic_ops\<rparr>)"
    by code_simp
  then show ?thesis
    by (simp add: smp_ready_def example_smp_def)
qed

text \<open>Processor 0 calls processor 1, up to the wait loop.\<close>

lemma example_smp_run:
  "\<exists>s. (smp_step two_cpus)\<^sup>*\<^sup>* (example_smp fl) s \<and> caller s = (\<lambda>_. Out)(0 := Await (dest_of two_cpus 1)) \<and>
     ipi_done s = 0 \<and> in_ipi s = (\<lambda>_. Idle) \<and> flight s = [(1, IPI_COMMAND)] \<and> irr s = (\<lambda>_. {}) \<and>
     returned s = [] \<and> handled s = [] \<and> eflags (at_cpu s 1) = fl 1 \<and> ipi_lock s = \<lparr>lock_v = 1\<rparr>"
proof -
  have n: "ncpu two_cpus = 2" and d: "dest_of two_cpus 1 = 1"
    by (simp_all add: two_cpus_def dest_of_def)
  let ?s0 = "example_smp fl" and ?m = "quiet_machine\<lparr>eflags := fl 0, apic_ops := X2apic_ops\<rparr>"
  let ?s1 = "?s0\<lparr>caller := (caller ?s0)(0 := Locking 1)\<rparr>"
  let ?s2 = "?s1\<lparr>ipi_lock := \<lparr>lock_v = 1\<rparr>, caller := (caller ?s1)(0 := Clearing 1)\<rparr>"
  let ?s3 = "?s2\<lparr>ipi_done := 0, caller := (caller ?s2)(0 := Sending 1)\<rparr>"
  obtain m where m: "apic_icr_write IPI_COMMAND 1 ?m = Some m"
    by (simp add: apic_icr_write_def x2apic_ops_def x2apic_icr_write_def)
  let ?s4 = "?s3\<lparr>at_cpu := (at_cpu ?s3)(0 := m), flight := flight ?s3 @ new_ipis (at_cpu ?s3 0) m,
      caller := (caller ?s3)(0 := Await 1)\<rparr>"
  have "smp_step two_cpus ?s0 ?s1"
    unfolding d [symmetric] by (rule smp_step.on_cpu) (simp_all add: n example_smp_def)
  moreover have "smp_step two_cpus ?s1 ?s2"
    by (intro smp_step.work smp_work.lock) (simp_all add: n example_smp_def sync_lock_test_and_set_def)
  moreover have "smp_step two_cpus ?s2 ?s3"
    by (intro smp_step.work smp_work.clear) (simp_all add: n example_smp_def)
  moreover have "smp_step two_cpus ?s3 ?s4"
    by (intro smp_step.work smp_work.send) (use m in \<open>simp_all add: n example_smp_def\<close>)
  ultimately have "(smp_step two_cpus)\<^sup>*\<^sup>* ?s0 ?s4"
    by (meson converse_rtranclp_into_rtranclp rtranclp.rtrancl_refl)
  moreover have "new_ipis ?m m = [(1, IPI_COMMAND)]"
    using icr_write_sends(1) [OF m] by simp
  ultimately show ?thesis
    unfolding d by (intro exI [of _ ?s4]) (simp add: example_smp_def quiet_machine_def)
qed



theorem on_cpu_masked_witness:
  "\<exists>s. (smp_step two_cpus)\<^sup>*\<^sup>* (example_smp (\<lambda>_. 2)) s \<and> (\<forall>s'. (smp_step two_cpus)\<^sup>*\<^sup>* s s' \<longrightarrow> caller s' 0 = Await 1)"
proof -
  obtain s where s: "(smp_step two_cpus)\<^sup>*\<^sup>* (example_smp (\<lambda>_. 2)) s" "caller s 0 = Await (dest_of two_cpus 1)"
      "ipi_done s = 0" "in_ipi s 1 \<noteq> Entered" "eflags (at_cpu s 1) = 2"
    using example_smp_run [of "\<lambda>_. 2"] by auto
  have "\<not> interrupts_on (at_cpu s 1)"
    using s(5) by (simp add: interrupts_on_def readeflags_def FL_IF_def)
  moreover have "\<forall>k<ncpu two_cpus. dest_of two_cpus k = dest_of two_cpus 1 \<longrightarrow> k = 1" "dest_of two_cpus 1 = 1"
    by (auto simp: two_cpus_def dest_of_def less_2_cases_iff)
  ultimately show ?thesis
    using on_cpu_masked [OF example_smp_start s(1)] s by (intro exI [of _ s]) metis
qed

theorem smp_init_witness:
  "\<exists>s'. smp_init (\<lambda>i. 0x100000 + 16 * of_nat i) 0x7000 0x200000 example_desc = Some s' \<and>
     gate_target (gate_lo (boot_idt s' ! 14)) (gate_hi (boot_idt s' ! 14)) = 0x1000E0"
proof -
  obtain s' where s': "smp_init (\<lambda>i. 0x100000 + 16 * of_nat i) 0x7000 0x200000 example_desc = Some s'"
      "\<forall>i<32. idt_handlers i \<noteq> None \<longrightarrow>
        gate_target (gate_lo (boot_idt s' ! i)) (gate_hi (boot_idt s' ! i)) = 0x100000 + 16 * of_nat i"
    using smp_init_correct [of example_desc "\<lambda>i. 0x100000 + 16 * of_nat i" "0x7000" "0x200000"]
    by (auto simp: example_desc_def)
  from spec [OF s'(2), of 14] s'(1) show ?thesis
    by (simp add: idt_handlers_def)
qed

end
