(* ===== verification/Stack.thy ===== *)
theory Stack
  imports Printf
begin

text \<open>
  Stack traces (\<open>lib/stack.c\<close> with \<open>include/stack.h\<close>). What \<open>__builtin_return_address\<close> gives for each
  level, null above the first frame, is an argument; an array of addresses is a list, and a write
  past its end is \<open>None\<close>.
\<close>

section \<open>The model\<close>

definition MAX_DEPTH :: nat where "MAX_DEPTH = 20"

text \<open>\<open>walking\<close> is the static variable of \<open>backtrace\<close>.\<close>

record stack_state =
  walking :: u32
  printed :: "(byte list \<times> va_arg list) list"

definition put :: "string \<Rightarrow> va_arg list \<Rightarrow> stack_state \<Rightarrow> stack_state" where
  "put fmt args s = s\<lparr>printed := printed s @ [(bytes_of fmt @ [0], args)]\<rparr>"

fun print_from :: "u64 list \<Rightarrow> stack_state \<Rightarrow> stack_state" where
  "print_from [] s = s"
| "print_from (a # as) s = print_from as (put '' %lx'' [VInt a] s)"

definition print_stack :: "u64 list \<Rightarrow> nat \<Rightarrow> bool \<Rightarrow> stack_state \<Rightarrow> stack_state option" where
  "print_stack return_addrs depth top_is_return_address s =
     (if depth \<le> length return_addrs then
        let s = put (CHR 0x09 # ''STACK:'') [] s;
            (i, s) = (if depth > 0 \<and> \<not> top_is_return_address
                      then (1, put '' @%lx'' [VInt (return_addrs ! 0)] s) else (0, s));
            s = print_from (drop i (take depth return_addrs)) s
        in Some (put ''\<newline>'' [] s)
      else None)"

text \<open>The expansions of \<open>GET_RETURN_ADDRESS\<close> for the levels in the list.\<close>

fun get_return_addresses :: "(nat \<Rightarrow> u64) \<Rightarrow> u32 \<Rightarrow> nat list \<Rightarrow> u64 list \<Rightarrow> nat \<Rightarrow> (u64 list \<times> nat) option" where
  "get_return_addresses ra max_depth [] return_addrs depth = Some (return_addrs, depth)"
| "get_return_addresses ra max_depth (i # is) return_addrs depth =
     (if max_depth = of_nat i then Some (return_addrs, depth)
      else let a = ra i in
        if a = 0 then Some (return_addrs, depth)
        else if i < length return_addrs then get_return_addresses ra max_depth is (return_addrs[i := a]) (i + 1)
        else None)"

definition backtrace :: "(nat \<Rightarrow> u64) \<Rightarrow> u64 list \<Rightarrow> u32 \<Rightarrow> stack_state \<Rightarrow> (u64 list \<times> nat \<times> stack_state) option" where
  "backtrace ra return_addrs max_depth s =
     (if walking s \<noteq> 0 then Some (return_addrs, 0, put ''RECURSIVE STACK WALK!!!\<newline>'' [] s)
      else do { let s = s\<lparr>walking := 1\<rparr>;
                (return_addrs, depth) \<leftarrow> get_return_addresses ra max_depth [0..<21] return_addrs 0;
                Some (return_addrs, depth, s\<lparr>walking := 0\<rparr>) })"

definition backtrace_frame :: "u64 \<Rightarrow> u64 list \<Rightarrow> nat \<Rightarrow> nat" where
  "backtrace_frame frame return_addrs max_depth = 0"

text \<open>\<open>junk\<close> is what the array on the stack holds before.\<close>

definition dump_stack :: "(nat \<Rightarrow> u64) \<Rightarrow> u64 list \<Rightarrow> stack_state \<Rightarrow> stack_state option" where
  "dump_stack ra junk s =
     do { (return_addrs, depth, s) \<leftarrow> backtrace ra junk (of_nat MAX_DEPTH) s;
          print_stack (drop 1 return_addrs) (if depth \<noteq> 0 then depth - 1 else 0) True s }"

definition dump_frame_stack :: "u64 \<Rightarrow> u64 \<Rightarrow> u64 list \<Rightarrow> stack_state \<Rightarrow> stack_state option" where
  "dump_frame_stack instruction frame junk s =
     (let return_addrs = junk[0 := instruction];
          depth = backtrace_frame frame (drop 1 return_addrs) (MAX_DEPTH - 1)
      in print_stack return_addrs (depth + 1) False s)"

section \<open>Lemmas\<close>

text \<open>The return addresses up to the first null one.\<close>

definition frames :: "(nat \<Rightarrow> u64) \<Rightarrow> nat \<Rightarrow> u64 list" where
  "frames ra n = takeWhile (\<lambda>a. a \<noteq> 0) (map ra [0..<n])"

lemma print_from_eq: "print_from as s = s\<lparr>printed := printed s @ map (\<lambda>a. (bytes_of '' %lx'' @ [0], [VInt a])) as\<rparr>"
  by (induction as s rule: print_from.induct) (simp_all add: put_def)

lemma of_nat_level_eq: "i < 2 ^ 32 \<Longrightarrow> m < 2 ^ 32 \<Longrightarrow> (of_nat m :: u32) = of_nat i \<longleftrightarrow> m = i"
  by (simp add: word_of_nat_eq_iff take_bit_nat_eq_self)

lemma get_return_addresses_eq:
  assumes "m \<le> length xs" "m \<le> n" "n < 2 ^ 32" "i \<le> m"
  shows "get_return_addresses ra (of_nat m) [i..<n] xs i =
    Some (take i xs @ takeWhile (\<lambda>a. a \<noteq> 0) (map ra [i..<m]) @
        drop (i + length (takeWhile (\<lambda>a. a \<noteq> 0) (map ra [i..<m]))) xs,
      i + length (takeWhile (\<lambda>a. a \<noteq> 0) (map ra [i..<m])))"
  using assms
proof (induction "m - i" arbitrary: i xs)
  case 0
  then have "i = m"
    by simp
  then show ?case
    using "0.prems" by (cases "m = n") (simp_all add: upt_conv_Cons)
next
  case (Suc k)
  then have i: "i < m"
    by simp
  then have ne: "(of_nat m :: u32) \<noteq> of_nat i"
    using Suc.prems by (subst of_nat_level_eq) simp_all
  have "take (Suc i) (xs[i := ra i]) = take i xs @ [ra i]"
    using i Suc.prems by (simp add: take_Suc_conv_app_nth)
  then show ?case
    using Suc.hyps(1) [of "Suc i" "xs[i := ra i]"] Suc.hyps(2) Suc.prems i ne
    by (simp add: upt_conv_Cons [of i n] upt_conv_Cons [of i m] Let_def)
qed

lemma backtrace_eq:
  assumes "walking s = 0" "m \<le> length xs" "m \<le> 21"
  shows "backtrace ra xs (of_nat m) s =
    Some (frames ra m @ drop (length (frames ra m)) xs, length (frames ra m), s)"
  using assms get_return_addresses_eq [of m xs 21 0 ra] by (simp add: backtrace_def frames_def)

section \<open>Properties\<close>

text \<open>
  \<open>dump_stack\<close> prints the return addresses of the frames above its own up to the first null one,
  at most 19, each once and in order, without writing past its array, and leaves \<open>walking\<close> clear; a
  walk that starts during another prints the message and an empty trace.
\<close>

theorem dump_stack_correct:
  assumes "length junk = MAX_DEPTH"
  shows "\<exists>s'. dump_stack ra junk s = Some s' \<and> walking s' = walking s \<and>
    printed s' = printed s @
      (if walking s \<noteq> 0
       then [(bytes_of ''RECURSIVE STACK WALK!!!\<newline>'' @ [0], []), (bytes_of (CHR 0x09 # ''STACK:'') @ [0], [])]
       else (bytes_of (CHR 0x09 # ''STACK:'') @ [0], []) #
         map (\<lambda>a. (bytes_of '' %lx'' @ [0], [VInt a])) (tl (frames ra 20))) @
      [(bytes_of ''\<newline>'' @ [0], [])]"
proof (cases "walking s = 0")
  case True
  have "length (frames ra 20) \<le> 20"
    using length_takeWhile_le [of "\<lambda>a. a \<noteq> 0" "map ra [0..<20]"] by (simp add: frames_def)
  then have "backtrace ra junk (of_nat MAX_DEPTH) s =
      Some (frames ra 20 @ drop (length (frames ra 20)) junk, length (frames ra 20), s)"
    using backtrace_eq [OF True, of 20 junk ra] assms by (simp add: MAX_DEPTH_def)
  then show ?thesis
    using True assms \<open>_ \<le> 20\<close>
    by (cases "frames ra 20") (auto simp: dump_stack_def print_stack_def print_from_eq put_def MAX_DEPTH_def)
next
  case False
  then show ?thesis
    by (simp add: dump_stack_def backtrace_def print_stack_def put_def)
qed

theorem dump_stack_witness:
  "\<exists>s'. dump_stack (\<lambda>i. if i < 3 then 0x1000 + of_nat i else 0) (replicate 20 7) \<lparr>walking = 0, printed = []\<rparr> = Some s' \<and>
     map snd (printed s') = [[], [VInt 0x1001], [VInt 0x1002], []]"
proof -
  have "frames (\<lambda>i. if i < 3 then 0x1000 + of_nat i else 0) 20 = [0x1000, 0x1001, 0x1002]"
    by code_simp
  then show ?thesis
    using dump_stack_correct [of "replicate 20 7" "\<lambda>i. if i < 3 then 0x1000 + of_nat i else 0"
        "\<lparr>walking = 0, printed = []\<rparr>"]
    by (auto simp: MAX_DEPTH_def)
qed

text \<open>The trace of a given frame holds only the instruction, as frames are not walked here.\<close>

lemma dump_frame_stack_eq:
  assumes "length junk = MAX_DEPTH"
  shows "dump_frame_stack instruction frame junk s =
    Some (s\<lparr>printed := printed s @ [(bytes_of (CHR 0x09 # ''STACK:'') @ [0], []),
      (bytes_of '' @%lx'' @ [0], [VInt instruction]), (bytes_of ''\<newline>'' @ [0], [])]\<rparr>)"
  using assms by (cases junk) (simp_all add: dump_frame_stack_def backtrace_frame_def print_stack_def put_def
      MAX_DEPTH_def)

end
