(* ===== verification/Atomic.thy ===== *)
theory Atomic
  imports Prelude
begin

text \<open>
  Atomic counters (\<open>include/atomic.h\<close>, the 64-bit part): the operations as single steps on the
  counter, so that CPUs interleave as sequences of operations.
\<close>

record atomic_t =
  counter :: u32

record atomic64_t =
  counter64 :: u64

definition atomic_read :: "atomic_t \<Rightarrow> u32" where
  "atomic_read v = counter v"

definition atomic_set :: "atomic_t \<Rightarrow> u32 \<Rightarrow> atomic_t" where
  "atomic_set v i = v\<lparr>counter := i\<rparr>"

definition atomic_inc :: "atomic_t \<Rightarrow> atomic_t" where
  "atomic_inc v = v\<lparr>counter := counter v + 1\<rparr>"

definition atomic_dec :: "atomic_t \<Rightarrow> atomic_t" where
  "atomic_dec v = v\<lparr>counter := counter v - 1\<rparr>"

definition atomic64_read :: "atomic64_t \<Rightarrow> u64" where
  "atomic64_read v = counter64 v"

text \<open>
  The macros over the builtins of the compiler: each reads the counter, writes it and gives the value
  before or the value after, in one step.
\<close>

definition sync_fetch :: "(u32 \<Rightarrow> u32) \<Rightarrow> atomic_t \<Rightarrow> u32 \<times> atomic_t" where
  "sync_fetch f v = (counter v, v\<lparr>counter := f (counter v)\<rparr>)"

definition sync_then_fetch :: "(u32 \<Rightarrow> u32) \<Rightarrow> atomic_t \<Rightarrow> u32 \<times> atomic_t" where
  "sync_then_fetch f v = (f (counter v), v\<lparr>counter := f (counter v)\<rparr>)"

definition atomic_fetch_inc :: "atomic_t \<Rightarrow> u32 \<times> atomic_t" where "atomic_fetch_inc = sync_fetch (\<lambda>x. x + 1)"
definition atomic_fetch_dec :: "atomic_t \<Rightarrow> u32 \<times> atomic_t" where "atomic_fetch_dec = sync_fetch (\<lambda>x. x + - 1)"
definition atomic_fetch_add :: "u32 \<Rightarrow> atomic_t \<Rightarrow> u32 \<times> atomic_t" where "atomic_fetch_add n = sync_fetch (\<lambda>x. x + n)"
definition atomic_fetch_sub :: "u32 \<Rightarrow> atomic_t \<Rightarrow> u32 \<times> atomic_t" where "atomic_fetch_sub n = sync_fetch (\<lambda>x. x - n)"
definition atomic_fetch_and :: "u32 \<Rightarrow> atomic_t \<Rightarrow> u32 \<times> atomic_t" where "atomic_fetch_and n = sync_fetch (\<lambda>x. x AND n)"
definition atomic_fetch_or :: "u32 \<Rightarrow> atomic_t \<Rightarrow> u32 \<times> atomic_t" where "atomic_fetch_or n = sync_fetch (\<lambda>x. x OR n)"
definition atomic_fetch_xor :: "u32 \<Rightarrow> atomic_t \<Rightarrow> u32 \<times> atomic_t" where "atomic_fetch_xor n = sync_fetch (\<lambda>x. x XOR n)"

definition atomic_inc_fetch :: "atomic_t \<Rightarrow> u32 \<times> atomic_t" where "atomic_inc_fetch = sync_then_fetch (\<lambda>x. x + 1)"
definition atomic_dec_fetch :: "atomic_t \<Rightarrow> u32 \<times> atomic_t" where "atomic_dec_fetch = sync_then_fetch (\<lambda>x. x + - 1)"
definition atomic_add_fetch :: "u32 \<Rightarrow> atomic_t \<Rightarrow> u32 \<times> atomic_t" where "atomic_add_fetch n = sync_then_fetch (\<lambda>x. x + n)"
definition atomic_sub_fetch :: "u32 \<Rightarrow> atomic_t \<Rightarrow> u32 \<times> atomic_t" where "atomic_sub_fetch n = sync_then_fetch (\<lambda>x. x - n)"
definition atomic_and_fetch :: "u32 \<Rightarrow> atomic_t \<Rightarrow> u32 \<times> atomic_t" where "atomic_and_fetch n = sync_then_fetch (\<lambda>x. x AND n)"
definition atomic_or_fetch :: "u32 \<Rightarrow> atomic_t \<Rightarrow> u32 \<times> atomic_t" where "atomic_or_fetch n = sync_then_fetch (\<lambda>x. x OR n)"
definition atomic_xor_fetch :: "u32 \<Rightarrow> atomic_t \<Rightarrow> u32 \<times> atomic_t" where "atomic_xor_fetch n = sync_then_fetch (\<lambda>x. x XOR n)"

text \<open>
  \<open>n\<close> calls of \<open>atomic_fetch_inc\<close>, by whichever processors, hand out \<open>n\<close> successive values, so that no two
  of fewer than \<open>2 ^ 32\<close> calls get the same one.
\<close>

primrec tickets :: "nat \<Rightarrow> atomic_t \<Rightarrow> u32 list" where
  "tickets 0 v = []"
| "tickets (Suc n) v = (case atomic_fetch_inc v of (x, v) \<Rightarrow> x # tickets n v)"

lemma tickets_eq: "tickets n v = map (\<lambda>i. counter v + of_nat i) [0..<n]"
proof (induction n arbitrary: v)
  case (Suc n)
  have "[0..<Suc n] = 0 # map Suc [0..<n]"
    by (simp add: upt_conv_Cons map_Suc_upt del: upt_Suc)
  then show ?case
    by (simp add: Suc atomic_fetch_inc_def sync_fetch_def ac_simps del: upt_Suc)
qed simp

lemma tickets_distinct: "n \<le> 2 ^ 32 \<Longrightarrow> distinct (tickets n v)"
proof -
  assume "n \<le> 2 ^ 32"
  then have "unat (of_nat i :: u32) = i" if "i < n" for i
    using that by (simp add: unsigned_of_nat take_bit_nat_eq_self)
  then have "inj_on (\<lambda>i. counter v + (of_nat i :: u32)) {0..<n}"
    by (intro inj_onI) (metis add_left_cancel atLeastLessThan_iff)
  then show "distinct (tickets n v)"
    by (simp add: tickets_eq distinct_map)
qed

text \<open>
  However the increments and decrements of several CPUs interleave, the counter ends at the same
  value: the difference of their numbers is added to it, modulo the width.
\<close>

datatype atomic_op = Inc | Dec

fun atomic_do :: "atomic_op \<Rightarrow> atomic_t \<Rightarrow> atomic_t" where
  "atomic_do Inc v = atomic_inc v"
| "atomic_do Dec v = atomic_dec v"

lemma atomic_interleaving:
  "atomic_read (fold atomic_do ops v) =
     atomic_read v + of_nat (count_list ops Inc) - of_nat (count_list ops Dec)"
proof (induction ops arbitrary: v)
  case (Cons x ops)
  then show ?case
    by (cases x) (simp_all add: atomic_read_def atomic_inc_def atomic_dec_def algebra_simps)
qed simp

end
