(* ===== verification/Harness.thy ===== *)
theory Harness
  imports Serial Console Cpu
begin

text \<open>
  The harness that runs the benchmarks (\<open>harness/harness.c\<close>, \<open>include/rdtsc.h\<close>,
  \<open>include/benchmark.h\<close>), in the build for virtual machines and in the one for bare metal. The
  functions of a benchmark and the \<open>printf\<close> it is linked with work on the state of the devices and
  are arguments; the time stamp counter is what its successive reads give.
\<close>

section \<open>The time stamp counter\<close>

record 's bench_state =
  dev :: 's
  tsc :: "nat \<Rightarrow> u64"
  tsc_reads :: nat

definition read_tsc :: "'s bench_state \<Rightarrow> (u32 \<times> u32) \<times> 's bench_state" where
  "read_tsc s = (let t = tsc s (tsc_reads s) in
     ((ucast t, ucast (drop_bit 32 t)), s\<lparr>tsc_reads := Suc (tsc_reads s)\<rparr>))"

definition rdtsc :: "'s bench_state \<Rightarrow> (u32 \<times> u32) \<times> 's bench_state" where
  "rdtsc s = (let ((eax, edx), s) = read_tsc s in ((eax, edx), s))"

text \<open>
  The operand \<open>"=A"(cycles)\<close> of a 64-bit type is on this target one register, rax or rdx at the
  choice of the compiler; \<open>rdtsc\<close> clears the upper half of both.
\<close>

definition currentcycles :: "bool \<Rightarrow> 's bench_state \<Rightarrow> u64 \<times> 's bench_state" where
  "currentcycles in_rdx s = (let ((eax, edx), s) = read_tsc s in (if in_rdx then ucast edx else ucast eax, s))"

section \<open>The harness\<close>

record 's benchmark_t =
  bname :: "byte list"
  category :: "byte list"
  init :: "('s \<Rightarrow> 's option) option"
  benchmark :: "'s \<Rightarrow> 's option"
  benchmark_control :: "'s \<Rightarrow> 's option"
  cleanup :: "'s \<Rightarrow> 's option"
  iteration_count :: u64

definition STR_BENCHMARK_BEGIN :: string where
  "STR_BENCHMARK_BEGIN = ''[BENCHMARKS BEGIN]'' @ [CHR 0x0D, CHR 0x0A]"

definition STR_BENCHMARK_END :: string where
  "STR_BENCHMARK_END = ''[BENCHMARKS END]'' @ [CHR 0x0D, CHR 0x0A]"

definition on_dev :: "('s \<Rightarrow> 's option) \<Rightarrow> 's bench_state \<Rightarrow> 's bench_state option" where
  "on_dev f s = map_option (\<lambda>d. s\<lparr>dev := d\<rparr>) (f (dev s))"

definition cstr :: "byte list \<Rightarrow> va_arg" where
  "cstr b = VStr (b @ [0])"

type_synonym 's print = "byte list \<Rightarrow> va_arg list \<Rightarrow> 's \<Rightarrow> 's option"

definition hprintf :: "'s print \<Rightarrow> string \<Rightarrow> va_arg list \<Rightarrow> 's bench_state \<Rightarrow> 's bench_state option" where
  "hprintf pr fmt args s = on_dev (pr (bytes_of fmt @ [0]) args) s"

text \<open>What stands before and after a run: a read of the counter, or a mark for the host.\<close>

definition mark :: "bool \<Rightarrow> 's print \<Rightarrow> string \<Rightarrow> u32 \<times> u32 \<Rightarrow> 's bench_state \<Rightarrow>
    ((u32 \<times> u32) \<times> 's bench_state) option" where
  "mark bare_metal pr m cycles s =
     (if bare_metal then Some (rdtsc s) else do { s \<leftarrow> hprintf pr m [] s; Some (cycles, s) })"

definition cycles_of :: "u32 \<times> u32 \<Rightarrow> u64" where
  "cycles_of c = (case c of (cycles_low, cycles_high) \<Rightarrow> push_bit 32 (ucast cycles_high) OR ucast cycles_low)"

text \<open>\<open>junk\<close> is what the uninitialised variables hold.\<close>

definition harness_execute :: "bool \<Rightarrow> 's print \<Rightarrow> u32 \<times> u32 \<Rightarrow> 's benchmark_t \<Rightarrow> 's bench_state \<Rightarrow> 's bench_state option" where
  "harness_execute bare_metal pr junk b s =
     do { s \<leftarrow> hprintf pr ''%-15s%-15s'' [cstr (category b), cstr (bname b)] s;
          s \<leftarrow> (case init b of Some f \<Rightarrow> on_dev f s | None \<Rightarrow> Some s);
          s \<leftarrow> hprintf pr ''%-10ld'' [VInt (iteration_count b)] s;
          (cycles, s) \<leftarrow> mark bare_metal pr ''{'' junk s;
          s \<leftarrow> on_dev (benchmark_control b) s;
          (cycles1, s) \<leftarrow> mark bare_metal pr ''}'' junk s;
          (cycles2, s) \<leftarrow> mark bare_metal pr ''['' junk s;
          s \<leftarrow> on_dev (benchmark b) s;
          (cycles3, s) \<leftarrow> mark bare_metal pr ('']'' @ [CHR 0x0D, CHR 0x0A]) junk s;
          s \<leftarrow> on_dev (cleanup b) s;
          if bare_metal then
            do { let start = cycles_of cycles;
                 let end = cycles_of cycles1;
                 let start1 = cycles_of cycles2;
                 let end1 = cycles_of cycles3;
                 let time_control = end - start;
                 let time_kernel = end1 - start1;
                 s \<leftarrow> hprintf pr ''%-15lu'' [VInt time_control] s;
                 s \<leftarrow> hprintf pr ''%-15lu'' [VInt time_kernel] s;
                 hprintf pr ''%ld\<newline>'' [VInt (time_kernel - time_control)] s }
          else Some s }"

fun execute_all :: "bool \<Rightarrow> 's print \<Rightarrow> u32 \<times> u32 \<Rightarrow> 's benchmark_t list \<Rightarrow> 's bench_state \<Rightarrow> 's bench_state option" where
  "execute_all bare_metal pr junk [] s = Some s"
| "execute_all bare_metal pr junk (b # bs) s =
     do { s \<leftarrow> harness_execute bare_metal pr junk b s; execute_all bare_metal pr junk bs s }"

text \<open>The loop that waits for the host to pin the processors; \<open>None\<close> when it never ends.\<close>

partial_function (option) pin_wait :: "bool \<Rightarrow> u64 \<Rightarrow> u64 \<Rightarrow> 's bench_state \<Rightarrow> 's bench_state option" where
  "pin_wait in_rdx cycles1 cycles2 s =
     (if cycles2 - cycles1 < 60000000000
      then case currentcycles in_rdx s of (cycles2, s) \<Rightarrow> pin_wait in_rdx cycles1 cycles2 s
      else Some s)"

definition pin_delay :: "bool \<Rightarrow> 's bench_state \<Rightarrow> 's bench_state option" where
  "pin_delay in_rdx s = (case currentcycles in_rdx s of (cycles1, s) \<Rightarrow> pin_wait in_rdx cycles1 cycles1 s)"

text \<open>The benchmarks are those between \<open>_BENCHMARKS_START\<close> and \<open>_BENCHMARKS_END\<close>.\<close>

definition harness_main :: "bool \<Rightarrow> bool \<Rightarrow> 's print \<Rightarrow> u32 \<times> u32 \<Rightarrow> 's benchmark_t list \<Rightarrow> 's bench_state \<Rightarrow>
    's bench_state option" where
  "harness_main bare_metal in_rdx pr junk benchmarks s =
     do { s \<leftarrow> hprintf pr (''*'' @ [CHR 0x0D, CHR 0x0A]) [] s;
          s \<leftarrow> (if bare_metal then Some s else pin_delay in_rdx s);
          s \<leftarrow> hprintf pr (''%-15s%-15s%-10s'' @ [CHR 0x0D, CHR 0x0A])
            [cstr (bytes_of ''category''), cstr (bytes_of ''name''), cstr (bytes_of ''iteration'')] s;
          s \<leftarrow> hprintf pr STR_BENCHMARK_BEGIN [] s;
          s \<leftarrow> execute_all bare_metal pr junk benchmarks s;
          s \<leftarrow> hprintf pr STR_BENCHMARK_END [] s;
          hprintf pr STR_BENCHMARK_END [] s }"

section \<open>The wait for the host\<close>

text \<open>The half of the counter that a read of \<open>currentcycles\<close> gives.\<close>

definition half :: "bool \<Rightarrow> u64 \<Rightarrow> u64" where
  "half in_rdx t = (if in_rdx then drop_bit 32 t else take_bit 32 t)"

definition reading :: "bool \<Rightarrow> 's bench_state \<Rightarrow> nat \<Rightarrow> u64" where
  "reading in_rdx s k = half in_rdx (tsc s (tsc_reads s + k))"

lemma currentcycles_eq: "currentcycles in_rdx s = (reading in_rdx s 0, s\<lparr>tsc_reads := Suc (tsc_reads s)\<rparr>)"
proof -
  have "(ucast (ucast t :: u32) :: u64) = take_bit 32 t" "(ucast (ucast (drop_bit 32 t) :: u32) :: u64) = drop_bit 32 t"
    for t :: u64
    by (rule bit_word_eqI; auto simp: bit_simps dest: bit_imp_le_length)+
  then show ?thesis
    by (simp add: currentcycles_def read_tsc_def reading_def half_def Let_def)
qed

lemma half_less: "unat (half in_rdx t) < 2 ^ 32"
proof (cases in_rdx)
  case True
  have "unat t < 2 ^ 32 * 2 ^ 32"
    using unat_lt_u64 [of t] by simp
  then show ?thesis
    using True unfolding half_def
    by (simp add: unsigned_drop_bit_eq drop_bit_eq_div [where ?'a = nat] take_bit_eq_mod less_mult_imp_div_less)
next
  case False
  then show ?thesis
    by (simp add: half_def unsigned_take_bit_eq take_bit_eq_mod [where ?'a = nat])
qed

lemma wait_condition:
  assumes "unat c1 < 2 ^ 32" "unat c2 < 2 ^ 32"
  shows "c2 - c1 < (60000000000 :: u64) \<longleftrightarrow> c1 \<le> c2"
  using assms unat_diff_split [of c2 c1] by (auto simp: word_less_nat_alt word_le_nat_alt)

lemma pin_wait_step:
  assumes "unat c1 < 2 ^ 32" "unat c2 < 2 ^ 32"
  shows "pin_wait in_rdx c1 c2 s =
    (if c2 < c1 then Some s
     else pin_wait in_rdx c1 (reading in_rdx s 0) (s\<lparr>tsc_reads := Suc (tsc_reads s)\<rparr>))"
  using wait_condition [OF assms] by (subst pin_wait.simps) (simp add: currentcycles_eq not_le [symmetric])

lemma reading_Suc: "reading in_rdx (s\<lparr>tsc_reads := Suc (tsc_reads s)\<rparr>) k = reading in_rdx s (Suc k)"
  by (simp add: reading_def)

lemma reading_less: "unat (reading in_rdx s k) < 2 ^ 32"
  by (simp only: reading_def half_less)

lemma pin_wait_ends:
  assumes "unat c1 < 2 ^ 32" "unat c2 < 2 ^ 32" "\<not> c2 < c1" "reading in_rdx s k < c1" "\<forall>j<k. \<not> reading in_rdx s j < c1"
  shows "pin_wait in_rdx c1 c2 s = Some (s\<lparr>tsc_reads := tsc_reads s + Suc k\<rparr>)"
  using assms(2-)
proof (induction k arbitrary: c2 s)
  case 0
  then show ?case
    using pin_wait_step [OF assms(1) "0.prems"(1), of in_rdx s]
      pin_wait_step [OF assms(1) reading_less [of in_rdx s 0], of in_rdx "s\<lparr>tsc_reads := Suc (tsc_reads s)\<rparr>"] by simp
next
  case (Suc k)
  let ?s = "s\<lparr>tsc_reads := Suc (tsc_reads s)\<rparr>"
  have "\<not> reading in_rdx s 0 < c1"
    using Suc.prems(4) by blast
  moreover have "\<forall>j<k. \<not> reading in_rdx ?s j < c1"
    using Suc.prems(4) by (auto simp: reading_Suc)
  ultimately have "pin_wait in_rdx c1 (reading in_rdx s 0) ?s = Some (?s\<lparr>tsc_reads := tsc_reads ?s + Suc k\<rparr>)"
    using Suc.prems(3) by (intro Suc.IH reading_less) (simp_all add: reading_Suc)
  then show ?case
    using pin_wait_step [OF assms(1) Suc.prems(1), of in_rdx s] Suc.prems(2) by simp
qed

lemma pin_wait_imp:
  assumes "pin_wait in_rdx c1 c2 s = Some s'"
  shows "unat c1 < 2 ^ 32 \<longrightarrow> unat c2 < 2 ^ 32 \<longrightarrow> c2 < c1 \<or> (\<exists>k. reading in_rdx s k < c1)"
proof (rule pin_wait.raw_induct [of "\<lambda>r c1 c2 s _. unat c1 < 2 ^ 32 \<longrightarrow> unat c2 < 2 ^ 32 \<longrightarrow>
    c2 < c1 \<or> (\<exists>k. reading r s k < c1)", OF _ assms])
  fix f r and c1 c2 :: u64 and s s' :: "'a bench_state"
  assume IH: "\<And>r c1 c2 s s'. f r c1 c2 s = Some s' \<Longrightarrow> unat c1 < 2 ^ 32 \<longrightarrow> unat c2 < 2 ^ 32 \<longrightarrow>
      c2 < c1 \<or> (\<exists>k. reading r s k < c1)"
    and eq: "(if c2 - c1 < 60000000000 then case currentcycles r s of (x, xa) \<Rightarrow> f r c1 x xa else Some s) = Some s'"
  show "unat c1 < 2 ^ 32 \<longrightarrow> unat c2 < 2 ^ 32 \<longrightarrow> c2 < c1 \<or> (\<exists>k. reading r s k < c1)"
  proof (intro impI)
    assume c: "unat c1 < 2 ^ 32" "unat c2 < 2 ^ 32"
    show "c2 < c1 \<or> (\<exists>k. reading r s k < c1)"
    proof (cases "c2 < c1")
      case False
      then have "f r c1 (reading r s 0) (s\<lparr>tsc_reads := Suc (tsc_reads s)\<rparr>) = Some s'"
        using eq wait_condition [OF c] by (simp add: currentcycles_eq not_less)
      from IH [OF this] c(1) reading_less [of r s 0] show ?thesis
        by (auto simp: reading_Suc)
    qed simp
  qed
qed

lemma pin_delay_eq:
  "pin_delay in_rdx s =
     (if \<exists>k. reading in_rdx s k < reading in_rdx s 0
      then Some (s\<lparr>tsc_reads := tsc_reads s + Suc (LEAST k. reading in_rdx s k < reading in_rdx s 0)\<rparr>) else None)"
proof (cases "\<exists>k. reading in_rdx s k < reading in_rdx s 0")
  case True
  define k where "k = (LEAST k. reading in_rdx s k < reading in_rdx s 0)"
  have k: "reading in_rdx s k < reading in_rdx s 0" "\<forall>j<k. \<not> reading in_rdx s j < reading in_rdx s 0"
    unfolding k_def using LeastI_ex [OF True] not_less_Least by blast+
  then obtain j where j: "k = Suc j"
    by (cases k) auto
  let ?s = "s\<lparr>tsc_reads := Suc (tsc_reads s)\<rparr>"
  have "pin_wait in_rdx (reading in_rdx s 0) (reading in_rdx s 0) ?s = Some (?s\<lparr>tsc_reads := tsc_reads ?s + Suc j\<rparr>)"
    using k j by (intro pin_wait_ends reading_less) (auto simp: reading_Suc)
  then show ?thesis
    using True by (simp add: pin_delay_def currentcycles_eq j flip: k_def)
next
  case False
  have "pin_wait in_rdx (reading in_rdx s 0) (reading in_rdx s 0) (s\<lparr>tsc_reads := Suc (tsc_reads s)\<rparr>) = None"
    using pin_wait_imp [of in_rdx "reading in_rdx s 0" "reading in_rdx s 0" "s\<lparr>tsc_reads := Suc (tsc_reads s)\<rparr>"] False
      reading_less [of in_rdx s 0]
    by (cases "pin_wait in_rdx (reading in_rdx s 0) (reading in_rdx s 0) (s\<lparr>tsc_reads := Suc (tsc_reads s)\<rparr>)")
      (auto simp: reading_Suc)
  then show ?thesis
    using False by (simp add: pin_delay_def currentcycles_eq)
qed

section \<open>What the harness prints\<close>

text \<open>
  What it relies on: a \<open>printf\<close> that puts the text of its format on the device. \<open>ready p\<close> is what holds of
  the state at a stage \<open>p\<close> of the run; a benchmark may lead from one stage to another, \<open>printf\<close> does not.
\<close>

locale printer =
  fixes pr :: "'s print"
    and written :: "'s \<Rightarrow> 'v"
    and emit :: "byte list \<Rightarrow> 'v \<Rightarrow> 'v"
    and ready :: "'p \<Rightarrow> 's \<Rightarrow> bool"
  assumes print_text: "ready p d \<Longrightarrow> render fmt va = Some out \<Longrightarrow> 0 \<notin> set out \<Longrightarrow> length out < BUFSZ \<Longrightarrow>
      \<exists>d'. pr fmt va d = Some d' \<and> ready p d' \<and> written d' = emit out (written d)"
    and emit_Nil: "emit [] v = v"
    and emit_append: "emit (a @ b) v = emit b (emit a v)"

text \<open>A function that returns from every state of \<open>P\<close>, in one of \<open>Q\<close>, and puts the given text on the device.\<close>

definition prints :: "('s \<Rightarrow> 'v) \<Rightarrow> (byte list \<Rightarrow> 'v \<Rightarrow> 'v) \<Rightarrow> ('s \<Rightarrow> bool) \<Rightarrow> ('s \<Rightarrow> 's option) \<Rightarrow> byte list \<Rightarrow>
    ('s \<Rightarrow> bool) \<Rightarrow> bool" where
  "prints wr em P f t Q \<longleftrightarrow>
     (\<forall>d. P d \<longrightarrow> (\<exists>d'. f d = Some d' \<and> Q d' \<and> wr d' = em t (wr d)))"

text \<open>A string flush left in a field.\<close>

definition left :: "nat \<Rightarrow> byte list \<Rightarrow> byte list" where
  "left n s = s @ replicate (n - length s) 32"

text \<open>A benchmark as its run shows: \<open>texts b\<close> is what the control and the benchmark itself print.\<close>

definition bench_ok :: "('s \<Rightarrow> 'v) \<Rightarrow> (byte list \<Rightarrow> 'v \<Rightarrow> 'v) \<Rightarrow> ('s \<Rightarrow> bool) \<Rightarrow> 's benchmark_t \<Rightarrow> byte list \<times> byte list \<Rightarrow> bool" where
  "bench_ok wr em rd b t \<longleftrightarrow>
     0 \<notin> set (category b) \<and> 0 \<notin> set (bname b) \<and> length (category b) + length (bname b) < 1900 \<and>
     iteration_count b \<noteq> 0x8000000000000000 \<and>
     (\<forall>f. init b = Some f \<longrightarrow> prints wr em rd f [] rd) \<and>
     prints wr em rd (benchmark_control b) (fst t) rd \<and> prints wr em rd (benchmark b) (snd t) rd \<and>
     prints wr em rd (cleanup b) [] rd"

text \<open>The same when the run leads from stage \<open>p\<close> to stage \<open>q\<close>, and for a list of benchmarks.\<close>

definition bench_run :: "('s \<Rightarrow> 'v) \<Rightarrow> (byte list \<Rightarrow> 'v \<Rightarrow> 'v) \<Rightarrow> ('p \<Rightarrow> 's \<Rightarrow> bool) \<Rightarrow> 'p \<Rightarrow> 's benchmark_t \<Rightarrow>
    byte list \<times> byte list \<Rightarrow> 'p \<Rightarrow> bool" where
  "bench_run wr em rd p b t q \<longleftrightarrow>
     0 \<notin> set (category b) \<and> 0 \<notin> set (bname b) \<and> length (category b) + length (bname b) < 1900 \<and>
     iteration_count b \<noteq> 0x8000000000000000 \<and>
     (\<exists>p1 p2 p3. (case init b of Some f \<Rightarrow> prints wr em (rd p) f [] (rd p1) | None \<Rightarrow> p1 = p) \<and>
       prints wr em (rd p1) (benchmark_control b) (fst t) (rd p2) \<and> prints wr em (rd p2) (benchmark b) (snd t) (rd p3) \<and>
       prints wr em (rd p3) (cleanup b) [] (rd q))"

fun bench_runs :: "('s \<Rightarrow> 'v) \<Rightarrow> (byte list \<Rightarrow> 'v \<Rightarrow> 'v) \<Rightarrow> ('p \<Rightarrow> 's \<Rightarrow> bool) \<Rightarrow> 'p \<Rightarrow> 's benchmark_t list \<Rightarrow>
    (byte list \<times> byte list) list \<Rightarrow> 'p \<Rightarrow> bool" where
  "bench_runs wr em rd p [] [] q \<longleftrightarrow> p = q"
| "bench_runs wr em rd p (b # bs) (t # ts) q \<longleftrightarrow> (\<exists>r. bench_run wr em rd p b t r \<and> bench_runs wr em rd r bs ts q)"
| "bench_runs wr em rd p _ _ q \<longleftrightarrow> False"

lemma bench_ok_run: "bench_ok wr em rd b t \<Longrightarrow> bench_run wr em (\<lambda>_. rd) p b t p"
  by (auto simp: bench_ok_def bench_run_def split: option.splits)

lemma bench_ok_runs: "list_all2 (bench_ok wr em rd) bs ts \<Longrightarrow> bench_runs wr em (\<lambda>_. rd) p bs ts p"
  by (induction rule: list_all2_induct) (use bench_ok_run in fastforce)+

definition CRLF :: "byte list" where "CRLF = [13, 10]"

definition bench_head :: "'s benchmark_t \<Rightarrow> byte list" where
  "bench_head b = left 15 (category b) @ left 15 (bname b) @ left 10 (signed_numeral (sint (iteration_count b)))"

text \<open>In a virtual machine: the marks for the host around the runs.\<close>

definition bench_text :: "'s benchmark_t \<Rightarrow> byte list \<times> byte list \<Rightarrow> byte list" where
  "bench_text b t = bench_head b @ [123] @ fst t @ [125] @ [91] @ snd t @ [93] @ CRLF"

definition harness_text :: "byte list \<Rightarrow> byte list" where
  "harness_text body = 42 # CRLF @ left 15 (bytes_of ''category'') @ left 15 (bytes_of ''name'') @
     left 10 (bytes_of ''iteration'') @ CRLF @ bytes_of STR_BENCHMARK_BEGIN @ body @
     bytes_of STR_BENCHMARK_END @ bytes_of STR_BENCHMARK_END"

lemma takeWhile_cstr: "0 \<notin> set s \<Longrightarrow> takeWhile (\<lambda>c. c \<noteq> 0) (s @ [0 :: byte]) = s"
  by (subst takeWhile_append2) auto

lemma field_left: "field c (- int n) s = left n s"
  by (simp add: field_def left_def chr_def)

lemma fmt_left:
  "morefmt (bytes_of ''-15s'' @ r) 0 props0 = Some (115, 0, props0\<lparr>npad := - 15\<rparr>, r)"
  "morefmt (bytes_of ''-10s'' @ r) 0 props0 = Some (115, 0, props0\<lparr>npad := - 10\<rparr>, r)"
  "morefmt (bytes_of ''-10ld'' @ r) 0 props0 = Some (100, 1, props0\<lparr>npad := - 10\<rparr>, r)"
  "morefmt (bytes_of ''-15lu'' @ r) 0 props0 = Some (117, 1, props0\<lparr>npad := - 15\<rparr>, r)"
  "morefmt (bytes_of ''ld'' @ r) 0 props0 = Some (100, 1, props0, r)"
  by (simp_all add: bytes_of_def chr_def fmtnum_def atol_def)

lemma render_percent:
  assumes "morefmt fmt 0 props0 = Some (f, nlong, props, rest)" "f \<noteq> 0"
  shows "render (37 # fmt) va = do { (s, va) \<leftarrow> conv_text f nlong props va; out \<leftarrow> render rest va; Some (s @ out) }"
  using assms by (simp add: chr_def)

lemma render_plain: "0 \<notin> set t \<Longrightarrow> 37 \<notin> set t \<Longrightarrow> render (t @ [0]) va = Some t"
  by (induction t) (auto simp: chr_def)

lemma render_plain_append: "0 \<notin> set t \<Longrightarrow> 37 \<notin> set t \<Longrightarrow> render (t @ fmt) va = map_option ((@) t) (render fmt va)"
  by (induction t; cases "render fmt va") (auto simp: chr_def)

lemma bytes_of_append: "bytes_of (a @ b) = bytes_of a @ bytes_of b"
  by (simp add: bytes_of_def)

lemma conv_left_string:
  assumes "0 \<notin> set s" "length s < 2000" "sint (npad props) = - int n"
  shows "conv_text 115 0 props (cstr s # va) = Some (left n s, va)"
  using assms by (simp add: conv_text_def chr_def cstr_def takeWhile_cstr field_left del: takeWhile_append)

lemma conv_left_signed:
  assumes "w \<noteq> 0x8000000000000000" "sint (npad props) = - int n"
  shows "conv_text 100 (Suc 0) props (VInt w # va) = Some (left n (signed_numeral (sint w)), va)"
proof -
  have "sint w \<noteq> - 9223372036854775808"
  proof
    assume "sint w = - 9223372036854775808"
    moreover have "word_of_int (sint w) = w"
      by simp
    ultimately have "w = word_of_int (- 9223372036854775808)"
      by simp
    with assms(1) show False
      by simp
  qed
  then show ?thesis
    using assms(2) by (simp add: conv_text_def chr_def va_next_def va_signed_def field_left)
qed

lemma conv_left_unsigned:
  assumes "sint (npad props) = - int n"
  shows "conv_text 117 (Suc 0) props (VInt w # va) = Some (left n (numeral_of 10 (unat w)), va)"
  using assms by (simp add: conv_text_def chr_def va_next_def va_unsigned_def unsigned_text_def field_left)

text \<open>The texts of the formats of the harness.\<close>

lemma sint_widths: "sint (npad (props0\<lparr>npad := - 15\<rparr>)) = - int 15" "sint (npad (props0\<lparr>npad := - 10\<rparr>)) = - int 10"
    "sint (npad props0) = - int 0"
  by (simp_all add: props0_def)

lemma fmt_texts:
  "bytes_of ''%-15s%-15s'' @ r = 37 # bytes_of ''-15s'' @ 37 # bytes_of ''-15s'' @ r"
  "bytes_of (''%-15s%-15s%-10s'' @ [CHR 0x0D, CHR 0x0A]) @ r =
     37 # bytes_of ''-15s'' @ 37 # bytes_of ''-15s'' @ 37 # bytes_of ''-10s'' @ CRLF @ r"
  "bytes_of ''%-10ld'' @ r = 37 # bytes_of ''-10ld'' @ r"
  "bytes_of ''%-15lu'' @ r = 37 # bytes_of ''-15lu'' @ r"
  "bytes_of ''%ld\<newline>'' @ r = 37 # bytes_of ''ld'' @ [10] @ r"
  by (simp_all add: bytes_of_def chr_def CRLF_def)

lemma render_formats:
  assumes "0 \<notin> set c" "0 \<notin> set n" "length c < 2000" "length n < 2000"
  shows "render (bytes_of ''%-15s%-15s'' @ [0]) [cstr c, cstr n] = Some (left 15 c @ left 15 n)"
    "w \<noteq> 0x8000000000000000 \<Longrightarrow> render (bytes_of ''%-10ld'' @ [0]) [VInt w] = Some (left 10 (signed_numeral (sint w)))"
    "w \<noteq> 0x8000000000000000 \<Longrightarrow> render (bytes_of ''%ld\<newline>'' @ [0]) [VInt w] = Some (signed_numeral (sint w) @ [10])"
    "render (bytes_of ''%-15lu'' @ [0]) [VInt w] = Some (left 15 (numeral_of 10 (unat w)))"
proof -
  show "render (bytes_of ''%-15s%-15s'' @ [0]) [cstr c, cstr n] = Some (left 15 c @ left 15 n)"
    unfolding fmt_texts by (simp add: render_percent [OF fmt_left(1)] conv_left_string [OF _ _ sint_widths(1)] assms
        del: render.simps(2)) (simp add: conv_left_string [OF _ _ sint_widths(1)] assms)
  show "w \<noteq> 0x8000000000000000 \<Longrightarrow> render (bytes_of ''%-10ld'' @ [0]) [VInt w] = Some (left 10 (signed_numeral (sint w)))"
    unfolding fmt_texts by (subst render_percent [OF fmt_left(3)]) (simp_all add: conv_left_signed [OF _ sint_widths(2)])
  show "w \<noteq> 0x8000000000000000 \<Longrightarrow> render (bytes_of ''%ld\<newline>'' @ [0]) [VInt w] = Some (signed_numeral (sint w) @ [10])"
    unfolding fmt_texts by (subst render_percent [OF fmt_left(5)])
      (simp_all add: conv_left_signed [OF _ sint_widths(3)] left_def chr_def)
  show "render (bytes_of ''%-15lu'' @ [0]) [VInt w] = Some (left 15 (numeral_of 10 (unat w)))"
    unfolding fmt_texts by (subst render_percent [OF fmt_left(4)])
      (simp_all add: conv_left_unsigned [OF sint_widths(1)])
qed

lemma render_title:
  "render (bytes_of (''%-15s%-15s%-10s'' @ [CHR 0x0D, CHR 0x0A]) @ [0])
     [cstr (bytes_of ''category''), cstr (bytes_of ''name''), cstr (bytes_of ''iteration'')] =
   Some (left 15 (bytes_of ''category'') @ left 15 (bytes_of ''name'') @ left 10 (bytes_of ''iteration'') @ CRLF)"
proof -
  have s: "0 \<notin> set (bytes_of ''category'')" "0 \<notin> set (bytes_of ''name'')" "0 \<notin> set (bytes_of ''iteration'')"
      "length (bytes_of ''category'') < 2000" "length (bytes_of ''name'') < 2000" "length (bytes_of ''iteration'') < 2000"
    by (simp_all add: bytes_of_def chr_def)
  have "render (CRLF @ [0]) [] = Some CRLF"
    by (rule render_plain) (simp_all add: CRLF_def)
  then show ?thesis
    unfolding fmt_texts using s
    by (simp add: render_percent [OF fmt_left(1)] render_percent [OF fmt_left(2)] conv_left_string [OF _ _ sint_widths(1)]
        conv_left_string [OF _ _ sint_widths(2)] del: render.simps(2))
qed

lemma signed_numeral_no_nul: "0 \<notin> set (signed_numeral k)"
  using numeral_no_nul [of 10] by (auto simp: signed_numeral_def chr_def)

lemma left_no_nul: "0 \<notin> set s \<Longrightarrow> 0 \<notin> set (left n s)"
  by (auto simp: left_def)

lemma length_left: "length (left n s) = max n (length s)"
  by (simp add: left_def)

text \<open>A step of the harness that puts a text on the device and reads the counter so many times.\<close>

definition did :: "('s \<Rightarrow> 'v) \<Rightarrow> (byte list \<Rightarrow> 'v \<Rightarrow> 'v) \<Rightarrow> ('s \<Rightarrow> bool) \<Rightarrow> 's bench_state \<Rightarrow> 's bench_state option \<Rightarrow>
    byte list \<Rightarrow> nat \<Rightarrow> bool" where
  "did wr em rd s r t n \<longleftrightarrow> (\<exists>s'. r = Some s' \<and> rd (dev s') \<and> wr (dev s') = em t (wr (dev s)) \<and> tsc s' = tsc s \<and>
     tsc_reads s' = tsc_reads s + n)"

text \<open>The lines of the bare-metal build: the differences of the four reads of the counter.\<close>

definition bare_text :: "(nat \<Rightarrow> u64) \<Rightarrow> nat \<Rightarrow> 's benchmark_t \<Rightarrow> byte list \<times> byte list \<Rightarrow> byte list" where
  "bare_text T k b t =
     (let time_control = T (k + 1) - T k; time_kernel = T (k + 3) - T (k + 2) in
      bench_head b @ fst t @ snd t @ left 15 (numeral_of 10 (unat time_control)) @
      left 15 (numeral_of 10 (unat time_kernel)) @ signed_numeral (sint (time_kernel - time_control)) @ [10])"

definition bare_times_ok :: "(nat \<Rightarrow> u64) \<Rightarrow> nat \<Rightarrow> bool" where
  "bare_times_ok T k \<longleftrightarrow> T (k + 3) - T (k + 2) - (T (k + 1) - T k) \<noteq> 0x8000000000000000"

fun bare_lines :: "(nat \<Rightarrow> u64) \<Rightarrow> nat \<Rightarrow> 's benchmark_t list \<Rightarrow> (byte list \<times> byte list) list \<Rightarrow> byte list" where
  "bare_lines T k (b # bs) (t # ts) = bare_text T k b t @ bare_lines T (k + 4) bs ts"
| "bare_lines T k _ _ = []"

definition vm_lines :: "'s benchmark_t list \<Rightarrow> (byte list \<times> byte list) list \<Rightarrow> byte list" where
  "vm_lines bs ts = concat (map2 bench_text bs ts)"

lemma cycles_of_read: "cycles_of (ucast t, ucast (drop_bit 32 t)) = t"
  using split_word [of t] by (simp add: cycles_of_def or.commute)

lemma numeral_length_u64: "n < 2 ^ 64 \<Longrightarrow> length (numeral_of 10 n) \<le> 20"
  using rdigits_length_u64 [of 10 n] by (simp add: numeral_of_def)

lemma signed_numeral_length: "length (signed_numeral (sint (w :: u64))) \<le> 21"
proof -
  have "nat \<bar>sint w\<bar> < 2 ^ 64"
    using sint_lt [of w] sint_ge [of w] by simp
  from numeral_length_u64 [OF this] show ?thesis
    unfolding signed_numeral_def by (cases "sint w < 0") simp_all
qed

context printer
begin

lemma did_bind:
  assumes "did written emit P s r t n"
    "\<And>s'. P (dev s') \<Longrightarrow> tsc s' = tsc s \<Longrightarrow> tsc_reads s' = tsc_reads s + n \<Longrightarrow> did written emit Q s' (f s') t' m"
  shows "did written emit Q s (r \<bind> f) (t @ t') (n + m)"
proof -
  obtain s1 where s1: "r = Some s1" "P (dev s1)" "written (dev s1) = emit t (written (dev s))" "tsc s1 = tsc s"
      "tsc_reads s1 = tsc_reads s + n"
    using assms(1) by (auto simp: did_def)
  obtain s2 where "f s1 = Some s2" "Q (dev s2)" "written (dev s2) = emit t' (written (dev s1))" "tsc s2 = tsc s1"
      "tsc_reads s2 = tsc_reads s1 + m"
    using assms(2) [OF s1(2,4,5)] by (auto simp: did_def)
  with s1 show ?thesis
    by (simp add: did_def emit_append)
qed

lemma did_hprintf:
  assumes "ready p (dev s)" "render (bytes_of fmt @ [0]) va = Some out" "0 \<notin> set out" "length out < BUFSZ"
  shows "did written emit (ready p) s (hprintf pr fmt va s) out 0"
  using print_text [OF assms] by (auto simp: did_def hprintf_def on_dev_def)

lemma did_plain:
  assumes "ready p (dev s)" "0 \<notin> set (bytes_of fmt)" "37 \<notin> set (bytes_of fmt)" "length fmt < BUFSZ"
  shows "did written emit (ready p) s (hprintf pr fmt [] s) (bytes_of fmt) 0"
  using assms by (intro did_hprintf render_plain) (simp_all add: bytes_of_def)

lemma did_on_dev:
  assumes "P (dev s)" "prints written emit P f t Q"
  shows "did written emit Q s (on_dev f s) t 0"
  using assms by (fastforce simp: did_def prints_def on_dev_def)

lemma did_init:
  assumes "ready p (dev s)" "case init b of Some f \<Rightarrow> prints written emit (ready p) f [] (ready q) | None \<Rightarrow> q = p"
  shows "did written emit (ready q) s (case init b of Some f \<Rightarrow> on_dev f s | None \<Rightarrow> Some s) [] 0"
  using assms did_on_dev [of "ready p" s _ "[]"] by (cases "init b") (auto simp: did_def emit_Nil)

lemma did_head:
  assumes "ready p (dev s)" "case init b of Some f \<Rightarrow> prints written emit (ready p) f [] (ready q) | None \<Rightarrow> q = p"
    and "0 \<notin> set (category b)" "0 \<notin> set (bname b)" "length (category b) + length (bname b) < 1900"
    and "iteration_count b \<noteq> 0x8000000000000000"
  shows "did written emit (ready q) s
    (do { s \<leftarrow> hprintf pr ''%-15s%-15s'' [cstr (category b), cstr (bname b)] s;
          s \<leftarrow> (case init b of Some f \<Rightarrow> on_dev f s | None \<Rightarrow> Some s);
          hprintf pr ''%-10ld'' [VInt (iteration_count b)] s }) (bench_head b) 0"
proof -
  have 1: "did written emit (ready p) s (hprintf pr ''%-15s%-15s'' [cstr (category b), cstr (bname b)] s)
      (left 15 (category b) @ left 15 (bname b)) 0"
    using assms by (intro did_hprintf render_formats(1)) (auto simp: length_left BUFSZ_def left_no_nul)
  have 2: "did written emit (ready q) s (hprintf pr ''%-10ld'' [VInt (iteration_count b)] s)
      (left 10 (signed_numeral (sint (iteration_count b)))) 0" if "ready q (dev s)" for s
    using that assms(6) signed_numeral_length [of "iteration_count b"] signed_numeral_no_nul
    by (intro did_hprintf render_formats(2) [of "[]" "[]"]) (auto simp: length_left BUFSZ_def left_no_nul)
  show ?thesis
    using did_bind [OF 1 did_bind [OF did_init [OF _ assms(2)] 2]] by (simp add: bench_head_def)
qed

lemma did_execute_vm:
  assumes "ready p (dev s)" "bench_run written emit ready p b t q"
  shows "did written emit (ready q) s (harness_execute False pr junk b s) (bench_text b t) 0"
proof -
  have eq: "harness_execute False pr junk b s =
    (do { s \<leftarrow> hprintf pr ''%-15s%-15s'' [cstr (category b), cstr (bname b)] s;
          s \<leftarrow> (case init b of Some f \<Rightarrow> on_dev f s | None \<Rightarrow> Some s);
          hprintf pr ''%-10ld'' [VInt (iteration_count b)] s }) \<bind>
    (\<lambda>s. hprintf pr ''{'' [] s \<bind> (\<lambda>s. on_dev (benchmark_control b) s \<bind> (\<lambda>s. hprintf pr ''}'' [] s \<bind>
    (\<lambda>s. hprintf pr ''['' [] s \<bind> (\<lambda>s. on_dev (benchmark b) s \<bind>
    (\<lambda>s. hprintf pr ('']'' @ [CHR 0x0D, CHR 0x0A]) [] s \<bind> (\<lambda>s. on_dev (cleanup b) s)))))))"
    by (simp add: harness_execute_def mark_def)
  have marks: "bytes_of ''{'' = [123]" "bytes_of ''}'' = [125]" "bytes_of ''['' = [91]"
      "bytes_of ('']'' @ [CHR 0x0D, CHR 0x0A]) = [93, 13, 10]"
    by (simp_all add: bytes_of_def chr_def)
  have mark: "did written emit (ready r) s (hprintf pr f [] s) (bytes_of f) 0"
    if "ready r (dev s)" "f \<in> {''{'', ''}'', ''['', '']'' @ [CHR 0x0D, CHR 0x0A]}" for r s f
    using that by (intro did_plain) (auto simp: bytes_of_def chr_def BUFSZ_def)
  obtain p1 p2 p3 where ph: "case init b of Some f \<Rightarrow> prints written emit (ready p) f [] (ready p1) | None \<Rightarrow> p1 = p"
      "prints written emit (ready p1) (benchmark_control b) (fst t) (ready p2)"
      "prints written emit (ready p2) (benchmark b) (snd t) (ready p3)" "prints written emit (ready p3) (cleanup b) [] (ready q)"
    using assms(2) unfolding bench_run_def by blast
  have "did written emit (ready q) s (harness_execute False pr junk b s)
      (bench_head b @ bytes_of ''{'' @ fst t @ bytes_of ''}'' @ bytes_of ''['' @ snd t @
        bytes_of ('']'' @ [CHR 0x0D, CHR 0x0A]) @ []) (0 + (0 + (0 + (0 + (0 + (0 + (0 + 0)))))))"
    unfolding eq using assms
    by (intro did_bind [OF did_head [OF assms(1) ph(1)]] did_bind [OF mark [of p1]] did_bind [OF did_on_dev [OF _ ph(2)]]
        did_bind [OF mark [of p2]] did_bind [OF did_on_dev [OF _ ph(3)]] did_bind [OF mark [of p3]] did_on_dev [OF _ ph(4)])
      (auto simp: bench_run_def)
  then show ?thesis
    unfolding marks by (simp add: bench_text_def CRLF_def)
qed

lemma did_rdtsc:
  assumes "\<And>s'. dev s' = dev s \<Longrightarrow> tsc s' = tsc s \<Longrightarrow> tsc_reads s' = Suc (tsc_reads s) \<Longrightarrow>
    did written emit Q s' (f (ucast (tsc s (tsc_reads s)), ucast (drop_bit 32 (tsc s (tsc_reads s)))) s') t n"
  shows "did written emit Q s (mark True pr m junk s \<bind> (\<lambda>(c, s). f c s)) t (Suc n)"
  using assms [of "s\<lparr>tsc_reads := Suc (tsc_reads s)\<rparr>"]
  by (simp add: mark_def rdtsc_def read_tsc_def did_def Let_def)

lemma did_times:
  assumes "ready p (dev s)" "x1 - x0 = d" "x3 - x2 = e" "e - d \<noteq> 0x8000000000000000"
  shows "did written emit (ready p) s
    (do { let time_control = x1 - x0; let time_kernel = x3 - x2;
          s \<leftarrow> hprintf pr ''%-15lu'' [VInt time_control] s;
          s \<leftarrow> hprintf pr ''%-15lu'' [VInt time_kernel] s;
          hprintf pr ''%ld\<newline>'' [VInt (time_kernel - time_control)] s })
    (left 15 (numeral_of 10 (unat d)) @ left 15 (numeral_of 10 (unat e)) @ signed_numeral (sint (e - d)) @ [10]) 0"
proof -
  have u: "did written emit (ready p) s (hprintf pr ''%-15lu'' [VInt w] s) (left 15 (numeral_of 10 (unat w))) 0"
    if "ready p (dev s)" for s w
    using that numeral_length_u64 [of "unat w"] unat_lt_u64 [of w] numeral_no_nul [of 10]
    by (intro did_hprintf render_formats(4) [of "[]" "[]"]) (auto simp: length_left BUFSZ_def left_no_nul)
  have i: "did written emit (ready p) s (hprintf pr ''%ld\<newline>'' [VInt (e - d)] s) (signed_numeral (sint (e - d)) @ [10]) 0"
    if "ready p (dev s)" for s
    using that assms(4) signed_numeral_length [of "e - d"] signed_numeral_no_nul
    by (intro did_hprintf render_formats(3) [of "[]" "[]"]) (auto simp: BUFSZ_def)
  show ?thesis
    using assms(1) did_bind [OF u [OF assms(1)] did_bind [OF u i]] by (simp add: assms(2,3))
qed

lemma did_execute_bare:
  assumes "ready p (dev s)" "bench_run written emit ready p b t q" "bare_times_ok (tsc s) (tsc_reads s)"
  shows "did written emit (ready q) s (harness_execute True pr junk b s) (bare_text (tsc s) (tsc_reads s) b t) 4"
proof -
  let ?T = "tsc s" and ?k = "tsc_reads s"
  let ?d = "?T (?k + 1) - ?T ?k" and ?e = "?T (?k + 3) - ?T (?k + 2)"
  let ?times = "left 15 (numeral_of 10 (unat ?d)) @ left 15 (numeral_of 10 (unat ?e)) @ signed_numeral (sint (?e - ?d)) @ [10]"
  have eq: "harness_execute True pr junk b s =
    (do { s \<leftarrow> hprintf pr ''%-15s%-15s'' [cstr (category b), cstr (bname b)] s;
          s \<leftarrow> (case init b of Some f \<Rightarrow> on_dev f s | None \<Rightarrow> Some s);
          hprintf pr ''%-10ld'' [VInt (iteration_count b)] s }) \<bind>
    (\<lambda>s. mark True pr ''{'' junk s \<bind> (\<lambda>(c0, s). on_dev (benchmark_control b) s \<bind>
    (\<lambda>s. mark True pr ''}'' junk s \<bind> (\<lambda>(c1, s). mark True pr ''['' junk s \<bind> (\<lambda>(c2, s). on_dev (benchmark b) s \<bind>
    (\<lambda>s. mark True pr ('']'' @ [CHR 0x0D, CHR 0x0A]) junk s \<bind> (\<lambda>(c3, s). on_dev (cleanup b) s \<bind>
    (\<lambda>s. do { let time_control = cycles_of c1 - cycles_of c0; let time_kernel = cycles_of c3 - cycles_of c2;
          s \<leftarrow> hprintf pr ''%-15lu'' [VInt time_control] s;
          s \<leftarrow> hprintf pr ''%-15lu'' [VInt time_kernel] s;
          hprintf pr ''%ld\<newline>'' [VInt (time_kernel - time_control)] s }))))))))"
    by (simp add: harness_execute_def case_prod_beta)
  obtain p1 p2 p3 where ph: "case init b of Some f \<Rightarrow> prints written emit (ready p) f [] (ready p1) | None \<Rightarrow> p1 = p"
      "prints written emit (ready p1) (benchmark_control b) (fst t) (ready p2)"
      "prints written emit (ready p2) (benchmark b) (snd t) (ready p3)" "prints written emit (ready p3) (cleanup b) [] (ready q)"
    using assms(2) unfolding bench_run_def by blast
  have "did written emit (ready q) s (harness_execute True pr junk b s)
      (bench_head b @ fst t @ snd t @ [] @ ?times) (0 + Suc (0 + Suc (Suc (0 + Suc (0 + 0)))))"
    unfolding eq using assms
    by (intro did_bind [OF did_head [OF assms(1) ph(1)]] did_bind [OF did_on_dev [OF _ ph(2)]]
        did_bind [OF did_on_dev [OF _ ph(3)]] did_bind [OF did_on_dev [OF _ ph(4)]] did_rdtsc did_times)
      (auto simp: bench_run_def bare_times_ok_def cycles_of_read numeral_3_eq_3)
  then show ?thesis
    by (simp add: bare_text_def Let_def eval_nat_numeral)
qed

lemma did_refl: "ready p (dev s) \<Longrightarrow> did written emit (ready p) s (Some s) [] 0"
  by (simp add: did_def emit_Nil)

lemma did_all_vm:
  assumes "bench_runs written emit ready p bs ts q" "ready p (dev s)"
  shows "did written emit (ready q) s (execute_all False pr junk bs s) (vm_lines bs ts) 0"
  using assms
proof (induction bs arbitrary: p s ts)
  case Nil
  then show ?case
    by (cases ts) (simp_all add: did_refl vm_lines_def)
next
  case (Cons b bs)
  then obtain t ts' r where ts: "ts = t # ts'" "bench_run written emit ready p b t r" "bench_runs written emit ready r bs ts' q"
    by (cases ts) auto
  have "did written emit (ready q) s (execute_all False pr junk (b # bs) s) (bench_text b t @ vm_lines bs ts') (0 + 0)"
    unfolding execute_all.simps by (rule did_bind [OF did_execute_vm [OF Cons.prems(2) ts(2)] Cons.IH [OF ts(3)]])
  then show ?case
    by (simp add: ts(1) vm_lines_def)
qed

lemma did_all_bare:
  assumes "bench_runs written emit ready p bs ts q" "ready p (dev s)"
    "\<forall>i<length bs. bare_times_ok (tsc s) (tsc_reads s + 4 * i)"
  shows "did written emit (ready q) s (execute_all True pr junk bs s) (bare_lines (tsc s) (tsc_reads s) bs ts) (4 * length bs)"
  using assms
proof (induction bs arbitrary: p s ts)
  case Nil
  then show ?case
    by (cases ts) (simp_all add: did_refl)
next
  case (Cons b bs)
  then obtain t ts' r where ts: "ts = t # ts'" "bench_run written emit ready p b t r" "bench_runs written emit ready r bs ts' q"
    by (cases ts) auto
  have ok: "bare_times_ok (tsc s) (tsc_reads s)" "\<forall>i<length bs. bare_times_ok (tsc s) (tsc_reads s + 4 + 4 * i)"
    using spec [OF Cons.prems(3), of 0] Cons.prems(3) by (auto dest: spec [of _ "Suc _"] simp: add.assoc)
  have "did written emit (ready q) s (execute_all True pr junk (b # bs) s)
      (bare_text (tsc s) (tsc_reads s) b t @ bare_lines (tsc s) (tsc_reads s + 4) bs ts') (4 + 4 * length bs)"
    unfolding execute_all.simps
  proof (rule did_bind [OF did_execute_bare [OF Cons.prems(2) ts(2) ok(1)]])
    fix s' :: "'s bench_state"
    assume "ready r (dev s')" "tsc s' = tsc s" "tsc_reads s' = tsc_reads s + 4"
    then show "did written emit (ready q) s' (execute_all True pr junk bs s') (bare_lines (tsc s) (tsc_reads s + 4) bs ts')
        (4 * length bs)"
      using Cons.IH [OF ts(3), of s'] ok(2) by simp
  qed
  then show ?case
    by (simp add: ts(1))
qed

lemma did_main:
  assumes "ready p (dev s)"
    and "\<And>s'. ready p (dev s') \<Longrightarrow> tsc s' = tsc s \<Longrightarrow> tsc_reads s' = tsc_reads s \<Longrightarrow>
      did written emit (ready p) s' (if bare then Some s' else pin_delay in_rdx s') [] n"
    and "\<And>s'. ready p (dev s') \<Longrightarrow> tsc s' = tsc s \<Longrightarrow> tsc_reads s' = tsc_reads s + n \<Longrightarrow>
      did written emit (ready q) s' (execute_all bare pr junk bs s') body m"
  shows "did written emit (ready q) s (harness_main bare in_rdx pr junk bs s) (harness_text body) (n + m)"
proof -
  have star: "bytes_of (''*'' @ [CHR 0x0D, CHR 0x0A]) = 42 # CRLF"
    by (simp add: bytes_of_def chr_def CRLF_def)
  have plain: "did written emit (ready r) s (hprintf pr f [] s) (bytes_of f) 0"
    if "ready r (dev s)" "f \<in> {''*'' @ [CHR 0x0D, CHR 0x0A], STR_BENCHMARK_BEGIN, STR_BENCHMARK_END}" for r s f
    using that by (intro did_plain)
      (auto simp: bytes_of_def chr_def STR_BENCHMARK_BEGIN_def STR_BENCHMARK_END_def BUFSZ_def)
  let ?title = "left 15 (bytes_of ''category'') @ left 15 (bytes_of ''name'') @ left 10 (bytes_of ''iteration'') @ CRLF"
  have title: "did written emit (ready p) s (hprintf pr (''%-15s%-15s%-10s'' @ [CHR 0x0D, CHR 0x0A])
      [cstr (bytes_of ''category''), cstr (bytes_of ''name''), cstr (bytes_of ''iteration'')] s) ?title 0"
    if "ready p (dev s)" for s
    using that by (intro did_hprintf render_title) (auto simp: left_def bytes_of_def chr_def CRLF_def BUFSZ_def)
  have "did written emit (ready q) s (harness_main bare in_rdx pr junk bs s)
      (bytes_of (''*'' @ [CHR 0x0D, CHR 0x0A]) @ [] @ ?title @
        bytes_of STR_BENCHMARK_BEGIN @ body @ bytes_of STR_BENCHMARK_END @ bytes_of STR_BENCHMARK_END)
      (0 + (n + (0 + (0 + (m + (0 + 0))))))"
    unfolding harness_main_def using assms(1)
    by (intro did_bind [OF plain [of p]] did_bind [OF assms(2)] did_bind [OF title] did_bind [OF assms(3)]
        did_bind [OF plain [of q]] plain [of q]) simp_all
  then show ?thesis
    unfolding star by (simp add: harness_text_def)
qed

lemma did_pin_delay:
  assumes "ready p (dev s)" "reading in_rdx s k < reading in_rdx s 0"
  shows "did written emit (ready p) s (pin_delay in_rdx s) [] (Suc (LEAST k. reading in_rdx s k < reading in_rdx s 0))"
  using assms by (auto simp: did_def pin_delay_eq emit_Nil)

text \<open>The whole run in the two builds.\<close>

lemma did_harness_vm:
  assumes "ready p (dev s)" "bench_runs written emit ready p bs ts q" "reading in_rdx s k < reading in_rdx s 0"
  shows "did written emit (ready q) s (harness_main False in_rdx pr c bs s)
    (harness_text (vm_lines bs ts)) (Suc (LEAST k. reading in_rdx s k < reading in_rdx s 0))"
proof -
  let ?n = "Suc (LEAST k. reading in_rdx s k < reading in_rdx s 0)"
  have pin: "did written emit (ready p) s' (if False then Some s' else pin_delay in_rdx s') [] ?n"
    if "ready p (dev s')" "tsc s' = tsc s" "tsc_reads s' = tsc_reads s" for s'
  proof -
    have same: "reading in_rdx s' = reading in_rdx s"
      using that by (simp add: fun_eq_iff reading_def)
    show ?thesis
      using did_pin_delay [OF that(1), of in_rdx k, unfolded same, OF assms(3)] by simp
  qed
  have "did written emit (ready q) s (harness_main False in_rdx pr c bs s) (harness_text (vm_lines bs ts)) (?n + 0)"
    by (intro did_main [OF assms(1) pin did_all_vm [OF assms(2)]])
  then show ?thesis
    by simp
qed

lemma did_harness_bare:
  assumes "ready p (dev s)" "bench_runs written emit ready p bs ts q"
    "\<forall>i<length bs. bare_times_ok (tsc s) (tsc_reads s + 4 * i)"
  shows "did written emit (ready q) s (harness_main True in_rdx pr c bs s)
    (harness_text (bare_lines (tsc s) (tsc_reads s) bs ts)) (4 * length bs)"
proof -
  have body: "did written emit (ready q) s' (execute_all True pr c bs s') (bare_lines (tsc s) (tsc_reads s) bs ts) (4 * length bs)"
    if "ready p (dev s')" "tsc s' = tsc s" "tsc_reads s' = tsc_reads s + 0" for s'
    using did_all_bare [OF assms(2) that(1)] that(2,3) assms(3) by simp
  have "did written emit (ready q) s (harness_main True in_rdx pr c bs s)
      (harness_text (bare_lines (tsc s) (tsc_reads s) bs ts)) (0 + 4 * length bs)"
    by (rule did_main [OF assms(1) _ body]) (simp_all add: did_refl)
  then show ?thesis
    by simp
qed

end

text \<open>The two builds: the serial line of a virtual machine, and the screen of a physical one.\<close>

definition serial_pr :: "(nat \<Rightarrow> byte) \<Rightarrow> bool \<Rightarrow> serial print" where
  "serial_pr junk use_serial fmt va s =
     map_option fst (printf False (\<lambda>_ _. None) (puts use_serial) (map junk [0..<BUFSZ]) fmt va s)"

definition vga_pr :: "(nat \<Rightarrow> byte) \<Rightarrow> console print" where
  "vga_pr junk fmt va s =
     map_option fst (printf True console_puts (\<lambda>_ _. None) (map junk [0..<BUFSZ]) fmt va s)"

interpretation serial_printer: printer "serial_pr junk use_serial" sent "\<lambda>b out. out @ b" "\<lambda>_ :: unit. serial_ready"
proof
  fix d fmt va out
  assume "serial_ready d" "render fmt va = Some out" "0 \<notin> set out" "length out < BUFSZ"
  then show "\<exists>d'. serial_pr junk use_serial fmt va d = Some d' \<and> serial_ready d' \<and> sent d' = sent d @ out"
    using serial_sink.printf_written [of d fmt va out "map junk [0..<BUFSZ]" False "\<lambda>_ _. None" "puts use_serial" use_serial]
    by (auto simp: serial_pr_def)
qed simp_all

interpretation vga_printer: printer "vga_pr junk" shown "fold term_putc" "\<lambda>_ :: unit. console_ready"
proof
  fix d fmt va out
  assume "console_ready d" "render fmt va = Some out" "0 \<notin> set out" "length out < BUFSZ"
  then show "\<exists>d'. vga_pr junk fmt va d = Some d' \<and> console_ready d' \<and> shown d' = fold term_putc out (shown d)"
    using vga_sink.printf_written [of d fmt va out "map junk [0..<BUFSZ]" True console_puts "\<lambda>_ _. None"]
    by (auto simp: vga_pr_def)
qed simp_all

section \<open>Properties\<close>

text \<open>
  The wait for the host ends exactly when some read of the half of the counter that is looked at
  is smaller than the first one; that 60000000000 cycles have passed is never noticed.
\<close>

theorem pin_delay_returns_iff:
  "(\<exists>s'. pin_delay in_rdx s = Some s') \<longleftrightarrow>
     (\<exists>k. half in_rdx (tsc s (tsc_reads s + k)) < half in_rdx (tsc s (tsc_reads s)))"
  by (auto simp: pin_delay_eq reading_def)

lemma first_wrap:
  fixes T :: "nat \<Rightarrow> nat"
  assumes "\<forall>k. T k \<le> T (Suc k) \<and> T (Suc k) - T k \<le> T 0 mod m" "T 0 + m \<le> T n" "0 < m"
  shows "\<exists>k. T k mod m < T 0 mod m \<and> T k < T 0 + m"
proof -
  define b where "b = (T 0 div m + 1) * m"
  have sum: "b + T 0 mod m = T 0 + m"
    unfolding b_def using div_mult_mod_eq [of "T 0" m] by (simp only: distrib_right)
  have "T 0 mod m < m"
    using assms(3) by simp
  then have b: "T 0 < b"
    using sum by linarith
  define k where "k = (LEAST k. b \<le> T k)"
  have "b \<le> T n"
    using assms(2) sum by linarith
  then have k: "b \<le> T k" "\<And>j. j < k \<Longrightarrow> T j < b"
    unfolding k_def by (rule LeastI) (meson not_less_Least not_le)
  then obtain j where j: "k = Suc j"
    using b by (cases k) auto
  have "T k < b + T 0 mod m"
    using k(2) [of j] spec [OF assms(1), of j] unfolding j by linarith
  moreover have "T k = (T k - b) + b"
    using k(1) by simp
  then have "T k mod m = (T k - b) mod m"
    unfolding b_def by (metis mod_mult_self1 mult.commute)
  moreover have "(T k - b) mod m \<le> T k - b"
    by (rule mod_less_eq_dividend)
  ultimately have "T k mod m < T 0 mod m" "T k < T 0 + m"
    using k(1) sum by linarith+
  then show ?thesis
    by blast
qed

text \<open>
  C38. When the compiler keeps the low half and the counter does not jump over the first value of that
  half between two reads, the wait is over in less than \<open>2 ^ 32\<close> cycles, a fourteenth of what it asks for.
\<close>

theorem pin_delay_short:
  assumes "\<forall>k. unat (tsc s k) \<le> unat (tsc s (Suc k)) \<and>
      unat (tsc s (Suc k)) - unat (tsc s k) \<le> unat (tsc s (tsc_reads s)) mod 2 ^ 32"
    "unat (tsc s (tsc_reads s)) + 2 ^ 32 \<le> unat (tsc s (tsc_reads s + n))"
  shows "\<exists>s' k. pin_delay False s = Some s' \<and> tsc_reads s' = tsc_reads s + Suc k \<and>
    unat (tsc s (tsc_reads s + k)) - unat (tsc s (tsc_reads s)) < 2 ^ 32"
proof -
  let ?T = "\<lambda>k. unat (tsc s (tsc_reads s + k))"
  have less: "reading False s k < reading False s 0 \<longleftrightarrow> ?T k mod 2 ^ 32 < ?T 0 mod 2 ^ 32" for k
    by (simp add: reading_def half_def word_less_nat_alt unsigned_take_bit_eq take_bit_eq_mod [where ?'a = nat])
  have "\<exists>k. ?T k mod 2 ^ 32 < ?T 0 mod 2 ^ 32 \<and> ?T k < ?T 0 + 2 ^ 32"
    using assms by (intro first_wrap [of ?T _ n]) simp_all
  then obtain k where k: "reading False s k < reading False s 0" "?T k < ?T 0 + 2 ^ 32"
    unfolding less by blast
  define m where "m = (LEAST k. reading False s k < reading False s 0)"
  have "m \<le> k"
    unfolding m_def by (rule Least_le) (rule k(1))
  moreover have "mono ?T"
    using assms(1) by (intro mono_iff_le_Suc [THEN iffD2]) simp
  ultimately have "?T m \<le> ?T k"
    by (rule monoD [rotated])
  then show ?thesis
    using k pin_delay_eq [of False s] by (intro exI [of _ "s\<lparr>tsc_reads := tsc_reads s + Suc m\<rparr>"] exI [of _ m]) (auto simp: m_def)
qed

lemma harness_vm_did:
  assumes "serial_ready (dev s)" "list_all2 (bench_ok sent (\<lambda>b out. out @ b) serial_ready) bs ts"
    "reading in_rdx s k < reading in_rdx s 0"
  shows "did sent (\<lambda>b out. out @ b) serial_ready s (harness_main False in_rdx (serial_pr junk use_serial) c bs s)
    (harness_text (vm_lines bs ts)) (Suc (LEAST k. reading in_rdx s k < reading in_rdx s 0))"
  using serial_printer.did_harness_vm [OF assms(1) bench_ok_runs [OF assms(2)] assms(3)] .

text \<open>
  C23. In the build for virtual machines the harness runs every benchmark once, in order, and the
  serial line carries the mark for the host, the title, and for each benchmark its line: the fields
  flush left, and the marks around what the control and the benchmark print.
\<close>

theorem harness_vm_output:
  assumes "serial_ready (dev s)" "list_all2 (bench_ok sent (\<lambda>b out. out @ b) serial_ready) bs ts"
    "reading in_rdx s k < reading in_rdx s 0"
  shows "\<exists>s'. harness_main False in_rdx (serial_pr junk use_serial) c bs s = Some s' \<and> serial_ready (dev s') \<and>
    sent (dev s') = sent (dev s) @ harness_text (vm_lines bs ts)"
  using harness_vm_did [OF assms, of junk use_serial c] by (auto simp: did_def)

text \<open>
  In the build for bare metal it needs no host: the screen shows the same title and for each
  benchmark the number of cycles of the control, of the benchmark, and their signed difference,
  from four successive reads of the counter.
\<close>

theorem harness_bare_output:
  assumes "console_ready (dev s)" "list_all2 (bench_ok shown (fold term_putc) console_ready) bs ts"
    "\<forall>i<length bs. bare_times_ok (tsc s) (tsc_reads s + 4 * i)"
  shows "\<exists>s'. harness_main True in_rdx (vga_pr junk) c bs s = Some s' \<and> console_ready (dev s') \<and>
    shown (dev s') = fold term_putc (harness_text (bare_lines (tsc s) (tsc_reads s) bs ts)) (shown (dev s))"
  using vga_printer.did_harness_bare [OF assms(1) bench_ok_runs [OF assms(2)] assms(3), of in_rdx junk c]
  by (auto simp: did_def)

section \<open>Witnesses\<close>

definition example_tsc :: "nat \<Rightarrow> u64" where
  "example_tsc k = of_nat (2147483648 * min (k + 1) 4)"

lemma unat_example_tsc: "unat (example_tsc k) = 2147483648 * min (k + 1) 4"
proof -
  have "2147483648 * min (k + 1) 4 \<le> 2147483648 * 4"
    by (intro mult_le_mono2) simp
  then show ?thesis
    unfolding example_tsc_def by (simp only: unsigned_of_nat) (simp add: take_bit_nat_eq_self)
qed

theorem pin_delay_short_witness:
  "\<exists>s' k. pin_delay False \<lparr>dev = (), tsc = example_tsc, tsc_reads = 0\<rparr> = Some s' \<and> tsc_reads s' = Suc k \<and>
     unat (example_tsc k) - unat (example_tsc 0) < 2 ^ 32"
proof -
  let ?s = "\<lparr>dev = (), tsc = example_tsc, tsc_reads = 0\<rparr>"
  have "\<forall>k. unat (tsc ?s k) \<le> unat (tsc ?s (Suc k)) \<and>
      unat (tsc ?s (Suc k)) - unat (tsc ?s k) \<le> unat (tsc ?s (tsc_reads ?s)) mod 2 ^ 32"
    by (simp add: unat_example_tsc min_def)
  moreover have "unat (tsc ?s (tsc_reads ?s)) + 2 ^ 32 \<le> unat (tsc ?s (tsc_reads ?s + 3))"
    by (simp add: unat_example_tsc)
  ultimately show ?thesis
    using pin_delay_short [of ?s 3] by simp
qed

definition idle_benchmark :: "'s benchmark_t" where
  "idle_benchmark = \<lparr>bname = bytes_of ''idle'', category = bytes_of ''idle'', init = Some Some, benchmark = Some,
     benchmark_control = Some, cleanup = Some, iteration_count = 1\<rparr>"

lemma idle_benchmark_ok:
  assumes "\<And>v. em [] v = v"
  shows "bench_ok wr em rd idle_benchmark ([], [])"
  using assms by (simp add: bench_ok_def idle_benchmark_def prints_def bytes_of_def chr_def)

definition example_serial :: serial where
  "example_serial = \<lparr>inputs = \<lambda>n p. if p = 0x3fd then 0x20 else 0, reads = 0, accesses = [],
     lock = \<lparr>lock_v = 0\<rparr>, serial_inited = 0\<rparr>"

lemma example_serial_ready: "serial_ready example_serial" "sent example_serial = []"
proof -
  have "drains example_serial"
    by (auto simp: drains_def example_serial_def bit_numeral_rec)
  then show "serial_ready example_serial" "sent example_serial = []"
    by (simp_all add: serial_ready_def example_serial_def sent_def)
qed

theorem harness_vm_witness:
  "\<exists>s'. harness_main False False (serial_pr (\<lambda>_. 0) True) (0, 0) [idle_benchmark]
       \<lparr>dev = example_serial, tsc = \<lambda>k. if k = 0 then 5 else 3, tsc_reads = 0\<rparr> = Some s' \<and>
     sent (dev s') = harness_text (bench_text (idle_benchmark :: serial benchmark_t) ([], []))"
proof -
  let ?s = "\<lparr>dev = example_serial, tsc = \<lambda>k. if k = 0 then 5 else 3, tsc_reads = 0\<rparr>"
  have "reading False ?s 1 < reading False ?s 0"
    by (simp add: reading_def half_def take_bit_eq_mask mask_eq_exp_minus_1)
  moreover have "list_all2 (bench_ok sent (\<lambda>b out. out @ b) serial_ready) [idle_benchmark] [([], [])]"
    by (simp add: idle_benchmark_ok)
  ultimately show ?thesis
    using harness_vm_output [of ?s "[idle_benchmark]" "[([], [])]" False 1 "\<lambda>_. 0" True "(0, 0)"] example_serial_ready
    by (simp add: vm_lines_def) blast
qed

theorem harness_bare_witness:
  "\<exists>s'. harness_main True False (vga_pr (\<lambda>_. 0)) (0, 0) [idle_benchmark]
       \<lparr>dev = example_console, tsc = of_nat, tsc_reads = 0\<rparr> = Some s' \<and>
     shown (dev s') = fold term_putc (harness_text (bare_text of_nat 0 (idle_benchmark :: console benchmark_t) ([], []))) blank_term"
proof -
  let ?s = "\<lparr>dev = example_console, tsc = of_nat, tsc_reads = 0\<rparr>"
  have "console_ready example_console" "shown example_console = blank_term"
    by (simp_all add: console_ready_def console_ok_unat example_console_def shown_def)
  moreover have "list_all2 (bench_ok shown (fold term_putc) console_ready) [idle_benchmark] [([], [])]"
    by (simp add: idle_benchmark_ok)
  moreover have "bare_times_ok of_nat 0"
    by (simp add: bare_times_ok_def)
  ultimately show ?thesis
    using harness_bare_output [of ?s "[idle_benchmark]" "[([], [])]" False "\<lambda>_. 0" "(0, 0)"] by simp blast
qed

end
