(* ===== verification/Host.thy ===== *)
theory Host
  imports Printf Cpu
begin

text \<open>
  The program on the host (\<open>host/host.c\<close>, \<open>host/rdtsc.h\<close>), which reads what the kernel prints on its
  serial line and takes the times. The functions of the C library it uses are written out for the
  formats it uses them with. \<open>None\<close> is a run that does not come to an end or has no defined
  behaviour; what the script that pins the processors prints is an argument.
\<close>

section \<open>Streams\<close>

text \<open>Standard input, what was handed to \<open>printf\<close>, and the time stamp counter.\<close>

record host =
  stdin :: "byte list"
  hout :: "(byte list \<times> va_arg list) list"
  htsc :: "nat \<Rightarrow> u64"
  htsc_reads :: nat

definition out :: "string \<Rightarrow> va_arg list \<Rightarrow> host \<Rightarrow> host" where
  "out fmt args s = s\<lparr>hout := hout s @ [(bytes_of fmt @ [0], args)]\<rparr>"

definition string_arg :: "byte list \<Rightarrow> va_arg" where
  "string_arg b = VStr (b @ [0])"

text \<open>\<open>fgetc\<close>, its result converted to \<open>char\<close>: the end of the input is the character 255.\<close>

definition fgetc :: "host \<Rightarrow> byte \<times> host" where
  "fgetc s = (case stdin s of [] \<Rightarrow> (255, s) | c # r \<Rightarrow> (c, s\<lparr>stdin := r\<rparr>))"

text \<open>\<open>getline\<close>: the bytes up to and with the next newline, or what is left.\<close>

definition getline :: "host \<Rightarrow> (byte list \<times> host) option" where
  "getline s =
     (if stdin s = [] then None
      else let n = length (takeWhile (\<lambda>c. c \<noteq> 10) (stdin s)) in
        Some (take (Suc n) (stdin s), s\<lparr>stdin := drop (Suc n) (stdin s)\<rparr>))"

definition same_string :: "byte list \<Rightarrow> byte list \<Rightarrow> bool" where
  "same_string a b \<longleftrightarrow> takeWhile (\<lambda>c. c \<noteq> 0) a = takeWhile (\<lambda>c. c \<noteq> 0) b"

text \<open>\<open>fscanf\<close> with the format \<open>"%s%s%lld "\<close>.\<close>

definition isspace :: "byte \<Rightarrow> bool" where
  "isspace c \<longleftrightarrow> c = 32 \<or> (9 \<le> unat c \<and> unat c \<le> 13)"

definition isdigit :: "byte \<Rightarrow> bool" where
  "isdigit c \<longleftrightarrow> 48 \<le> unat c \<and> unat c \<le> 57"

definition skip_space :: "byte list \<Rightarrow> byte list" where
  "skip_space b = dropWhile isspace b"

definition scan_s :: "byte list \<Rightarrow> byte list option \<times> byte list" where
  "scan_s b = (let b = skip_space b in
     if b = [] then (None, []) else (Some (takeWhile (\<lambda>c. \<not> isspace c) b), dropWhile (\<lambda>c. \<not> isspace c) b))"

definition digits_value :: "byte list \<Rightarrow> int" where
  "digits_value ds = foldl (\<lambda>a c. a * 10 + (int (unat c) - 48)) 0 ds"

definition clamp :: "int \<Rightarrow> int" where
  "clamp k = max (- 9223372036854775808) (min 9223372036854775807 k)"

definition scan_lld :: "byte list \<Rightarrow> int option \<times> byte list" where
  "scan_lld b =
     (let b = skip_space b;
          neg = (b \<noteq> [] \<and> hd b = 45);
          b = (if b \<noteq> [] \<and> (hd b = 45 \<or> hd b = 43) then tl b else b);
          ds = takeWhile isdigit b
      in if ds = [] then (None, b)
         else (Some (clamp (if neg then - digits_value ds else digits_value ds)), dropWhile isdigit b))"

text \<open>The fields read, if there were three, and the input left; a field longer than its array is \<open>None\<close>.\<close>

definition fscanf :: "byte list \<Rightarrow> ((byte list \<times> byte list \<times> int) option \<times> byte list) option" where
  "fscanf b =
     (case scan_s b of (None, b) \<Rightarrow> Some (None, b)
      | (Some category, b) \<Rightarrow>
          if 128 \<le> length category then None
          else case scan_s b of (None, b) \<Rightarrow> Some (None, b)
            | (Some bench, b) \<Rightarrow>
                if 128 \<le> length bench then None
                else case scan_lld b of (None, b) \<Rightarrow> Some (None, b)
                  | (Some n, b) \<Rightarrow> Some (Some (category, bench, n), skip_space b))"

section \<open>The functions\<close>

definition read_symbol :: "host \<Rightarrow> byte \<times> host" where
  "read_symbol s = (let (c, s) = fgetc s in (if c = 91 \<or> c = 123 \<or> c = 42 then c else 0, s))"

function read_start :: "byte list \<Rightarrow> host \<Rightarrow> u32 \<times> host" where
  "read_start str s =
     (case getline s of None \<Rightarrow> (1, s)
      | Some (lineptr, s') \<Rightarrow>
          if same_string str lineptr then (0, out ''%s'' [string_arg str] s') else read_start str s')"
  by pat_completeness auto
termination
  by (relation "measure (\<lambda>(str, s). length (stdin s))") (auto simp: getline_def Let_def split: if_splits)

declare read_start.simps [simp del]

definition read_time_start_char :: "host \<Rightarrow> byte \<times> host" where
  "read_time_start_char s = (let (c, s) = fgetc s in (if c = 91 \<or> c = 123 then c else 0, s))"

text \<open>At the end of the input the loop never ends: \<open>fgetc\<close> goes on returning the same value.\<close>

fun skip_to :: "byte \<Rightarrow> byte list \<Rightarrow> byte list option" where
  "skip_to target [] = None"
| "skip_to target (c # r) = (if c = target then Some r else skip_to target r)"

definition read_time_end_char :: "byte \<Rightarrow> host \<Rightarrow> (byte \<times> host) option" where
  "read_time_end_char target s = map_option (\<lambda>r. (target, s\<lparr>stdin := r\<rparr>)) (skip_to target (stdin s))"

definition read_benchmark :: "host \<Rightarrow> (u32 \<times> host) option" where
  "read_benchmark s =
     do { (fields, r) \<leftarrow> fscanf (stdin s);
          let s = s\<lparr>stdin := r\<rparr>;
          case fields of None \<Rightarrow> Some (1, s)
          | Some (category, bench, iterations) \<Rightarrow>
              Some (0, out ''%-15s%-20s%-15llu'' [string_arg category, string_arg bench, VInt (word_of_int iterations)] s) }"

text \<open>
  \<open>popen\<close> is what the command prints, if it could be started. The buffer is static, so zero at first;
  text that fills it leaves no terminator for \<open>printf\<close>.
\<close>

definition do_command :: "byte list option \<Rightarrow> host \<Rightarrow> host option" where
  "do_command popen s =
     (case popen of None \<Rightarrow> Some s
      | Some text_read \<Rightarrow>
          let buf = take 512 text_read @ replicate (512 - length text_read) 0
          in if 0 \<in> set buf then Some (out ''PIN:%s\<newline>'' [VStr buf] s) else None)"

text \<open>The counter is read by \<open>rdtsc\<close> in \<open>before\<close> and by \<open>rdtscp\<close> in \<open>after\<close>.\<close>

definition htsc_read :: "host \<Rightarrow> (u32 \<times> u32) \<times> host" where
  "htsc_read s = (let t = htsc s (htsc_reads s) in
     ((ucast t, ucast (drop_bit 32 t)), s\<lparr>htsc_reads := Suc (htsc_reads s)\<rparr>))"

definition before :: "host \<Rightarrow> (u32 \<times> u32) \<times> host" where
  "before s = htsc_read s"

definition after :: "host \<Rightarrow> (u32 \<times> u32) \<times> host" where
  "after s = htsc_read s"

definition host_cycles :: "u32 \<times> u32 \<Rightarrow> u64" where
  "host_cycles c = (case c of (cycles_low, cycles_high) \<Rightarrow> push_bit 32 (ucast cycles_high) OR ucast cycles_low)"

text \<open>The variables of \<open>main\<close> that the loop body sets, uninitialised at first.\<close>

record cycle_vars =
  cycles :: "u32 \<times> u32"
  cycles1 :: "u32 \<times> u32"
  cycles2 :: "u32 \<times> u32"
  cycles3 :: "u32 \<times> u32"

definition time_control_run :: "cycle_vars \<Rightarrow> host \<Rightarrow> (cycle_vars \<times> host) option" where
  "time_control_run v s =
     (let (time_start_char, s) = read_time_start_char s in
      if time_start_char = 123 then
        do { let (c, s) = before s;
             (time_end_char, s) \<leftarrow> read_time_end_char 125 s;
             let (c1, s) = after s;
             Some (v\<lparr>cycles := c, cycles1 := c1\<rparr>, s) }
      else Some (v, s))"

definition time_kernel_run :: "cycle_vars \<Rightarrow> host \<Rightarrow> (cycle_vars \<times> host) option" where
  "time_kernel_run v s =
     (let (time_start_char, s) = read_time_start_char s in
      if time_start_char = 91 then
        do { let (c, s) = before s;
             (time_end_char, s) \<leftarrow> read_time_end_char 93 s;
             let (c1, s) = after s;
             Some (v\<lparr>cycles2 := c, cycles3 := c1\<rparr>, s) }
      else Some (v, s))"

definition time_benchmark :: "cycle_vars \<Rightarrow> host \<Rightarrow> (cycle_vars \<times> host) option" where
  "time_benchmark v s =
     do { (v, s) \<leftarrow> time_control_run v s;
          (v, s) \<leftarrow> time_kernel_run v s;
          let time_control = host_cycles (cycles1 v) - host_cycles (cycles v);
          let time_kernel = host_cycles (cycles3 v) - host_cycles (cycles2 v);
          let s = out ''%-15llu'' [VInt time_control] s;
          let s = out ''%-15llu'' [VInt time_kernel] s;
          let s = out (''%lld'' @ [CHR 0x0D, CHR 0x0A]) [VInt (time_kernel - time_control)] s;
          Some (v, s) }"

text \<open>\<open>while (!read_benchmark())\<close>.\<close>

partial_function (option) bench_loop :: "cycle_vars \<Rightarrow> host \<Rightarrow> host option" where
  "bench_loop v s =
     do { (r, s) \<leftarrow> read_benchmark s;
          if r = 0 then do { (v, s) \<leftarrow> time_benchmark v s; bench_loop v s } else Some s }"

definition STAR :: "byte list" where "STAR = [42, 13, 10]"

definition HOST_BEGIN :: "byte list" where
  "HOST_BEGIN = bytes_of (''[BENCHMARKS BEGIN]'' @ [CHR 0x0D, CHR 0x0A])"

definition HOST_END :: "byte list" where
  "HOST_END = bytes_of (''[BENCHMARKS END]'' @ [CHR 0x0D, CHR 0x0A])"

definition title :: "host \<Rightarrow> host" where
  "title = out (''%-15s%-20s%-15s%-15s%-15s%s'' @ [CHR 0x0D, CHR 0x0A])
     (map (\<lambda>t. string_arg (bytes_of t)) [''category'', ''benchmark'', ''iterations'', ''control-time'', ''kernel-time'', ''cycles''])"

definition host_main :: "byte list option \<Rightarrow> cycle_vars \<Rightarrow> host \<Rightarrow> host option" where
  "host_main popen v s =
     do { let (r, s) = read_start STAR s;
          s \<leftarrow> (if r = 0 then do_command popen s else Some s);
          let (r, s) = read_start HOST_BEGIN s;
          s \<leftarrow> (if r = 0 then bench_loop v (title s) else Some s);
          let (r, s) = read_start HOST_END s;
          Some s }"

section \<open>Lines\<close>

definition is_line :: "byte list \<Rightarrow> bool" where
  "is_line l \<longleftrightarrow> l \<noteq> [] \<and> last l = 10 \<and> 10 \<notin> set (butlast l)"

lemma getline_line:
  assumes "is_line l" "stdin s = l @ r"
  shows "getline s = Some (l, s\<lparr>stdin := r\<rparr>)"
proof -
  have l: "l = butlast l @ [10]"
    using assms(1) unfolding is_line_def by (metis append_butlast_last_id)
  have "takeWhile (\<lambda>c. c \<noteq> 10) (l @ r) = butlast l"
    by (subst l) (use assms(1) in \<open>auto simp: is_line_def takeWhile_tail intro!: takeWhile_eq_all_conv [THEN iffD2]\<close>)
  moreover have "Suc (length (butlast l)) = length l"
    using assms(1) by (simp add: is_line_def)
  ultimately show ?thesis
    using assms by (simp add: getline_def is_line_def)
qed

lemma read_start_lines:
  assumes "\<forall>l\<in>set ls. is_line l \<and> \<not> same_string str l" "is_line str" "stdin s = concat ls @ str @ r"
  shows "read_start str s = (0, out ''%s'' [string_arg str] (s\<lparr>stdin := r\<rparr>))"
  using assms
proof (induction ls arbitrary: s)
  case Nil
  then have "getline s = Some (str, s\<lparr>stdin := r\<rparr>)"
    by (intro getline_line) simp_all
  then show ?case
    by (subst read_start.simps) (simp add: same_string_def)
next
  case (Cons l ls)
  then have "getline s = Some (l, s\<lparr>stdin := concat ls @ str @ r\<rparr>)"
    by (intro getline_line) simp_all
  then show ?case
    using Cons by (subst read_start.simps) simp
qed

lemma read_start_eof: "stdin s = [] \<Longrightarrow> read_start str s = (1, s)"
  by (subst read_start.simps) (simp add: getline_def)

section \<open>Fields\<close>

definition token :: "byte list \<Rightarrow> bool" where
  "token t \<longleftrightarrow> t \<noteq> [] \<and> (\<forall>c\<in>set t. \<not> isspace c)"

lemma skip_space_append: "\<forall>c\<in>set w. isspace c \<Longrightarrow> skip_space (w @ b) = skip_space b"
  by (simp add: skip_space_def)

lemma skip_space_token: "token t \<Longrightarrow> skip_space (t @ b) = t @ b"
  by (cases t) (simp_all add: skip_space_def token_def)

lemma scan_s_token:
  assumes "\<forall>c\<in>set w. isspace c" "token t" "r = [] \<or> isspace (hd r)"
  shows "scan_s (w @ t @ r) = (Some t, r)"
proof -
  have "takeWhile (\<lambda>c. \<not> isspace c) (t @ r) = t" "dropWhile (\<lambda>c. \<not> isspace c) (t @ r) = r"
    using assms(2,3) by (cases r; simp add: token_def takeWhile_append dropWhile_append)+
  then show ?thesis
    using assms(1,2) by (simp add: scan_s_def skip_space_append skip_space_token Let_def) (simp add: token_def)
qed

lemma unat_decimal_digit: "d < 10 \<Longrightarrow> unat (digits ! d) = 48 + d"
proof -
  assume "d < 10"
  then have "d \<in> set [0..<10]"
    by simp
  then show ?thesis
    by (auto simp: digits_def bytes_of_def chr_def upt_rec)
qed

lemma rdigits_isdigit: "\<forall>c\<in>set (rdigits 10 n). isdigit c"
proof (induction n rule: less_induct)
  case (less n)
  show ?case
  proof (cases "n = 0")
    case False
    then show ?thesis
      using less [of "n div 10"] unat_decimal_digit [of "n mod 10"] by (auto simp: rdigits_pos isdigit_def)
  qed simp
qed

lemma rdigits_int_value: "foldr (\<lambda>c a. a * 10 + (int (unat c) - 48)) (rdigits 10 n) 0 = int n"
proof (induction n rule: less_induct)
  case (less n)
  show ?case
  proof (cases "n = 0")
    case False
    have "int (unat (digits ! (n mod 10))) - 48 = int (n mod 10)"
      by (simp add: unat_decimal_digit)
    moreover have "int (n div 10) * 10 + int (n mod 10) = int n"
      using div_mult_mod_eq [of n 10] by linarith
    ultimately show ?thesis
      using False less [of "n div 10"] by (simp add: rdigits_pos)
  qed simp
qed

lemma numeral_isdigit: "\<forall>c\<in>set (numeral_of 10 n). isdigit c" "numeral_of 10 n \<noteq> []"
  using rdigits_isdigit [of n] by (auto simp: numeral_of_def rdigits_eq_Nil isdigit_def chr_def)

lemma digits_value_numeral: "digits_value (numeral_of 10 n) = int n"
  using rdigits_int_value [of n] by (simp add: numeral_of_def digits_value_def foldl_conv_foldr chr_def)

lemma digit_not_space: "isdigit c \<Longrightarrow> \<not> isspace c"
  by (auto simp: isdigit_def isspace_def)

lemma signed_numeral_token: "token (signed_numeral k)"
  using numeral_isdigit [of "nat \<bar>k\<bar>"] digit_not_space
  by (auto simp: token_def signed_numeral_def isspace_def chr_def)

lemma scan_lld_numeral:
  assumes "\<forall>c\<in>set w. isspace c" "r = [] \<or> \<not> isdigit (hd r)"
  shows "scan_lld (w @ signed_numeral k @ r) = (Some (clamp k), r)"
proof -
  let ?n = "numeral_of 10 (nat \<bar>k\<bar>)"
  have d: "takeWhile isdigit (?n @ r) = ?n" "dropWhile isdigit (?n @ r) = r"
    using numeral_isdigit(1) assms(2) by (cases r; simp add: takeWhile_append dropWhile_append)+
  have hd: "hd (?n @ r) \<noteq> 45" "hd (?n @ r) \<noteq> 43"
    using numeral_isdigit [of "nat \<bar>k\<bar>"] by (cases ?n; auto simp: isdigit_def)+
  have "skip_space (w @ signed_numeral k @ r) = signed_numeral k @ r"
    using assms(1) by (simp add: skip_space_append skip_space_token signed_numeral_token)
  then show ?thesis
    using d hd numeral_isdigit(2) [of "nat \<bar>k\<bar>"]
    by (cases "k < 0") (simp_all add: scan_lld_def signed_numeral_def chr_def digits_value_numeral Let_def)
qed

lemma clamp_sint: "clamp (sint (w :: u64)) = sint w"
  using sint_lt [of w] sint_ge [of w] by (simp add: clamp_def)

section \<open>One benchmark\<close>

text \<open>What the host needs of a line: fields apart from each other, and the marks in their places.\<close>

lemma fscanf_fields:
  assumes "\<forall>c\<in>set w. isspace c" "token c" "length c < 128" "\<forall>x\<in>set w1. isspace x" "w1 \<noteq> []"
    "token b" "length b < 128" "\<forall>x\<in>set w2. isspace x" "w2 \<noteq> []" "\<forall>x\<in>set w3. isspace x"
    "r \<noteq> []" "\<not> isspace (hd r)" "\<not> isdigit (hd r)"
  shows "fscanf (w @ c @ w1 @ b @ w2 @ signed_numeral (sint (n :: u64)) @ w3 @ r) = Some (Some (c, b, sint n), r)"
proof -
  have "scan_s (w @ c @ w1 @ b @ w2 @ signed_numeral (sint n) @ w3 @ r) = (Some c, w1 @ b @ w2 @ signed_numeral (sint n) @ w3 @ r)"
    using assms by (intro scan_s_token) (auto simp: hd_append)
  moreover have "scan_s (w1 @ b @ w2 @ signed_numeral (sint n) @ w3 @ r) = (Some b, w2 @ signed_numeral (sint n) @ w3 @ r)"
    using assms by (intro scan_s_token) (auto simp: hd_append)
  moreover have "w3 @ r = [] \<or> \<not> isdigit (hd (w3 @ r))"
    using assms digit_not_space by (cases w3) auto
  then have "scan_lld (w2 @ signed_numeral (sint n) @ w3 @ r) = (Some (sint n), w3 @ r)"
    using scan_lld_numeral [OF assms(8)] clamp_sint by metis
  moreover have "skip_space (w3 @ r) = r"
    using assms by (cases r) (simp_all add: skip_space_def)
  ultimately show ?thesis
    using assms(3,7) by (simp add: fscanf_def)
qed

lemma host_cycles_read: "host_cycles (ucast t, ucast (drop_bit 32 t)) = t"
  using split_word [of t] by (simp add: host_cycles_def or.commute)

lemma skip_to_append: "c \<notin> set u \<Longrightarrow> skip_to c (u @ c # r) = Some r"
  by (induction u) auto

text \<open>The four lines of output for a benchmark; \<open>T\<close> are the reads of the counter from the \<open>k\<close>-th on.\<close>

definition times_row :: "(nat \<Rightarrow> u64) \<Rightarrow> nat \<Rightarrow> (byte list \<times> va_arg list) list" where
  "times_row T k =
     (let time_control = T (k + 1) - T k; time_kernel = T (k + 3) - T (k + 2) in
      [(bytes_of ''%-15llu'' @ [0], [VInt time_control]), (bytes_of ''%-15llu'' @ [0], [VInt time_kernel]),
       (bytes_of (''%lld'' @ [CHR 0x0D, CHR 0x0A]) @ [0], [VInt (time_kernel - time_control)])])"

lemma time_benchmark_reads:
  assumes "stdin s = 123 # u @ 125 # 91 # v @ 93 # r" "125 \<notin> set u" "93 \<notin> set v"
  shows "\<exists>vars'. time_benchmark vars s =
    Some (vars', s\<lparr>stdin := r, htsc_reads := htsc_reads s + 4, hout := hout s @ times_row (htsc s) (htsc_reads s)\<rparr>)"
proof -
  have plus: "k + 3 = Suc (Suc (Suc k))" "k + 4 = Suc (Suc (Suc (Suc k)))" for k :: nat
    by simp_all
  have "skip_to 125 (u @ 125 # 91 # v @ 93 # r) = Some (91 # v @ 93 # r)" "skip_to 93 (v @ 93 # r) = Some r"
    using assms(2,3) by (simp_all add: skip_to_append)
  then show ?thesis
    using assms(1)
    by (simp add: time_benchmark_def time_control_run_def time_kernel_run_def read_time_start_char_def fgetc_def
        before_def after_def htsc_read_def read_time_end_char_def out_def times_row_def host_cycles_read plus Let_def)
qed

end
