(* ===== verification/Report.thy ===== *)
theory Report
  imports Harness Host
begin

text \<open>
  The kernel and the host together: the text the harness puts on the serial line is what the host
  reads. The lemmas here lead from the one to the other; the theorem on the whole chain is in the
  root theory.
\<close>

section \<open>Reading the lines of the harness\<close>

text \<open>What a benchmark must keep to for the host to read its line.\<close>

definition report_ok :: "'s benchmark_t \<Rightarrow> byte list \<times> byte list \<Rightarrow> bool" where
  "report_ok b t \<longleftrightarrow> token (category b) \<and> token (bname b) \<and> length (category b) < 15 \<and> length (bname b) < 15 \<and>
     125 \<notin> set (fst t) \<and> 93 \<notin> set (snd t)"

definition fields_row :: "byte list \<Rightarrow> byte list \<Rightarrow> u64 \<Rightarrow> byte list \<times> va_arg list" where
  "fields_row c n k = (bytes_of ''%-15s%-20s%-15llu'' @ [0], [string_arg c, string_arg n, VInt k])"

fun report :: "(nat \<Rightarrow> u64) \<Rightarrow> nat \<Rightarrow> 's benchmark_t list \<Rightarrow> (byte list \<times> va_arg list) list" where
  "report T k [] = []"
| "report T k (b # bs) =
     fields_row (category b) (bname b) (iteration_count b) # times_row T k @ report T (k + 4) bs"

lemma spaces: "\<forall>c\<in>set (replicate n 32). isspace c" "\<forall>c\<in>set CRLF. isspace c"
  by (auto simp: isspace_def CRLF_def)

lemma fscanf_bench:
  assumes "report_ok b t" "\<forall>c\<in>set w. isspace c"
  shows "fscanf (w @ bench_text b t @ r) =
    Some (Some (category b, bname b, sint (iteration_count b)), 123 # fst t @ 125 # 91 # snd t @ 93 # CRLF @ r)"
proof -
  let ?n = "signed_numeral (sint (iteration_count b))"
  have eq: "w @ bench_text b t @ r = w @ category b @ replicate (15 - length (category b)) 32 @ bname b @
      replicate (15 - length (bname b)) 32 @ ?n @ replicate (10 - length ?n) 32 @
      (123 # fst t @ 125 # 91 # snd t @ 93 # CRLF @ r)"
    by (simp add: bench_text_def bench_head_def left_def)
  show ?thesis
    unfolding eq
    by (rule fscanf_fields) (use assms in \<open>auto simp: report_ok_def isspace_def isdigit_def\<close>)
qed

lemma bench_loop_step:
  assumes "report_ok b t" "\<forall>c\<in>set w. isspace c" "stdin s = w @ bench_text b t @ r"
  shows "\<exists>v'. bench_loop v s = bench_loop v' (s\<lparr>stdin := CRLF @ r, htsc_reads := htsc_reads s + 4,
    hout := hout s @ fields_row (category b) (bname b) (iteration_count b) # times_row (htsc s) (htsc_reads s)\<rparr>)"
proof -
  let ?u = "123 # fst t @ 125 # 91 # snd t @ 93 # CRLF @ r"
  let ?s = "s\<lparr>stdin := ?u, hout := hout s @ [fields_row (category b) (bname b) (iteration_count b)]\<rparr>"
  have "read_benchmark s = Some (0, ?s)"
    using fscanf_bench [OF assms(1,2), of r] assms(3) by (simp add: read_benchmark_def out_def fields_row_def)
  moreover obtain v' where "time_benchmark v ?s =
      Some (v', ?s\<lparr>stdin := CRLF @ r, htsc_reads := htsc_reads ?s + 4, hout := hout ?s @ times_row (htsc ?s) (htsc_reads ?s)\<rparr>)"
    using time_benchmark_reads [of ?s "fst t" "snd t" "CRLF @ r" v] assms(1) by (auto simp: report_ok_def)
  ultimately show ?thesis
    by (subst bench_loop.simps) auto
qed

lemma host_end: "HOST_END = bytes_of STR_BENCHMARK_END" "HOST_BEGIN = bytes_of STR_BENCHMARK_BEGIN"
  by (simp_all add: HOST_END_def HOST_BEGIN_def STR_BENCHMARK_END_def STR_BENCHMARK_BEGIN_def)

text \<open>The first line that says the end is taken for a benchmark without a number; the second is left.\<close>

lemma bench_loop_end:
  assumes "\<forall>c\<in>set w. isspace c" "stdin s = w @ HOST_END @ HOST_END"
  shows "bench_loop v s = Some (s\<lparr>stdin := HOST_END\<rparr>)"
proof -
  have e: "HOST_END = bytes_of ''[BENCHMARKS'' @ [32] @ bytes_of ''END]'' @ CRLF"
    by (simp add: HOST_END_def CRLF_def bytes_of_def chr_def)
  have t: "token (bytes_of ''[BENCHMARKS'')" "token (bytes_of ''END]'')"
    by (simp_all add: token_def bytes_of_def chr_def isspace_def)
  have "scan_s (w @ HOST_END @ HOST_END) = (Some (bytes_of ''[BENCHMARKS''), [32] @ bytes_of ''END]'' @ CRLF @ HOST_END)"
    using scan_s_token [OF assms(1) t(1), of "[32] @ bytes_of ''END]'' @ CRLF @ HOST_END"]
    by (simp add: e isspace_def)
  moreover have "scan_s ([32] @ bytes_of ''END]'' @ CRLF @ HOST_END) = (Some (bytes_of ''END]''), CRLF @ HOST_END)"
    by (rule scan_s_token) (use t in \<open>auto simp: isspace_def CRLF_def\<close>)
  moreover have "scan_lld (CRLF @ HOST_END) = (None, HOST_END)"
    by code_simp
  ultimately have "fscanf (stdin s) = Some (None, HOST_END)"
    using assms(2) by (simp add: fscanf_def bytes_of_def)
  then show ?thesis
    by (subst bench_loop.simps) (simp add: read_benchmark_def)
qed

lemma bench_loop_report:
  assumes "list_all2 report_ok bs ts" "\<forall>c\<in>set w. isspace c" "stdin s = w @ vm_lines bs ts @ HOST_END @ HOST_END"
  shows "bench_loop v s = Some (s\<lparr>stdin := HOST_END, htsc_reads := htsc_reads s + 4 * length bs,
    hout := hout s @ report (htsc s) (htsc_reads s) bs\<rparr>)"
  using assms
proof (induction arbitrary: s w v rule: list_all2_induct)
  case Nil
  then show ?case
    using bench_loop_end [of w s v] by (simp add: vm_lines_def)
next
  case (Cons b bs t ts)
  have "stdin s = w @ bench_text b t @ vm_lines bs ts @ HOST_END @ HOST_END"
    using Cons.prems(2) by (simp add: vm_lines_def)
  from bench_loop_step [OF Cons.hyps(1) Cons.prems(1) this]
  obtain v' where "bench_loop v s = bench_loop v' (s\<lparr>stdin := CRLF @ vm_lines bs ts @ HOST_END @ HOST_END,
      htsc_reads := htsc_reads s + 4,
      hout := hout s @ fields_row (category b) (bname b) (iteration_count b) # times_row (htsc s) (htsc_reads s)\<rparr>)"
    by blast
  then show ?case
    using Cons.IH [OF spaces(2), of _ v'] by (simp add: algebra_simps)
qed

section \<open>The whole dialogue\<close>

lemma marks_lines: "is_line STAR" "is_line HOST_BEGIN" "is_line HOST_END" "0 \<notin> set HOST_BEGIN"
  by (simp_all add: is_line_def STAR_def HOST_BEGIN_def HOST_END_def bytes_of_def chr_def)

text \<open>What \<open>do_command\<close> prints.\<close>

definition pin_log :: "byte list option \<Rightarrow> (byte list \<times> va_arg list) list" where
  "pin_log popen = (case popen of None \<Rightarrow> []
     | Some t \<Rightarrow> [(bytes_of ''PIN:%s\<newline>'' @ [0], [VStr (t @ replicate (512 - length t) 0)])])"

definition host_log :: "byte list option \<Rightarrow> (nat \<Rightarrow> u64) \<Rightarrow> nat \<Rightarrow> 's benchmark_t list \<Rightarrow> (byte list \<times> va_arg list) list" where
  "host_log popen T k bs =
     (bytes_of ''%s'' @ [0], [string_arg STAR]) # pin_log popen @
     (bytes_of ''%s'' @ [0], [string_arg HOST_BEGIN]) # hout (title \<lparr>stdin = [], hout = [], htsc = T, htsc_reads = k\<rparr>) @
     report T k bs @ [(bytes_of ''%s'' @ [0], [string_arg HOST_END])]"

definition title_line :: "byte list" where
  "title_line = left 15 (bytes_of ''category'') @ left 15 (bytes_of ''name'') @ left 10 (bytes_of ''iteration'') @ CRLF"

lemma title_line_other: "is_line title_line" "\<not> same_string HOST_BEGIN title_line"
proof -
  have t: "title_line = bytes_of ''category       name           iteration '' @ CRLF"
    by code_simp
  show "is_line title_line" "\<not> same_string HOST_BEGIN title_line"
    unfolding t by (simp_all add: is_line_def same_string_def HOST_BEGIN_def bytes_of_def chr_def CRLF_def)
qed

lemma host_main_report:
  assumes "list_all2 report_ok bs ts" "\<forall>l\<in>set ls. is_line l \<and> \<not> same_string STAR l"
    "stdin s = concat ls @ harness_text (vm_lines bs ts)" "\<forall>t. popen = Some t \<longrightarrow> length t < 512"
  shows "host_main popen v s = Some (s\<lparr>stdin := [], htsc_reads := htsc_reads s + 4 * length bs,
    hout := hout s @ host_log popen (htsc s) (htsc_reads s) bs\<rparr>)"
proof -
  let ?r2 = "vm_lines bs ts @ HOST_END @ HOST_END"
  let ?r1 = "title_line @ HOST_BEGIN @ ?r2"
  have "stdin s = concat ls @ STAR @ ?r1"
    using assms(3) by (simp add: harness_text_def STAR_def CRLF_def title_line_def host_end)
  then have r1: "read_start STAR s = (0, out ''%s'' [string_arg STAR] (s\<lparr>stdin := ?r1\<rparr>))"
    using assms(2) marks_lines(1) by (intro read_start_lines)
  let ?s1 = "s\<lparr>stdin := ?r1, hout := hout s @ (bytes_of ''%s'' @ [0], [string_arg STAR]) # pin_log popen\<rparr>"
  have c: "do_command popen (out ''%s'' [string_arg STAR] (s\<lparr>stdin := ?r1\<rparr>)) = Some ?s1"
    using assms(4) by (cases popen) (auto simp: do_command_def out_def pin_log_def Let_def)
  have r2: "read_start HOST_BEGIN ?s1 = (0, out ''%s'' [string_arg HOST_BEGIN] (?s1\<lparr>stdin := ?r2\<rparr>))"
    using title_line_other marks_lines(2) by (intro read_start_lines [of "[title_line]"]) simp_all
  let ?s2 = "title (out ''%s'' [string_arg HOST_BEGIN] (?s1\<lparr>stdin := ?r2\<rparr>))"
  have l: "bench_loop v ?s2 = Some (?s2\<lparr>stdin := HOST_END, htsc_reads := htsc_reads ?s2 + 4 * length bs,
      hout := hout ?s2 @ report (htsc ?s2) (htsc_reads ?s2) bs\<rparr>)"
    by (rule bench_loop_report [OF assms(1), of "[]"]) (simp_all add: title_def out_def)
  let ?s3 = "?s2\<lparr>stdin := HOST_END, htsc_reads := htsc_reads ?s2 + 4 * length bs,
      hout := hout ?s2 @ report (htsc ?s2) (htsc_reads ?s2) bs\<rparr>"
  have r3: "read_start HOST_END ?s3 = (0, out ''%s'' [string_arg HOST_END] (?s3\<lparr>stdin := []\<rparr>))"
    using marks_lines(3) by (intro read_start_lines [of "[]"]) simp_all
  show ?thesis
    by (simp only: host_main_def r1 Let_def prod.case simp_thms if_True c Option.bind.simps(2) r2 l r3)
      (simp add: title_def out_def host_log_def)
qed

section \<open>Where the dialogue breaks\<close>

text \<open>
  C39. A category of 15 characters or more leaves no space before the name: the host takes both for
  one field, finds no number after the next one and stops reading results there, without a message.
\<close>

theorem long_category_stops_host:
  assumes "token (category b)" "token (bname b)" "15 \<le> length (category b)" "length (bname b) < 15"
    "length (category b) + length (bname b) < 128" "length (signed_numeral (sint (iteration_count b))) < 10"
    "stdin s = bench_text b t @ r"
  shows "\<exists>s'. bench_loop v s = Some s' \<and> hout s' = hout s"
proof -
  let ?n = "signed_numeral (sint (iteration_count b))"
  let ?u = "[123] @ fst t @ [125] @ [91] @ snd t @ [93] @ CRLF @ r"
  let ?w1 = "replicate (15 - length (bname b)) (32 :: byte)" and ?w2 = "replicate (10 - length ?n) (32 :: byte)"
  have "token (category b @ bname b)"
    using assms(1,2) by (auto simp: token_def)
  then have f1: "scan_s ([] @ (category b @ bname b) @ ?w1 @ ?n @ ?w2 @ ?u) = (Some (category b @ bname b), ?w1 @ ?n @ ?w2 @ ?u)"
    using assms(4) by (intro scan_s_token) (auto simp: hd_append isspace_def)
  have f2: "scan_s (?w1 @ ?n @ ?w2 @ ?u) = (Some ?n, ?w2 @ ?u)"
    using assms(6) signed_numeral_token by (intro scan_s_token) (auto simp: hd_append isspace_def)
  have "skip_space (?w2 @ ?u) = ?u"
    by (simp add: skip_space_append isspace_def) (simp add: skip_space_def isspace_def)
  then have f3: "scan_lld (?w2 @ ?u) = (None, ?u)"
    by (simp add: scan_lld_def isdigit_def Let_def)
  have "stdin s = [] @ (category b @ bname b) @ ?w1 @ ?n @ ?w2 @ ?u"
    using assms(3,7) by (simp add: bench_text_def bench_head_def left_def)
  then have "fscanf (stdin s) = Some (None, ?u)"
    using f1 f2 f3 assms(5,6) by (simp add: fscanf_def)
  then show ?thesis
    by (subst bench_loop.simps) (simp add: read_benchmark_def)
qed


text \<open>Witnesses.\<close>

definition example_host :: "byte list \<Rightarrow> host" where
  "example_host b = \<lparr>stdin = b, hout = [], htsc = of_nat, htsc_reads = 0\<rparr>"

definition example_vars :: cycle_vars where
  "example_vars = \<lparr>cycles = (0, 0), cycles1 = (0, 0), cycles2 = (0, 0), cycles3 = (0, 0)\<rparr>"

lemma idle_report_ok: "report_ok idle_benchmark ([], [])"
  by (simp add: report_ok_def idle_benchmark_def token_def bytes_of_def chr_def isspace_def)

theorem long_category_witness:
  "\<exists>s'. bench_loop example_vars (example_host (bench_text ((idle_benchmark :: unit benchmark_t)\<lparr>category := bytes_of ''memory-hierarchy''\<rparr>)
       ([], []))) = Some s' \<and> hout s' = []"
proof -
  let ?b = "(idle_benchmark :: unit benchmark_t)\<lparr>category := bytes_of ''memory-hierarchy''\<rparr>"
  have "length (signed_numeral (sint (iteration_count ?b))) < 10"
    by (simp add: idle_benchmark_def signed_numeral_def numeral_of_def rdigits_pos)
  moreover have "token (category ?b)" "token (bname ?b)" "15 \<le> length (category ?b)" "length (bname ?b) < 15"
      "length (category ?b) + length (bname ?b) < 128"
    by (simp_all add: idle_benchmark_def token_def bytes_of_def chr_def isspace_def)
  ultimately show ?thesis
    using long_category_stops_host [of ?b "example_host (bench_text ?b ([], []))" "([], [])" "[]" example_vars]
    by (simp add: example_host_def)
qed


end
