(* ===== verification/Benchmarks.thy ===== *)
theory Benchmarks
  imports Paging Ipi Harness
begin

text \<open>
  The benchmarks (\<open>benchmark/\<close>) on the state of the whole kernel, in the order in which they are
  linked: what each one sets up, the loop it times, the control loop and the clean-up, on the memory,
  the page tables, the processors and the ports of the other theories.
\<close>

section \<open>The state of the kernel\<close>

text \<open>What a benchmark measures, each operation as it is done.\<close>

datatype op =
  Op_sgdt addr
| Op_sidt addr
| Op_smsw
| Op_pushf_popf
| Op_lgdt addr
| Op_set_cr3 u64
| Op_vmcall u32
| Op_on_cpu nat
| Op_read addr
| Op_setup_mmu u64
| Op_inb u64
| Op_outb u8 u64
| Op_outbs u64 u64

text \<open>
  \<open>kdesc\<close> holds the registers of the boot processor, whose number is \<open>me\<close>; its third control register is
  in \<open>hp\<close>. The variables of the benchmarks are one object each in the linked image, also where several
  files declare them.
\<close>

record kernel =
  ser :: serial
  con :: console
  hp :: heap
  kdesc :: desc
  ksmp :: smp
  kmp :: mpstate
  me :: nat
  gdtr :: "u16 \<times> u64"
  measured :: "op list"
  var_i :: u32
  var_mem :: u64
  var_msw :: u16
  var_msw_orig :: u16
  var_cr3 :: u64
  var_ptr :: u64
  var_address :: u64
  var_lcr :: u8
  var_len :: u64

text \<open>
  What the build decides: the \<open>printf\<close>, the addresses of the stubs, of the interrupt table and of
  \<open>ipi_entry\<close>, and the contents of the register the compiler takes for an operand nothing is loaded to.
\<close>

record build =
  bprint :: "kernel print"
  stubs :: "nat \<Rightarrow> u64"
  idt_at :: u64
  ipi_entry_at :: u64
  reg_sgdt :: "kernel \<Rightarrow> u64"
  reg_sidt :: "kernel \<Rightarrow> u64"
  reg_lgdt :: "kernel \<Rightarrow> u64"

definition note_op :: "op \<Rightarrow> kernel \<Rightarrow> kernel" where
  "note_op x s = s\<lparr>measured := measured s @ [x]\<rparr>"

section \<open>The functions they call\<close>

text \<open>A function of \<open>heap.c\<close>: what it says goes to \<open>printf\<close>.\<close>

fun say_all :: "kernel print \<Rightarrow> (byte list \<times> va_arg list) list \<Rightarrow> kernel \<Rightarrow> kernel option" where
  "say_all pr [] s = Some s"
| "say_all pr ((fmt, va) # ms) s = do { s \<leftarrow> pr fmt va s; say_all pr ms s }"

definition on_heap :: "kernel print \<Rightarrow> (heap \<Rightarrow> heap option) \<Rightarrow> kernel \<Rightarrow> kernel option" where
  "on_heap pr f s =
     do { h \<leftarrow> f (hp s); say_all pr (drop (length (printed (hp s))) (printed h)) (s\<lparr>hp := h\<rparr>) }"

definition k_setup_mmu :: "kernel print \<Rightarrow> u64 \<Rightarrow> kernel \<Rightarrow> kernel option" where
  "k_setup_mmu pr end_of_memory s =
     on_heap pr (\<lambda>h. map_option fst (setup_mmu end_of_memory h)) (note_op (Op_setup_mmu end_of_memory) s)"

definition k_install_page :: "kernel print \<Rightarrow> u64 \<Rightarrow> addr \<Rightarrow> kernel \<Rightarrow> kernel option" where
  "k_install_page pr phys virt s = on_heap pr (\<lambda>h. Some (fst (install_page (cr3 h) phys virt h))) s"

definition k_alloc_vpages :: "u64 \<Rightarrow> kernel \<Rightarrow> (addr \<times> kernel) option" where
  "k_alloc_vpages nr s = map_option (\<lambda>(a, h). (a, s\<lparr>hp := h\<rparr>)) (alloc_vpages nr (hp s))"

definition k_switch_to_start_cr3 :: "kernel \<Rightarrow> kernel option" where
  "k_switch_to_start_cr3 s = Some (s\<lparr>hp := switch_to_start_cr3 (hp s)\<rparr>)"

definition k_smp_init :: "build \<Rightarrow> kernel \<Rightarrow> kernel option" where
  "k_smp_init b s = map_option (\<lambda>d. s\<lparr>kdesc := d\<rparr>) (smp_init (stubs b) (idt_at b) (ipi_entry_at b) (kdesc s))"

definition k_on_cpu :: "nat \<Rightarrow> kernel \<Rightarrow> kernel option" where
  "k_on_cpu t s =
     do { p \<leftarrow> on_cpu_run (kmp s) (me s) t ((ksmp s)\<lparr>at_cpu := (at_cpu (ksmp s))(me s := cpu (kdesc s))\<rparr>);
          Some (note_op (Op_on_cpu t) (s\<lparr>ksmp := p, kdesc := (kdesc s)\<lparr>cpu := at_cpu p (me s)\<rparr>\<rparr>)) }"

section \<open>Accesses through the page tables\<close>

text \<open>
  The physical address behind a virtual one; \<open>None\<close> is an exception, after which the benchmark does
  not go on.
\<close>

definition virt :: "kernel \<Rightarrow> addr \<Rightarrow> addr option" where
  "virt s a =
     (if - 140737488355328 \<le> sint a \<and> sint a < 140737488355328 then walk (ram (hp s)) 4 (cr3 (hp s)) a else None)"

definition virts :: "kernel \<Rightarrow> addr \<Rightarrow> nat \<Rightarrow> addr list option" where
  "virts s a n = those (map (\<lambda>k. virt s (a + of_nat k)) [0..<n])"

fun put_bytes :: "addr list \<Rightarrow> byte list \<Rightarrow> mem \<Rightarrow> mem" where
  "put_bytes (p # ps) (b # bs) m = put_bytes ps bs (m(p := b))"
| "put_bytes _ _ m = m"

definition vstore :: "addr \<Rightarrow> byte list \<Rightarrow> kernel \<Rightarrow> kernel option" where
  "vstore a bs s =
     do { ps \<leftarrow> virts s a (length bs);
          Some (s\<lparr>hp := (hp s)\<lparr>ram := put_bytes ps bs (ram (hp s))\<rparr>\<rparr>) }"

definition vload :: "addr \<Rightarrow> nat \<Rightarrow> kernel \<Rightarrow> byte list option" where
  "vload a n s = map_option (map (ram (hp s))) (virts s a n)"

definition volatile_read :: "addr \<Rightarrow> kernel \<Rightarrow> kernel option" where
  "volatile_read a s = do { _ \<leftarrow> virt s a; Some (note_op (Op_read a) s) }"

text \<open>The 10 bytes in memory of a descriptor table register: limit and base.\<close>

definition dtr_bytes :: "u16 \<times> u64 \<Rightarrow> byte list" where
  "dtr_bytes d = map (byte_of (fst d)) [0..<2] @ map (byte_of (snd d)) [0..<8]"

definition dtr_of :: "byte list \<Rightarrow> u16 \<times> u64" where
  "dtr_of bs = (load16 (\<lambda>a. bs ! unat a) 0, load64 (\<lambda>a. bs ! unat a) 2)"

section \<open>Loops\<close>

text \<open>\<open>for (i = 0; i < n; i++)\<close> on the global variable.\<close>

partial_function (option) for_from :: "nat \<Rightarrow> (kernel \<Rightarrow> kernel option) \<Rightarrow> kernel \<Rightarrow> kernel option" where
  "for_from n body s =
     (if sint (var_i s) < int n then do { s \<leftarrow> body s; for_from n body (s\<lparr>var_i := var_i s + 1\<rparr>) } else Some s)"

definition for_i :: "nat \<Rightarrow> (kernel \<Rightarrow> kernel option) \<Rightarrow> kernel \<Rightarrow> kernel option" where
  "for_i n body s = for_from n body (s\<lparr>var_i := 0\<rparr>)"

section \<open>The benchmarks\<close>

definition IDLE :: nat where "IDLE = 1"
definition LGDT :: nat where "LGDT = 100000"
definition SET_CR3 :: nat where "SET_CR3 = 100000"
definition SGDT :: nat where "SGDT = 100000"
definition SIDT :: nat where "SIDT = 100000"
definition SMSW :: nat where "SMSW = 100000"
definition PUSHF_POPF :: nat where "PUSHF_POPF = 100000"
definition IPI :: nat where "IPI = 100"
definition HYPERCALL :: nat where "HYPERCALL = 1000"
definition COLD_ACCESS :: nat where "COLD_ACCESS = 100000"
definition HOT_ACCESS :: nat where "HOT_ACCESS = 100000"
definition IN_SERIAL_PORT :: nat where "IN_SERIAL_PORT = 1000"
definition OUT_SERIAL_PORT :: nat where "OUT_SERIAL_PORT = 1000"
definition PRINTF :: nat where "PRINTF = 1000"

subsection \<open>idle\<close>

definition idle_kernel :: "kernel \<Rightarrow> kernel option" where
  "idle_kernel = for_i IDLE Some"

definition idle_control :: "kernel \<Rightarrow> kernel option" where
  "idle_control = for_i IDLE Some"

definition idle :: "kernel benchmark_t" where
  "idle = \<lparr>bname = bytes_of ''idle'', category = bytes_of ''idle'', init = Some Some, benchmark = idle_kernel,
     benchmark_control = idle_control, cleanup = Some, iteration_count = of_nat IDLE\<rparr>"

subsection \<open>sgdt\<close>

definition IORAM_BASE_PHYS :: u64 where "IORAM_BASE_PHYS = 0xff000000"

text \<open>
  The operand \<open>"=r"(mem)\<close> is an output: the instruction stores where the register happens to point, and
  \<open>mem\<close> then gets that value.
\<close>

definition test_sgdt :: "(kernel \<Rightarrow> u64) \<Rightarrow> kernel \<Rightarrow> kernel option" where
  "test_sgdt reg s =
     (let a = reg s in
      do { s \<leftarrow> vstore a (dtr_bytes (gdtr s)) s; Some (note_op (Op_sgdt a) (s\<lparr>var_mem := a\<rparr>)) })"

text \<open>Two new virtual pages for the same physical one, as \<open>sgdt.c\<close>, \<open>sidt.c\<close> and \<open>lgdt.c\<close> have it.\<close>

definition map_ioram :: "kernel print \<Rightarrow> kernel \<Rightarrow> kernel option" where
  "map_ioram pr s =
     do { (m, s) \<leftarrow> k_alloc_vpages 2 s;
          let s = s\<lparr>var_mem := m\<rparr>;
          s \<leftarrow> k_install_page pr IORAM_BASE_PHYS (var_mem s) s;
          k_install_page pr IORAM_BASE_PHYS (var_mem s + 4096) s }"

definition sgdt_init :: "build \<Rightarrow> kernel \<Rightarrow> kernel option" where
  "sgdt_init b s =
     do { s \<leftarrow> k_setup_mmu (bprint b) (push_bit 32 1) s;
          map_ioram (bprint b) s }"

definition sgdt_kernel :: "build \<Rightarrow> kernel \<Rightarrow> kernel option" where
  "sgdt_kernel b = for_i SGDT (test_sgdt (reg_sgdt b))"

definition sgdt_control :: "kernel \<Rightarrow> kernel option" where
  "sgdt_control = for_i SGDT Some"

definition sgdt :: "build \<Rightarrow> kernel benchmark_t" where
  "sgdt b = \<lparr>bname = bytes_of ''sgdt'', category = bytes_of ''critical'', init = Some (sgdt_init b),
     benchmark = sgdt_kernel b, benchmark_control = sgdt_control, cleanup = k_switch_to_start_cr3,
     iteration_count = of_nat SGDT\<rparr>"

subsection \<open>sidt\<close>

definition test_sidt :: "(kernel \<Rightarrow> u64) \<Rightarrow> kernel \<Rightarrow> kernel option" where
  "test_sidt reg s =
     (let a = reg s in
      do { s \<leftarrow> vstore a (dtr_bytes (idtr (cpu (kdesc s)))) s; Some (note_op (Op_sidt a) (s\<lparr>var_mem := a\<rparr>)) })"

definition sidt_init :: "build \<Rightarrow> kernel \<Rightarrow> kernel option" where
  "sidt_init b s =
     do { s \<leftarrow> k_setup_mmu (bprint b) (push_bit 32 1) s;
          map_ioram (bprint b) s }"

definition sidt_kernel :: "build \<Rightarrow> kernel \<Rightarrow> kernel option" where
  "sidt_kernel b = for_i SIDT (test_sidt (reg_sidt b))"

definition sidt_control :: "kernel \<Rightarrow> kernel option" where
  "sidt_control = for_i SIDT Some"

definition sidt :: "build \<Rightarrow> kernel benchmark_t" where
  "sidt b = \<lparr>bname = bytes_of ''sidt'', category = bytes_of ''critical'', init = Some (sidt_init b),
     benchmark = sidt_kernel b, benchmark_control = sidt_control, cleanup = k_switch_to_start_cr3,
     iteration_count = of_nat SIDT\<rparr>"

subsection \<open>smsw\<close>

definition smsw_init :: "kernel \<Rightarrow> kernel option" where
  "smsw_init s = Some (s\<lparr>var_msw_orig := ucast (read_cr0 (cpu (kdesc s)))\<rparr>)"

definition test_smsw :: "kernel \<Rightarrow> kernel" where
  "test_smsw s = note_op Op_smsw (s\<lparr>var_msw := ucast (cr (cpu (kdesc s)) 0)\<rparr>)"

definition smsw_kernel :: "kernel \<Rightarrow> kernel option" where
  "smsw_kernel = for_i SMSW (\<lambda>s. Some ((test_smsw ^^ 10) s))"

definition smsw_control :: "kernel \<Rightarrow> kernel option" where
  "smsw_control = for_i SMSW Some"

definition smsw :: "kernel benchmark_t" where
  "smsw = \<lparr>bname = bytes_of ''smsw'', category = bytes_of ''critical'', init = Some smsw_init,
     benchmark = smsw_kernel, benchmark_control = smsw_control, cleanup = Some,
     iteration_count = of_nat (SMSW * 10)\<rparr>"

subsection \<open>pushf-popf\<close>

text \<open>Each pair leaves the flags and the stack pointer as they were.\<close>

definition test_pushf_popf :: "kernel \<Rightarrow> kernel option" where
  "test_pushf_popf s = Some ((note_op Op_pushf_popf ^^ 10) s)"

definition pushf_popf_kernel :: "kernel \<Rightarrow> kernel option" where
  "pushf_popf_kernel = for_i PUSHF_POPF test_pushf_popf"

definition pushf_popf_control :: "kernel \<Rightarrow> kernel option" where
  "pushf_popf_control = for_i PUSHF_POPF Some"

definition pushf_popf :: "kernel benchmark_t" where
  "pushf_popf = \<lparr>bname = bytes_of ''pushf-popf'', category = bytes_of ''critical'', init = Some Some,
     benchmark = pushf_popf_kernel, benchmark_control = pushf_popf_control, cleanup = Some,
     iteration_count = of_nat (PUSHF_POPF * 10)\<rparr>"

subsection \<open>lgdt\<close>

definition save_gdt :: "(kernel \<Rightarrow> u64) \<Rightarrow> kernel \<Rightarrow> kernel option" where
  "save_gdt reg s =
     (let a = reg s in
      do { s \<leftarrow> vstore a (dtr_bytes (gdtr s)) s; Some (note_op (Op_sgdt a) (s\<lparr>var_mem := a\<rparr>)) })"

definition lgdt_init :: "build \<Rightarrow> kernel \<Rightarrow> kernel option" where
  "lgdt_init b s =
     do { s \<leftarrow> k_setup_mmu (bprint b) (push_bit 32 1) s;
          s \<leftarrow> map_ioram (bprint b) s;
          save_gdt (reg_lgdt b) s }"

definition test_lgdt :: "kernel \<Rightarrow> kernel option" where
  "test_lgdt s =
     do { bs \<leftarrow> vload (var_mem s) 10 s; Some (note_op (Op_lgdt (var_mem s)) (s\<lparr>gdtr := dtr_of bs\<rparr>)) }"

definition lgdt_kernel :: "kernel \<Rightarrow> kernel option" where
  "lgdt_kernel = for_i LGDT test_lgdt"

definition lgdt_control :: "kernel \<Rightarrow> kernel option" where
  "lgdt_control = for_i LGDT Some"

definition lgdt :: "build \<Rightarrow> kernel benchmark_t" where
  "lgdt b = \<lparr>bname = bytes_of ''lgdt'', category = bytes_of ''privileged'', init = Some (lgdt_init b),
     benchmark = lgdt_kernel, benchmark_control = lgdt_control, cleanup = k_switch_to_start_cr3,
     iteration_count = of_nat LGDT\<rparr>"

subsection \<open>set-cr3\<close>

definition set_cr3_init :: "build \<Rightarrow> kernel \<Rightarrow> kernel option" where
  "set_cr3_init b s =
     do { s \<leftarrow> k_setup_mmu (bprint b) (push_bit 32 1) s; Some (s\<lparr>var_cr3 := cr3 (hp s)\<rparr>) }"

definition test_set_cr3 :: "kernel \<Rightarrow> kernel option" where
  "test_set_cr3 s = Some (note_op (Op_set_cr3 (var_cr3 s)) (s\<lparr>hp := (hp s)\<lparr>cr3 := var_cr3 s\<rparr>\<rparr>))"

definition set_cr3_kernel :: "kernel \<Rightarrow> kernel option" where
  "set_cr3_kernel = for_i SET_CR3 test_set_cr3"

definition set_cr3_control :: "kernel \<Rightarrow> kernel option" where
  "set_cr3_control = for_i SET_CR3 Some"

definition set_cr3 :: "build \<Rightarrow> kernel benchmark_t" where
  "set_cr3 b = \<lparr>bname = bytes_of ''set-cr3'', category = bytes_of ''privileged'', init = Some (set_cr3_init b),
     benchmark = set_cr3_kernel, benchmark_control = set_cr3_control, cleanup = k_switch_to_start_cr3,
     iteration_count = of_nat SET_CR3\<rparr>"

subsection \<open>ipi\<close>

definition ipi_init :: "build \<Rightarrow> kernel \<Rightarrow> kernel option" where
  "ipi_init b s = do { s \<leftarrow> k_smp_init b s; k_setup_mmu (bprint b) (push_bit 32 1) s }"

definition ipi_kernel :: "kernel \<Rightarrow> kernel option" where
  "ipi_kernel = for_i IPI (k_on_cpu 1)"

definition ipi_control :: "kernel \<Rightarrow> kernel option" where
  "ipi_control = for_i IPI Some"

definition ipi_bench :: "build \<Rightarrow> kernel benchmark_t" where
  "ipi_bench b = \<lparr>bname = bytes_of ''ipi'', category = bytes_of ''exception'', init = Some (ipi_init b),
     benchmark = ipi_kernel, benchmark_control = ipi_control, cleanup = k_switch_to_start_cr3,
     iteration_count = of_nat IPI\<rparr>"

subsection \<open>cold-access\<close>

definition next_ptr :: "kernel \<Rightarrow> kernel" where
  "next_ptr s = (let s = s\<lparr>var_ptr := var_ptr s + 1\<rparr> in s\<lparr>var_ptr := var_ptr s mod push_bit 30 1\<rparr>)"

definition cold_init :: "build \<Rightarrow> kernel \<Rightarrow> kernel option" where
  "cold_init b s = k_setup_mmu (bprint b) (push_bit 33 1) s"

definition cold_kernel :: "kernel \<Rightarrow> kernel option" where
  "cold_kernel s =
     (let s = s\<lparr>var_ptr := 0x4000\<rparr> in
      for_i COLD_ACCESS (\<lambda>s. do { s \<leftarrow> volatile_read (var_ptr s * 4096) s; Some (next_ptr s) }) s)"

definition cold_control :: "kernel \<Rightarrow> kernel option" where
  "cold_control s =
     (let s = s\<lparr>var_ptr := 0\<rparr>; s = s\<lparr>var_ptr := 0x4000\<rparr> in for_i COLD_ACCESS (\<lambda>s. Some (next_ptr s)) s)"

definition memory_cold :: "build \<Rightarrow> kernel benchmark_t" where
  "memory_cold b = \<lparr>bname = bytes_of ''cold-access'', category = bytes_of ''memory'', init = Some (cold_init b),
     benchmark = cold_kernel, benchmark_control = cold_control, cleanup = k_switch_to_start_cr3,
     iteration_count = of_nat COLD_ACCESS\<rparr>"

subsection \<open>hot-access\<close>

definition next_address :: "kernel \<Rightarrow> kernel" where
  "next_address s =
     (let s = s\<lparr>var_address := var_address s + 0x1000\<rparr> in s\<lparr>var_address := var_address s mod push_bit 30 1\<rparr>)"

definition hot_touch :: "kernel \<Rightarrow> kernel option" where
  "hot_touch s = do { s \<leftarrow> volatile_read (var_address s) s; Some (next_address s) }"

definition hot_init :: "build \<Rightarrow> kernel \<Rightarrow> kernel option" where
  "hot_init b s =
     do { s \<leftarrow> k_setup_mmu (bprint b) (push_bit 32 1) s;
          let s = s\<lparr>var_address := 0x100000\<rparr>;
          for_i HOT_ACCESS hot_touch s }"

definition hot_kernel :: "kernel \<Rightarrow> kernel option" where
  "hot_kernel s = (let s = s\<lparr>var_address := 0x100000\<rparr> in for_i HOT_ACCESS hot_touch s)"

definition hot_control :: "kernel \<Rightarrow> kernel option" where
  "hot_control s = (let s = s\<lparr>var_address := 0\<rparr> in for_i HOT_ACCESS (\<lambda>s. Some (next_address s)) s)"

definition memory_hot :: "build \<Rightarrow> kernel benchmark_t" where
  "memory_hot b = \<lparr>bname = bytes_of ''hot-access'', category = bytes_of ''memory'', init = Some (hot_init b),
     benchmark = hot_kernel, benchmark_control = hot_control, cleanup = k_switch_to_start_cr3,
     iteration_count = of_nat HOT_ACCESS\<rparr>"

subsection \<open>set-pt\<close>

definition pt_kernel :: "build \<Rightarrow> kernel \<Rightarrow> kernel option" where
  "pt_kernel b s = k_setup_mmu (bprint b) (push_bit 32 1) s"

definition memory_pt :: "build \<Rightarrow> kernel benchmark_t" where
  "memory_pt b = \<lparr>bname = bytes_of ''set-pt'', category = bytes_of ''memory'', init = Some Some,
     benchmark = pt_kernel b, benchmark_control = Some, cleanup = k_switch_to_start_cr3, iteration_count = 1\<rparr>"

subsection \<open>in-serial, out-serial and print\<close>

definition k_inb :: "u64 \<Rightarrow> kernel \<Rightarrow> u8 \<times> kernel" where
  "k_inb port s = (case inb port (ser s) of (v, d) \<Rightarrow> (v, note_op (Op_inb port) (s\<lparr>ser := d\<rparr>)))"

definition in_kernel :: "kernel \<Rightarrow> kernel option" where
  "in_kernel = for_i IN_SERIAL_PORT (\<lambda>s. Some (snd (k_inb (0x3f8 + 0x03) s)))"

definition in_control :: "kernel \<Rightarrow> kernel option" where
  "in_control = for_i IN_SERIAL_PORT Some"

definition in_serial :: "kernel benchmark_t" where
  "in_serial = \<lparr>bname = bytes_of ''in-serial'', category = bytes_of ''io'', init = Some Some, benchmark = in_kernel,
     benchmark_control = in_control, cleanup = Some, iteration_count = of_nat IN_SERIAL_PORT\<rparr>"

definition out_init :: "kernel \<Rightarrow> kernel option" where
  "out_init s = (case k_inb (0x3f8 + 0x03) s of (v, s) \<Rightarrow> Some (s\<lparr>var_lcr := v\<rparr>))"

definition k_outb :: "u8 \<Rightarrow> u64 \<Rightarrow> kernel \<Rightarrow> kernel" where
  "k_outb v port s = note_op (Op_outb v port) (s\<lparr>ser := outb v port (ser s)\<rparr>)"

definition out_kernel :: "kernel \<Rightarrow> kernel option" where
  "out_kernel = for_i OUT_SERIAL_PORT (\<lambda>s. Some (k_outb (var_lcr s) (0x3f8 + 0x03) s))"

definition out_control :: "kernel \<Rightarrow> kernel option" where
  "out_control = for_i OUT_SERIAL_PORT Some"

definition out_serial :: "kernel benchmark_t" where
  "out_serial = \<lparr>bname = bytes_of ''out-serial'', category = bytes_of ''io'', init = Some out_init, benchmark = out_kernel,
     benchmark_control = out_control, cleanup = Some, iteration_count = of_nat OUT_SERIAL_PORT\<rparr>"

definition print_buf :: "byte list" where
  "print_buf = bytes_of ''aaaaaaaaaaaaaaaaaaaaaaaaaa'' @ [0]"

definition print_init :: "kernel \<Rightarrow> kernel option" where
  "print_init s = do { l \<leftarrow> strlen print_buf; Some (s\<lparr>var_len := l\<rparr>) }"

definition k_outbs :: "byte list \<Rightarrow> u64 \<Rightarrow> u64 \<Rightarrow> kernel \<Rightarrow> kernel option" where
  "k_outbs bs len port s =
     do { d \<leftarrow> outbs bs (unat len) port (ser s); Some (note_op (Op_outbs len port) (s\<lparr>ser := d\<rparr>)) }"

definition print_kernel :: "kernel \<Rightarrow> kernel option" where
  "print_kernel = for_i PRINTF (\<lambda>s. k_outbs print_buf (var_len s) 0x3f8 s)"

definition print_control :: "kernel \<Rightarrow> kernel option" where
  "print_control = for_i PRINTF Some"

definition print_bench :: "kernel benchmark_t" where
  "print_bench = \<lparr>bname = bytes_of ''print'', category = bytes_of ''io'', init = Some print_init, benchmark = print_kernel,
     benchmark_control = print_control, cleanup = Some, iteration_count = of_nat PRINTF\<rparr>"

subsection \<open>hypercall\<close>

text \<open>Not linked in. The hypervisor answers a call it does not know with a value nothing looks at.\<close>

definition kvm_hypercall0_intel :: "u32 \<Rightarrow> kernel \<Rightarrow> kernel" where
  "kvm_hypercall0_intel nr s = note_op (Op_vmcall nr) s"

definition hypercall_kernel :: "kernel \<Rightarrow> kernel option" where
  "hypercall_kernel = for_i HYPERCALL (\<lambda>s. Some (kvm_hypercall0_intel (- 1) s))"

definition hypercall_control :: "kernel \<Rightarrow> kernel option" where
  "hypercall_control = for_i HYPERCALL Some"

definition hypercall :: "kernel benchmark_t" where
  "hypercall = \<lparr>bname = bytes_of ''hypercall'', category = bytes_of ''exception'', init = Some Some,
     benchmark = hypercall_kernel, benchmark_control = hypercall_control, cleanup = Some,
     iteration_count = of_nat HYPERCALL\<rparr>"

section \<open>The table\<close>

text \<open>The entries of the section \<open>.benchmarks\<close>, in the order of the objects in \<open>benchmark/Makefile\<close>.\<close>

definition linked_benchmarks :: "build \<Rightarrow> kernel benchmark_t list" where
  "linked_benchmarks b =
     [idle, sgdt b, sidt b, smsw, pushf_popf, lgdt b, set_cr3 b, ipi_bench b, memory_cold b, memory_hot b, memory_pt b,
      in_serial, out_serial, print_bench]"

section \<open>Loops as a number of turns\<close>

primrec turns :: "nat \<Rightarrow> (kernel \<Rightarrow> kernel option) \<Rightarrow> kernel \<Rightarrow> kernel option" where
  "turns 0 body s = Some s"
| "turns (Suc n) body s = do { s \<leftarrow> body s; turns n body (s\<lparr>var_i := var_i s + 1\<rparr>) }"

definition keeps_i :: "(kernel \<Rightarrow> kernel option) \<Rightarrow> bool" where
  "keeps_i body \<longleftrightarrow> (\<forall>s s'. body s = Some s' \<longrightarrow> var_i s' = var_i s)"

lemma sint_of_nat_u32: "k < 2147483648 \<Longrightarrow> sint (of_nat k :: u32) = int k"
  by (simp add: signed_of_nat signed_take_bit_int_eq_self)

lemma for_from_turns:
  assumes "keeps_i body" "k \<le> n" "n < 2147483648" "var_i s = of_nat k"
  shows "for_from n body s = turns (n - k) body s"
  using assms(2,4)
proof (induction "n - k" arbitrary: k s)
  case 0
  then have "sint (var_i s) = int n"
    using assms(3) sint_of_nat_u32 [of k] by simp
  then show ?case
    using 0 by (subst for_from.simps) simp
next
  case (Suc m)
  then have k: "k < n" "sint (var_i s) < int n" "n - k = Suc (n - Suc k)"
    using assms(3) sint_of_nat_u32 [of k] by simp_all
  have step: "for_from n body (s'\<lparr>var_i := var_i s' + 1\<rparr>) = turns (n - Suc k) body (s'\<lparr>var_i := var_i s' + 1\<rparr>)"
    if "body s = Some s'" for s'
    using that Suc.hyps(1) [of "Suc k" "s'\<lparr>var_i := var_i s' + 1\<rparr>"] Suc.hyps(2) Suc.prems(2) k(1) assms(1)
    by (simp add: keeps_i_def add.commute)
  show ?case
    unfolding k(3) using k(2) step by (subst for_from.simps) (cases "body s"; simp)
qed

lemma for_i_turns: "keeps_i body \<Longrightarrow> n < 2147483648 \<Longrightarrow> for_i n body s = turns n body (s\<lparr>var_i := 0\<rparr>)"
  by (simp add: for_i_def for_from_turns [of body 0])

section \<open>What is counted\<close>

text \<open>A function that does \<open>k\<close> of the operations that are measured.\<close>

definition does :: "(kernel \<Rightarrow> kernel option) \<Rightarrow> nat \<Rightarrow> bool" where
  "does f k \<longleftrightarrow> (\<forall>s s'. f s = Some s' \<longrightarrow> (\<exists>es. measured s' = measured s @ es \<and> length es = k))"

lemma does_turns: "does body k \<Longrightarrow> does (turns n body) (n * k)"
proof (induction n)
  case (Suc n)
  show ?case
    unfolding does_def
  proof (intro allI impI)
    fix s s'
    assume "turns (Suc n) body s = Some s'"
    then obtain t where t: "body s = Some t" "turns n body (t\<lparr>var_i := var_i t + 1\<rparr>) = Some s'"
      by (auto simp: bind_eq_Some_conv)
    obtain es fs where "measured t = measured s @ es" "length es = k"
        "measured s' = measured (t\<lparr>var_i := var_i t + 1\<rparr>) @ fs" "length fs = n * k"
      using t Suc unfolding does_def by blast
    then show "\<exists>es. measured s' = measured s @ es \<and> length es = Suc n * k"
      by (intro exI [of _ "es @ fs"]) simp
  qed
qed (simp add: does_def)

lemma does_for:
  assumes "does body k" "keeps_i body" "n < 2147483648"
  shows "does (for_i n body) (n * k)"
  using does_turns [OF assms(1), of n] unfolding does_def for_i_turns [OF assms(2,3)] by fastforce

lemma does_after:
  assumes "does f k" "\<And>s. measured (g s) = measured s"
  shows "does (\<lambda>s. f (g s)) k"
  using assms unfolding does_def by metis

text \<open>A \<open>printf\<close> that only prints: the two devices are all it changes.\<close>

definition only_prints :: "kernel print \<Rightarrow> bool" where
  "only_prints pr \<longleftrightarrow> (\<forall>fmt va s s'. pr fmt va s = Some s' \<longrightarrow> s' = s\<lparr>ser := ser s', con := con s'\<rparr>)"

lemma say_all_only:
  assumes "only_prints pr" "say_all pr ms s = Some s'"
  shows "s' = s\<lparr>ser := ser s', con := con s'\<rparr>"
  using assms(2)
proof (induction ms arbitrary: s)
  case (Cons m ms)
  obtain t where t: "pr (fst m) (snd m) s = Some t" "say_all pr ms t = Some s'"
    using Cons.prems by (cases m) (auto simp: bind_eq_Some_conv)
  have "t = s\<lparr>ser := ser t, con := con t\<rparr>" "s' = t\<lparr>ser := ser s', con := con s'\<rparr>"
    using assms(1) t(1) Cons.IH [OF t(2)] by (auto simp: only_prints_def)
  then show ?case
    by (cases s; cases t; cases s') simp
qed simp

lemma on_heap_only:
  assumes "only_prints pr" "on_heap pr f s = Some s'"
  shows "measured s' = measured s" "var_i s' = var_i s"
proof -
  obtain h ms where "say_all pr ms (s\<lparr>hp := h\<rparr>) = Some s'"
    using assms(2) by (auto simp: on_heap_def bind_eq_Some_conv)
  from say_all_only [OF assms(1) this] show "measured s' = measured s" "var_i s' = var_i s"
    by (cases s; cases s'; simp)+
qed

lemma does_Some [simp]: "(\<And>s. measured (g s) = measured s) \<Longrightarrow> does (\<lambda>s. Some (g s)) 0"
  by (simp add: does_def)

lemma does_note: "(\<And>s. \<exists>es. measured (g s) = measured s @ es \<and> length es = k) \<Longrightarrow> does (\<lambda>s. Some (g s)) k"
  by (simp add: does_def)

lemma measured_note_op [simp]: "measured (note_op x s) = measured s @ [x]" "var_i (note_op x s) = var_i s"
  by (simp_all add: note_op_def)

lemma note_ops:
  fixes f :: "kernel \<Rightarrow> kernel"
  shows "(\<And>s. measured (f s) = measured s @ [x]) \<Longrightarrow> measured ((f ^^ n) s) = measured s @ replicate n x"
  by (induction n arbitrary: s) (simp_all add: replicate_append_same)

lemma keeps_i_Some [simp]: "(\<And>s. var_i (g s) = var_i s) \<Longrightarrow> keeps_i (\<lambda>s. Some (g s))"
  by (simp add: keeps_i_def)

lemma vstore_only:
  "vstore a bs s = Some s' \<Longrightarrow> measured s' = measured s \<and> var_i s' = var_i s"
  by (auto simp: vstore_def bind_eq_Some_conv)

text \<open>The bodies of the loops.\<close>

lemma body_counts:
  "does (test_sgdt r) 1" "does (test_sidt r) 1" "does (\<lambda>s. Some ((test_smsw ^^ 10) s)) 10" "does test_pushf_popf 10"
  "does test_lgdt 1" "does test_set_cr3 1" "does (k_on_cpu t) 1"
  "does (\<lambda>s. do { s \<leftarrow> volatile_read (var_ptr s * 4096) s; Some (next_ptr s) }) 1" "does hot_touch 1"
  "does (\<lambda>s. Some (snd (k_inb p s))) 1" "does (\<lambda>s. Some (k_outb (var_lcr s) p s)) 1"
  "does (\<lambda>s. k_outbs bs (var_len s) p s) 1"
proof -
  show "does (\<lambda>s. Some ((test_smsw ^^ 10) s)) 10" "does test_pushf_popf 10"
    using note_ops [of test_smsw Op_smsw 10] note_ops [of "note_op Op_pushf_popf" Op_pushf_popf 10]
    by (auto simp: does_def test_smsw_def test_pushf_popf_def)
qed (auto simp: does_def test_sgdt_def test_sidt_def test_lgdt_def test_set_cr3_def k_on_cpu_def volatile_read_def hot_touch_def
    next_ptr_def next_address_def k_inb_def k_outb_def k_outbs_def inb_def Let_def bind_eq_Some_conv dest!: vstore_only)

lemma var_i_funpow:
  fixes f :: "kernel \<Rightarrow> kernel"
  shows "(\<And>s. var_i (f s) = var_i s) \<Longrightarrow> var_i ((f ^^ n) s) = var_i s"
  by (induction n) simp_all

lemma body_keeps_i:
  "keeps_i (test_sgdt r)" "keeps_i (test_sidt r)" "keeps_i (\<lambda>s. Some ((test_smsw ^^ 10) s))" "keeps_i test_pushf_popf"
  "keeps_i test_lgdt" "keeps_i test_set_cr3" "keeps_i (k_on_cpu t)"
  "keeps_i (\<lambda>s. do { s \<leftarrow> volatile_read (var_ptr s * 4096) s; Some (next_ptr s) })" "keeps_i hot_touch"
  "keeps_i (\<lambda>s. Some (snd (k_inb p s)))" "keeps_i (\<lambda>s. Some (k_outb (var_lcr s) p s))"
  "keeps_i (\<lambda>s. k_outbs bs (var_len s) p s)" "keeps_i (\<lambda>s. Some (next_ptr s))" "keeps_i (\<lambda>s. Some (next_address s))"
  "keeps_i Some"
proof -
  show "keeps_i (\<lambda>s. Some ((test_smsw ^^ 10) s))" "keeps_i test_pushf_popf"
    by (auto simp: keeps_i_def test_smsw_def test_pushf_popf_def var_i_funpow)
qed (auto simp: keeps_i_def test_sgdt_def test_sidt_def test_lgdt_def test_set_cr3_def k_on_cpu_def volatile_read_def hot_touch_def
    next_ptr_def next_address_def k_inb_def k_outb_def k_outbs_def inb_def Let_def bind_eq_Some_conv dest!: vstore_only)

lemmas counts = IDLE_def LGDT_def SET_CR3_def SGDT_def SIDT_def SMSW_def PUSHF_POPF_def IPI_def HYPERCALL_def COLD_ACCESS_def
  HOT_ACCESS_def IN_SERIAL_PORT_def OUT_SERIAL_PORT_def PRINTF_def

lemma does_setup_mmu: "only_prints pr \<Longrightarrow> does (k_setup_mmu pr e) 1"
  using on_heap_only(1) [of pr _ "note_op (Op_setup_mmu e) _"] by (auto simp: does_def k_setup_mmu_def)

lemma kernel_counts:
  "does (sgdt_kernel b) 100000" "does (sidt_kernel b) 100000" "does smsw_kernel 1000000" "does pushf_popf_kernel 1000000"
  "does lgdt_kernel 100000" "does set_cr3_kernel 100000" "does ipi_kernel 100" "does cold_kernel 100000" "does hot_kernel 100000"
  "does in_kernel 1000" "does out_kernel 1000" "does print_kernel 1000"
proof -
  show "does (sgdt_kernel b) 100000" "does (sidt_kernel b) 100000" "does smsw_kernel 1000000" "does pushf_popf_kernel 1000000"
    using does_for [OF body_counts(1) body_keeps_i(1), of SGDT] does_for [OF body_counts(2) body_keeps_i(2), of SIDT]
      does_for [OF body_counts(3) body_keeps_i(3), of SMSW] does_for [OF body_counts(4) body_keeps_i(4), of PUSHF_POPF]
    by (simp_all add: sgdt_kernel_def sidt_kernel_def smsw_kernel_def pushf_popf_kernel_def counts)
  show "does lgdt_kernel 100000" "does set_cr3_kernel 100000" "does ipi_kernel 100"
    using does_for [OF body_counts(5) body_keeps_i(5), of LGDT] does_for [OF body_counts(6) body_keeps_i(6), of SET_CR3]
      does_for [OF body_counts(7) [of 1] body_keeps_i(7), of IPI]
    by (simp_all add: lgdt_kernel_def set_cr3_kernel_def ipi_kernel_def counts)
  show "does cold_kernel 100000" "does hot_kernel 100000"
    using does_after [where g = "\<lambda>s. s\<lparr>var_ptr := 0x4000\<rparr>", OF does_for [OF body_counts(8) body_keeps_i(8), of COLD_ACCESS]]
      does_after [where g = "\<lambda>s. s\<lparr>var_address := 0x100000\<rparr>", OF does_for [OF body_counts(9) body_keeps_i(9), of HOT_ACCESS]]
    by (simp_all add: cold_kernel_def [abs_def] hot_kernel_def [abs_def] counts)
  show "does in_kernel 1000" "does out_kernel 1000" "does print_kernel 1000"
    using does_for [OF body_counts(10) [of "0x3f8 + 0x03"] body_keeps_i(10), of IN_SERIAL_PORT]
      does_for [OF body_counts(11) [of "0x3f8 + 0x03"] body_keeps_i(11), of OUT_SERIAL_PORT]
      does_for [OF body_counts(12) [of print_buf "0x3f8"] body_keeps_i(12), of PRINTF]
    by (simp_all add: in_kernel_def out_kernel_def print_kernel_def counts)
qed

lemma control_counts:
  "n < 2147483648 \<Longrightarrow> does (for_i n Some) 0" "does cold_control 0" "does hot_control 0"
proof -
  show "does (for_i n Some) 0" if "n < 2147483648"
    using does_for [of Some 0 n] body_keeps_i(15) that by (simp add: does_def)
  show "does cold_control 0"
    using does_after [where g = "\<lambda>s. s\<lparr>var_ptr := 0x4000\<rparr>", OF does_for [OF _ body_keeps_i(13), of 0 COLD_ACCESS]]
    by (simp add: cold_control_def [abs_def] counts next_ptr_def Let_def)
  show "does hot_control 0"
    using does_after [where g = "\<lambda>s. s\<lparr>var_address := 0\<rparr>", OF does_for [OF _ body_keeps_i(14), of 0 HOT_ACCESS]]
    by (simp add: hot_control_def [abs_def] counts next_address_def Let_def)
qed

text \<open>
  C15. The number of iterations the harness reports is the number of operations that are timed: the
  benchmark function of every entry of the table but the idle one does exactly \<open>iteration_count\<close> of the
  operations it is about, ten in each turn of the loops of \<open>smsw\<close> and \<open>pushf-popf\<close>, and its control
  function does none.
\<close>

theorem iteration_counts:
  assumes "only_prints (bprint b)"
  shows "\<forall>x \<in> set (tl (linked_benchmarks b)).
    does (benchmark x) (unat (iteration_count x)) \<and> does (benchmark_control x) 0"
  using kernel_counts control_counts(2,3) control_counts(1) does_setup_mmu [OF assms]
  by (simp add: linked_benchmarks_def sgdt_def sidt_def smsw_def pushf_popf_def lgdt_def set_cr3_def ipi_bench_def
      memory_cold_def memory_hot_def memory_pt_def in_serial_def out_serial_def print_bench_def
      sgdt_control_def sidt_control_def smsw_control_def pushf_popf_control_def lgdt_control_def set_cr3_control_def
      ipi_control_def in_control_def out_control_def print_control_def pt_kernel_def [abs_def] counts)

theorem iteration_counts_witness:
  "does (benchmark (smsw :: kernel benchmark_t)) 1000000 \<and>
   does (benchmark (memory_pt \<lparr>bprint = \<lambda>_ _. Some, stubs = of_nat, idt_at = 0x7000, ipi_entry_at = 0x6000,
     reg_sgdt = var_mem, reg_sidt = var_mem, reg_lgdt = var_mem\<rparr>)) 1"
proof -
  let ?b = "\<lparr>bprint = \<lambda>_ _. Some, stubs = of_nat, idt_at = 0x7000, ipi_entry_at = 0x6000,
     reg_sgdt = var_mem, reg_sidt = var_mem, reg_lgdt = var_mem\<rparr>"
  have "only_prints (bprint ?b)"
    by (simp add: only_prints_def)
  moreover have "unat (iteration_count smsw) = 1000000" "unat (iteration_count (memory_pt ?b)) = 1"
    by (simp_all add: smsw_def memory_pt_def counts)
  ultimately show ?thesis
    using iteration_counts [of ?b] by (simp add: linked_benchmarks_def)
qed

end
