(* ===== verification/Kernelstate.thy ===== *)
theory Kernelstate
  imports Benchmarks
begin

text \<open>
  The state of the kernel between and inside the benchmarks: the free pages, the address space that is
  loaded, what the benchmarks may write, and the effect of the functions they call on it. A small
  calculus of functions that return, with what they send over the serial line, leads through loops.
\<close>

section \<open>The state between and inside benchmarks\<close>

text \<open>
  What the benchmarks may write besides free pages: memory below 1 MiB, where \<open>sgdt\<close> may store, and
  the page at \<open>IORAM_BASE_PHYS\<close>.
\<close>

definition scratch_addr :: "addr \<Rightarrow> bool" where
  "scratch_addr x \<longleftrightarrow> unat x < 0x100000 \<or> 0xff000000 \<le> unat x \<and> unat x < 0xff001000"

definition pool_ok :: "addr list \<Rightarrow> bool" where
  "pool_ok ps \<longleftrightarrow> (\<forall>p \<in> set ps. 0x100000 \<le> unat p \<and> unat p + 4096 \<le> 0xff000000)"

text \<open>Another processor, number 1, is up, is not the boot processor, and takes interrupts.\<close>

definition cpus_ok :: "kernel \<Rightarrow> bool" where
  "cpus_ok s \<longleftrightarrow> smp_quiet (ksmp s) \<and> 1 < ncpu (kmp s) \<and> me s \<noteq> 1 \<and> interrupts_on (at_cpu (ksmp s) 1) \<and>
     apic_ops (cpu (kdesc s)) = X2apic_ops"

definition idt_ok :: "desc \<Rightarrow> bool" where
  "idt_ok d \<longleftrightarrow> length (boot_idt d) = 256 \<and> length (exception_handlers d) = 256"

text \<open>The address space that is loaded translates by \<open>f\<close>, with tables among the pages taken.\<close>

definition space :: "addr list \<Rightarrow> addr list \<Rightarrow> (addr \<Rightarrow> addr option) \<Rightarrow> heap \<Rightarrow> bool" where
  "space ps0 ps f h \<longleftrightarrow> wf_tables (ram h) 4 (cr3 h) \<and> set (tables (ram h) 4 (cr3 h)) \<subseteq> set ps0 - set ps \<and>
     (\<forall>v. walk (ram h) 4 (cr3 h) v = f v)"

text \<open>
  \<open>s\<close> was reached from \<open>s0\<close>, whose free pages are \<open>ps0\<close>; \<open>ps\<close> are those still free and \<open>k\<close> the number of
  calls of \<open>alloc_vpages\<close>. Between benchmarks \<open>w\<close> is \<open>None\<close> and the page tables of \<open>s0\<close> are loaded.
\<close>

definition kstate :: "kernel \<Rightarrow> addr list \<Rightarrow> (addr \<Rightarrow> addr option) option \<Rightarrow> addr list \<Rightarrow> nat \<Rightarrow> kernel \<Rightarrow> bool" where
  "kstate s0 ps0 w ps k s \<longleftrightarrow>
     free_pages (hp s) ps \<and> set ps \<subseteq> set ps0 \<and> lock_v (vlock (hp s)) = 0 \<and> vfree_top (hp s) = - (0x2000 * of_nat k) \<and>
     (\<forall>x. \<not> scratch_addr x \<longrightarrow> (\<forall>p \<in> set ps0. \<not> in_range x p 4096) \<longrightarrow> ram (hp s) x = ram (hp s0) x) \<and>
     printed (hp s) = printed (hp s0) \<and> gdtr s = gdtr s0 \<and> cpus_ok s \<and> idt_ok (kdesc s) \<and>
     (case w of None \<Rightarrow> cr3 (hp s) = cr3 (hp s0)
      | Some f \<Rightarrow> start_cr3 (hp s) = cr3 (hp s0) \<and> space ps0 ps f (hp s))"

lemma kstate_upd [simp]:
  "kstate s0 ps0 w ps k (s\<lparr>ser := x1\<rparr>) = kstate s0 ps0 w ps k s"
  "kstate s0 ps0 w ps k (s\<lparr>con := x2\<rparr>) = kstate s0 ps0 w ps k s"
  "kstate s0 ps0 w ps k (s\<lparr>measured := x3\<rparr>) = kstate s0 ps0 w ps k s"
  "kstate s0 ps0 w ps k (s\<lparr>var_i := x4\<rparr>) = kstate s0 ps0 w ps k s"
  "kstate s0 ps0 w ps k (s\<lparr>var_mem := x5\<rparr>) = kstate s0 ps0 w ps k s"
  "kstate s0 ps0 w ps k (s\<lparr>var_msw := x6\<rparr>) = kstate s0 ps0 w ps k s"
  "kstate s0 ps0 w ps k (s\<lparr>var_msw_orig := x6\<rparr>) = kstate s0 ps0 w ps k s"
  "kstate s0 ps0 w ps k (s\<lparr>var_cr3 := x5\<rparr>) = kstate s0 ps0 w ps k s"
  "kstate s0 ps0 w ps k (s\<lparr>var_ptr := x5\<rparr>) = kstate s0 ps0 w ps k s"
  "kstate s0 ps0 w ps k (s\<lparr>var_address := x5\<rparr>) = kstate s0 ps0 w ps k s"
  "kstate s0 ps0 w ps k (s\<lparr>var_lcr := x7\<rparr>) = kstate s0 ps0 w ps k s"
  "kstate s0 ps0 w ps k (s\<lparr>var_len := x5\<rparr>) = kstate s0 ps0 w ps k s"
  by (simp_all add: kstate_def cpus_ok_def cong: option.case_cong)

section \<open>Address spaces\<close>

text \<open>The identity on the first \<open>n\<close> pages, and the same with two pages at the top that show \<open>IORAM_BASE_PHYS\<close>.\<close>

definition ident :: "nat \<Rightarrow> addr \<Rightarrow> addr option" where
  "ident n v = (if vpn v < n then Some (take_bit 48 v) else None)"

definition vmem :: "nat \<Rightarrow> addr" where
  "vmem k = - (0x2000 * of_nat k)"

definition with_ioram :: "nat \<Rightarrow> addr \<Rightarrow> addr option" where
  "with_ioram k v =
     (if vpn v = vpn (vmem k) \<or> vpn v = vpn (vmem k + 4096) then Some (IORAM_BASE_PHYS OR (v AND mask 12)) else ident 1048576 v)"

definition fresh_space :: "nat \<Rightarrow> heap \<Rightarrow> bool" where
  "fresh_space n h \<longleftrightarrow> (\<forall>v. missing (ram h) 4 1 (cr3 h) v = need n (vpn v)) \<and> (\<forall>v. path_ok (ram h) 4 1 (cr3 h) v)"

lemma pool_masked:
  assumes "pool_ok ps" "free_pages h qs" "p \<in> set qs" "set qs \<subseteq> set ps"
  shows "p AND PT_ADDR_MASK = p"
proof (rule masked_id)
  have "unat p + 4096 \<le> 0xff000000"
    using assms unfolding pool_ok_def by blast
  then show "unat p < 4503599627370496"
    by simp
qed (use assms in \<open>simp add: free_pages_def\<close>)

lemma on_heap_silent:
  "f (hp s) = Some h \<Longrightarrow> printed h = printed (hp s) \<Longrightarrow> on_heap pr f s = Some (s\<lparr>hp := h\<rparr>)"
  by (simp add: on_heap_def)

lemma k_setup_mmu_state:
  assumes st: "kstate s0 ps0 None (r # qs) k s" and pool: "pool_ok ps0"
    and n: "n = unat eom div 4096" "eom \<noteq> 0" "unat eom \<le> 281474976710656" and room: "tables_for n \<le> length qs"
  shows "\<exists>h. k_setup_mmu pr eom s = Some (note_op (Op_setup_mmu eom) (s\<lparr>hp := h\<rparr>)) \<and>
    kstate s0 ps0 (Some (ident n)) (drop (tables_for n) qs) k (s\<lparr>hp := h\<rparr>) \<and> fresh_space n h"
proof -
  note st' = st [unfolded kstate_def]
  have "\<forall>p \<in> set (take (tables_for n) qs). p AND PT_ADDR_MASK = p"
    using st' pool_masked [OF pool] by (metis in_set_takeD list.set_intros(2))
  from setup_mmu_mapped [of "hp s" r qs _ eom, OF _ refl] this n room st'
  obtain h where h: "setup_mmu eom (hp s) = Some (h\<lparr>start_cr3 := cr3 (hp s), cr3 := r\<rparr>, r)" "mapped_below (hp s) r qs n h"
    by auto
  let ?h = "h\<lparr>start_cr3 := cr3 (hp s), cr3 := r\<rparr>"
  note m = h(2) [unfolded mapped_below_def]
  have only: "only_pages (hp s) h"
    using m by blast
  have "k_setup_mmu pr eom s = Some (note_op (Op_setup_mmu eom) (s\<lparr>hp := ?h\<rparr>))"
    unfolding k_setup_mmu_def
    by (subst on_heap_silent [where h = ?h]) (use h(1) only_pages_same(5) [OF only] in \<open>simp_all add: note_op_def\<close>)
  moreover have "r \<notin> set qs" "distinct qs"
    using st' by (auto simp: free_pages_def)
  then have "set (tables (ram h) 4 r) \<inter> set (drop (tables_for n) qs) = {}"
    using m set_take_disj_set_drop_if_distinct [of qs "tables_for n" "tables_for n"] by (auto dest: in_set_dropD)
  then have "space ps0 (drop (tables_for n) qs) (ident n) ?h"
    using m st' by (auto simp: space_def ident_def dest: in_set_takeD)
  moreover have "ram h x = ram (hp s0) x" if "\<not> scratch_addr x" "\<forall>p \<in> set ps0. \<not> in_range x p 4096" for x
  proof -
    have "\<forall>t \<in> insert r (set (take (tables_for n) qs)). \<not> in_range x t 4096"
      using that(2) st' by (auto dest: in_set_takeD)
    then show ?thesis
      using m st' that by metis
  qed
  ultimately show ?thesis
    using m st' only_pages_same [OF only]
    by (intro exI [of _ ?h]) (auto simp: kstate_def fresh_space_def cpus_ok_def free_pages_def dest: in_set_dropD)
qed

lemma k_cleanup_state:
  assumes "kstate s0 ps0 (Some f) ps k s"
  shows "\<exists>h. k_switch_to_start_cr3 s = Some (s\<lparr>hp := h\<rparr>) \<and> kstate s0 ps0 None ps k (s\<lparr>hp := h\<rparr>)"
  using assms by (auto simp: k_switch_to_start_cr3_def switch_to_start_cr3_def kstate_def cpus_ok_def free_pages_def)

lemma k_install_state:
  assumes st: "kstate s0 ps0 (Some f) ps k s" and pool: "pool_ok ps0"
    and path: "\<forall>v. path_ok (ram (hp s)) 4 1 (cr3 (hp s)) v" and phys: "phys AND PT_ADDR_MASK = phys"
    and j: "missing (ram (hp s)) 4 1 (cr3 (hp s)) a = j" "j \<le> length ps"
  shows "\<exists>h. k_install_page pr phys a s = Some (s\<lparr>hp := h\<rparr>) \<and>
    kstate s0 ps0 (Some (\<lambda>v. if vpn v = vpn a then Some (phys OR (v AND mask 12)) else f v)) (drop j ps) k (s\<lparr>hp := h\<rparr>) \<and>
    (\<forall>v. missing (ram h) 4 1 (cr3 h) v = min (missing (ram (hp s)) 4 1 (cr3 (hp s)) v) (parts (vpn v) (vpn a) - 1)) \<and>
    (\<forall>v. path_ok (ram h) 4 1 (cr3 h) v)"
proof -
  let ?h = "hp s" and ?r = "cr3 (hp s)"
  note st' = st [unfolded kstate_def space_def, simplified]
  have disj: "set (tables (ram ?h) 4 ?r) \<inter> set ps = {}" and free: "free_pages ?h ps"
    using st' by auto
  have mask: "\<forall>p \<in> set (take j ps). p AND PT_ADDR_MASK = p"
    using st' pool_masked [OF pool free] by (metis in_set_takeD)
  obtain h b where h: "install_page ?r phys a ?h = (h, b)" "free_pages h (drop j ps)" "only_pages ?h h"
      "installed (ram ?h) (ram h) 4 1 ?r a (phys OR 7) (set (take j ps))"
    using install_page_eq [OF free _ disj _ j(1) [symmetric] j(2) mask, of phys] st' path by auto
  note inst = h(4) [unfolded installed_def diverge_parts parts_0]
  note same = only_pages_same [OF h(3)]
  have "k_install_page pr phys a s = Some (s\<lparr>hp := h\<rparr>)"
    unfolding k_install_page_def by (rule on_heap_silent) (use h(1) same in simp_all)
  moreover have "set (take j ps) \<inter> set (drop j ps) = {}"
    using free by (simp add: free_pages_def set_take_disj_set_drop_if_distinct)
  then have "space ps0 (drop j ps) (\<lambda>v. if vpn v = vpn a then Some (phys OR (v AND mask 12)) else f v) h"
    using inst st' by (auto simp: space_def same page_leaf [OF phys] dest: in_set_takeD in_set_dropD)
  moreover have "ram h x = ram (hp s0) x" if "\<not> scratch_addr x" "\<forall>p \<in> set ps0. \<not> in_range x p 4096" for x
  proof -
    have "\<forall>t \<in> set (tables (ram ?h) 4 ?r) \<union> set (take j ps). \<not> in_range x t 4096"
      using that(2) st' by (auto dest: in_set_takeD)
    then show ?thesis
      using inst st' that by metis
  qed
  ultimately show ?thesis
    using inst st' h(2) path
    by (intro exI [of _ h]) (auto simp: kstate_def cpus_ok_def same dest: in_set_dropD)
qed

lemma vpn_vmem:
  assumes "k \<in> {1, 2, 3}"
  shows "vpn (vmem k) = 68719476736 - 2 * k" "vpn (vmem k + 4096) = 68719476736 - 2 * k + 1"
  using assms by (auto simp: vpn_eq vmem_def)

lemma IORAM_masked: "IORAM_BASE_PHYS AND PT_ADDR_MASK = IORAM_BASE_PHYS"
  by (rule masked_id) (simp_all add: IORAM_BASE_PHYS_def page_aligned_def)

lemma k_ioram_state:
  assumes st: "kstate s0 ps0 (Some (ident 1048576)) (p1 # p2 # p3 # qs) k s" and pool: "pool_ok ps0"
    and fresh: "fresh_space 1048576 (hp s)" and k: "k < 3"
  shows "\<exists>h. map_ioram pr s = Some (s\<lparr>var_mem := vmem (Suc k), hp := h\<rparr>) \<and>
    kstate s0 ps0 (Some (with_ioram (Suc k))) qs (Suc k) (s\<lparr>var_mem := vmem (Suc k), hp := h\<rparr>)"
proof -
  let ?a = "vmem (Suc k)" and ?h = "hp s"
  have K: "Suc k \<in> {1, 2, 3}"
    using k by auto
  let ?s1 = "s\<lparr>hp := ?h\<lparr>vlock := spin_unlock ((vlock ?h)\<lparr>lock_v := 1\<rparr>), vfree_top := ?a\<rparr>, var_mem := ?a\<rparr>"
  have a: "k_alloc_vpages 2 s = Some (?a, s\<lparr>hp := hp ?s1\<rparr>)"
    using st by (simp add: k_alloc_vpages_def alloc_vpages_def kstate_def vmem_def Let_def algebra_simps)
  have st1: "kstate s0 ps0 (Some (ident 1048576)) (p1 # p2 # p3 # qs) (Suc k) ?s1"
    using st by (simp add: kstate_def cpus_ok_def space_def free_pages_def vmem_def)
  have m1: "missing (ram (hp ?s1)) 4 1 (cr3 (hp ?s1)) ?a = 3"
    using fresh vpn_vmem(1) [OF K] k by (simp add: fresh_space_def need_def)
  have p1: "\<forall>v. path_ok (ram (hp ?s1)) 4 1 (cr3 (hp ?s1)) v"
    using fresh by (simp add: fresh_space_def)
  obtain h where h: "k_install_page pr IORAM_BASE_PHYS ?a ?s1 = Some (?s1\<lparr>hp := h\<rparr>)"
      "kstate s0 ps0 (Some (\<lambda>v. if vpn v = vpn ?a then Some (IORAM_BASE_PHYS OR (v AND mask 12)) else ident 1048576 v)) qs (Suc k)
        (?s1\<lparr>hp := h\<rparr>)"
      "\<forall>v. missing (ram h) 4 1 (cr3 h) v = min (missing (ram (hp ?s1)) 4 1 (cr3 (hp ?s1)) v) (parts (vpn v) (vpn ?a) - 1)"
      "\<forall>v. path_ok (ram h) 4 1 (cr3 h) v"
    using k_install_state [OF st1 pool p1 IORAM_masked m1, of pr] unfolding m1 by simp blast
  have "parts (vpn (?a + 4096)) (vpn ?a) = 1"
  proof -
    have "k = 0 \<or> k = 1 \<or> k = 2"
      using k by auto
    then show ?thesis
      unfolding vpn_vmem [OF K] parts_def by (elim disjE) simp_all
  qed
  then have m2: "missing (ram (hp (?s1\<lparr>hp := h\<rparr>))) 4 1 (cr3 (hp (?s1\<lparr>hp := h\<rparr>))) (?a + 4096) = 0"
    using h(3) by simp
  obtain h' where h': "k_install_page pr IORAM_BASE_PHYS (?a + 4096) (?s1\<lparr>hp := h\<rparr>) = Some (?s1\<lparr>hp := h'\<rparr>)"
      "kstate s0 ps0 (Some (\<lambda>v. if vpn v = vpn (?a + 4096) then Some (IORAM_BASE_PHYS OR (v AND mask 12))
        else if vpn v = vpn ?a then Some (IORAM_BASE_PHYS OR (v AND mask 12)) else ident 1048576 v)) qs (Suc k)
        (?s1\<lparr>hp := h'\<rparr>)"
    using k_install_state [OF h(2) pool _ IORAM_masked m2, of pr] h(4) by simp blast
  have "(\<lambda>v. if vpn v = vpn (?a + 4096) then Some (IORAM_BASE_PHYS OR (v AND mask 12))
      else if vpn v = vpn ?a then Some (IORAM_BASE_PHYS OR (v AND mask 12)) else ident 1048576 v) = with_ioram (Suc k)"
    by (auto simp: fun_eq_iff with_ioram_def)
  then show ?thesis
    using a h(1) h' by (intro exI [of _ h']) (simp add: map_ioram_def)
qed

section \<open>Storing a descriptor table register\<close>

text \<open>The addresses \<open>sgdt\<close> and \<open>sidt\<close> may be given: the page of \<open>mem\<close>, or memory below 1 MiB.\<close>

definition mem_ok :: "nat \<Rightarrow> u64 \<Rightarrow> bool" where
  "mem_ok k a \<longleftrightarrow> a = vmem k \<or> unat a + 10 \<le> 0x100000"

definition phys_of :: "nat \<Rightarrow> addr \<Rightarrow> addr" where
  "phys_of k a = (if a = vmem k then IORAM_BASE_PHYS else a)"

lemma virt_space:
  assumes "kstate s0 ps0 (Some f) ps k s"
  shows "virt s a = (if - 140737488355328 \<le> sint a \<and> sint a < 140737488355328 then f a else None)"
  using assms by (simp add: kstate_def space_def virt_def)

lemma sint_of_nat_u64: "k < 9223372036854775808 \<Longrightarrow> sint (of_nat k :: u64) = int k"
  by (simp add: signed_of_nat signed_take_bit_int_eq_self)

lemma sint_low: "unat a < 140737488355328 \<Longrightarrow> sint (a :: u64) = uint a \<and> 0 \<le> uint a \<and> uint a < 140737488355328"
proof -
  assume a: "unat a < 140737488355328"
  then have "int (unat a) < int 140737488355328"
    by (simp only: of_nat_less_iff)
  then show ?thesis
    using sint_of_nat_u64 [of "unat a"] a by simp
qed

lemma virt_low:
  assumes "kstate s0 ps0 (Some f) ps k s" "unat a < 4096 * n" "n \<le> 34359738368" "f a = ident n a"
  shows "virt s a = Some a"
proof -
  have "unat a < 140737488355328"
    using assms(2,3) by simp
  note low = sint_low [OF this]
  have "take_bit 48 a = a"
    using \<open>unat a < 140737488355328\<close> by (intro word_eq_of_unat) (simp add: unsigned_take_bit_eq take_bit_nat_eq_self)
  moreover have "vpn a < n"
    using assms(2,3) by (simp add: vpn_eq div_less_iff_less_mult mult.commute)
  moreover have "- 140737488355328 \<le> sint a" "sint a < 140737488355328"
    using low by linarith+
  ultimately show ?thesis
    using assms(4) by (simp add: virt_space [OF assms(1)] ident_def)
qed

lemma ioram_translation:
  assumes "k \<in> {1, 2, 3}" "j < 10"
  shows "with_ioram k (vmem k + of_nat j) = Some (IORAM_BASE_PHYS + of_nat j)"
    "- 140737488355328 \<le> sint (vmem k + of_nat j)" "sint (vmem k + of_nat j) < 140737488355328"
proof -
  have "j = 0 \<or> j = 1 \<or> j = 2 \<or> j = 3 \<or> j = 4 \<or> j = 5 \<or> j = 6 \<or> j = 7 \<or> j = 8 \<or> j = 9"
    using assms(2) by auto
  then show "with_ioram k (vmem k + of_nat j) = Some (IORAM_BASE_PHYS + of_nat j)"
    "- 140737488355328 \<le> sint (vmem k + of_nat j)" "sint (vmem k + of_nat j) < 140737488355328"
    using assms(1) by (elim disjE insertE; simp add: with_ioram_def vmem_def vpn_eq IORAM_BASE_PHYS_def mask_eq_exp_minus_1)+
qed

lemma virt_mem:
  assumes "kstate s0 ps0 (Some (with_ioram k)) ps n s" "k \<in> {1, 2, 3}" "mem_ok k a" "j < 10"
  shows "virt s (a + of_nat j) = Some (phys_of k a + of_nat j) \<and> scratch_addr (phys_of k a + of_nat j)"
proof (cases "a = vmem k")
  case True
  then have "phys_of k a + of_nat j = IORAM_BASE_PHYS + of_nat j"
    by (simp add: phys_of_def)
  moreover have "unat (IORAM_BASE_PHYS + of_nat j) = 0xff000000 + j"
    using assms(4) by (simp add: IORAM_BASE_PHYS_def unat_plus_u64)
  ultimately show ?thesis
    using True assms(4) ioram_translation [OF assms(2,4)] by (simp add: virt_space [OF assms(1)] scratch_addr_def)
next
  case False
  then have "unat a + 10 \<le> 0x100000"
    using assms(3) by (simp add: mem_ok_def)
  then have u: "unat (a + of_nat j) = unat a + j" "unat a + j < 0x100000"
    using assms(4) by (simp_all add: unat_plus_u64)
  then have "vpn (a + of_nat j) < 1048576"
    by (simp add: vpn_eq)
  moreover have "1048576 \<le> vpn (vmem k)" "1048576 \<le> vpn (vmem k + 4096)"
    using assms(2) unfolding vpn_vmem [OF assms(2)] by auto
  ultimately have "with_ioram k (a + of_nat j) = ident 1048576 (a + of_nat j)"
    by (auto simp: with_ioram_def)
  then have "virt s (a + of_nat j) = Some (a + of_nat j)"
    using u by (intro virt_low [OF assms(1), of _ 1048576]) simp_all
  then show ?thesis
    using False u by (simp add: phys_of_def scratch_addr_def)
qed

lemma those_map_Some: "(\<And>x. x \<in> set xs \<Longrightarrow> f x = Some (g x)) \<Longrightarrow> those (map f xs) = Some (map g xs)"
  by (induction xs) simp_all

lemma virts_mem:
  assumes "kstate s0 ps0 (Some (with_ioram k)) ps n s" "k \<in> {1, 2, 3}" "mem_ok k a"
  shows "virts s a 10 = Some (map (\<lambda>j. phys_of k a + of_nat j) [0..<10])"
  unfolding virts_def by (rule those_map_Some) (use virt_mem [OF assms] in simp)

lemma put_bytes_outside: "x \<notin> set ps \<Longrightarrow> put_bytes ps bs m x = m x"
  by (induction ps bs m rule: put_bytes.induct) auto

lemma put_bytes_read: "distinct ps \<Longrightarrow> length ps = length bs \<Longrightarrow> map (put_bytes ps bs m) ps = bs"
  by (induction ps bs m rule: put_bytes.induct) (auto simp: put_bytes_outside)

lemma distinct_offsets: "distinct (map (\<lambda>j. a + of_nat j) [0..<10] :: u64 list)"
proof -
  have "unat (of_nat n :: u64) = n" if "n < 10" for n
    using that by (simp add: unsigned_of_nat take_bit_nat_eq_self)
  then have "inj_on (\<lambda>j. a + of_nat j :: u64) {0..<10}"
    by (intro inj_onI) (metis add_left_cancel atLeastLessThan_iff)
  then show ?thesis
    by (simp add: distinct_map)
qed

text \<open>Memory outside the free pages and the tables may change.\<close>

lemma kstate_scratch:
  assumes "kstate s0 ps0 (Some f) ps k s" "pool_ok ps0" "\<And>x. \<not> scratch_addr x \<Longrightarrow> m x = ram (hp s) x"
  shows "kstate s0 ps0 (Some f) ps k (s\<lparr>hp := (hp s)\<lparr>ram := m\<rparr>\<rparr>)"
proof -
  have same: "m x = ram (hp s) x" if p: "p \<in> set ps0" "in_range x p 4096" for p x
  proof (rule assms(3))
    have "0x100000 \<le> unat p" "unat p + 4096 \<le> 0xff000000"
      using assms(2) p(1) by (auto simp: pool_ok_def)
    moreover obtain i where "i < 4096" "x = p + of_nat i"
      using p(2) by (auto simp: in_range_iff_offset)
    ultimately have "unat x = unat p + i" "0x100000 \<le> unat p" "unat p + i < 0xff000000"
      by (simp_all add: unat_plus_u64)
    then show "\<not> scratch_addr x"
      by (simp add: scratch_addr_def)
  qed
  note st = assms(1) [unfolded kstate_def]
  have "free_pages ((hp s)\<lparr>ram := m\<rparr>) ps"
    using st same by (intro heap_pages.pool_frame) auto
  moreover have "m x = ram (hp s) x" if "t \<in> set (tables (ram (hp s)) 4 (cr3 (hp s)))" "in_range x t 4096" for t x
    using that st by (intro same [of t]) (auto simp: space_def)
  note tables_frame [OF this]
  then have "space ps0 ps f ((hp s)\<lparr>ram := m\<rparr>)"
    using st by (auto simp: space_def wf_tables_def)
  ultimately show ?thesis
    using st assms(3) by (simp add: kstate_def cpus_ok_def)
qed

lemma length_dtr_bytes [simp]: "length (dtr_bytes d) = 10"
  by (simp add: dtr_bytes_def)

lemma vstore_state:
  assumes "kstate s0 ps0 (Some (with_ioram k)) ps n s" "pool_ok ps0" "k \<in> {1, 2, 3}" "mem_ok k a"
  shows "\<exists>h. vstore a (dtr_bytes d) s = Some (s\<lparr>hp := h\<rparr>) \<and> kstate s0 ps0 (Some (with_ioram k)) ps n (s\<lparr>hp := h\<rparr>) \<and>
    vload a 10 (s\<lparr>hp := h\<rparr>) = Some (dtr_bytes d)"
proof -
  let ?ps = "map (\<lambda>j. phys_of k a + of_nat j) [0..<10]"
  let ?h = "(hp s)\<lparr>ram := put_bytes ?ps (dtr_bytes d) (ram (hp s))\<rparr>"
  have "vstore a (dtr_bytes d) s = Some (s\<lparr>hp := ?h\<rparr>)"
    using virts_mem [OF assms(1,3,4)] by (simp add: vstore_def)
  moreover have "scratch_addr x" if "x \<in> set ?ps" for x
    using that virt_mem [OF assms(1,3,4)] by auto
  then have st: "kstate s0 ps0 (Some (with_ioram k)) ps n (s\<lparr>hp := ?h\<rparr>)"
    by (intro kstate_scratch [OF assms(1,2)] put_bytes_outside) blast
  moreover have "map (put_bytes ?ps (dtr_bytes d) (ram (hp s))) ?ps = dtr_bytes d"
    by (intro put_bytes_read distinct_offsets) simp
  then have "vload a 10 (s\<lparr>hp := ?h\<rparr>) = Some (dtr_bytes d)"
    using virts_mem [OF st assms(3,4)] by (simp add: vload_def)
  ultimately show ?thesis
    by blast
qed

lemma dtr_of_bytes: "dtr_of (dtr_bytes d) = d"
proof -
  let ?m = "\<lambda>a. dtr_bytes d ! unat (a :: addr)"
  have nth: "dtr_bytes d ! j = (if j < 2 then byte_of (fst d) j else byte_of (snd d) (j - 2))" if "j < 10" for j
    using that by (auto simp: dtr_bytes_def nth_append)
  have "load16 ?m 0 = fst d"
  proof (rule bit_word_eqI)
    fix n assume "n < LENGTH(16)"
    moreover from this have "n div 8 < 2"
      by (simp add: div_less_iff_less_mult)
    ultimately show "bit (load16 ?m 0) n = bit (fst d) n"
      by (simp add: load16_def bit_load_le nth bit_byte_of)
  qed
  moreover have "load64 ?m 2 = snd d"
  proof (rule bit_word_eqI)
    fix n assume n: "n < LENGTH(64)"
    then have "unat (2 + of_nat (n div 8) :: u64) = 2 + n div 8" "n div 8 < 8"
      by (auto simp: unat_plus_u64)
    then show "bit (load64 ?m 2) n = bit (snd d) n"
      using n by (simp add: load64_def bit_load_le nth bit_byte_of)
  qed
  ultimately show ?thesis
    by (simp add: dtr_of_def)
qed

section \<open>Functions on the kernel\<close>

text \<open>
  A function that returns from every state of \<open>p\<close> in one of \<open>q\<close>, sends \<open>t\<close> over the serial line and
  leaves the screen alone.
\<close>

definition acts :: "(nat \<Rightarrow> u16 \<Rightarrow> u32) \<Rightarrow> (kernel \<Rightarrow> bool) \<Rightarrow> (kernel \<Rightarrow> kernel option) \<Rightarrow> byte list \<Rightarrow> (kernel \<Rightarrow> bool) \<Rightarrow> bool" where
  "acts J p f t q \<longleftrightarrow> (\<forall>s. p s \<longrightarrow> serial_at J (ser s) \<longrightarrow>
     (\<exists>s'. f s = Some s' \<and> con s' = con s \<and> sends t (ser s) (ser s') \<and> q s'))"

lemma sends_refl: "serial_at J d \<Longrightarrow> sends [] d d"
  by (simp add: serial_at_def serial_ready_def sends_def)

lemma serial_at_sends: "serial_at J d \<Longrightarrow> sends t d d' \<Longrightarrow> serial_at J d'"
  by (auto simp: serial_at_def serial_ready_def sends_def drains_def)

lemma acts_quiet:
  assumes "\<And>s. p s \<Longrightarrow> \<exists>s'. f s = Some s' \<and> con s' = con s \<and> ser s' = ser s \<and> q s'"
  shows "acts J p f [] q"
  unfolding acts_def
proof (intro allI impI)
  fix s
  assume s: "p s" "serial_at J (ser s)"
  obtain s' where "f s = Some s'" "con s' = con s" "ser s' = ser s" "q s'"
    using assms [OF s(1)] by blast
  then show "\<exists>s'. f s = Some s' \<and> con s' = con s \<and> sends [] (ser s) (ser s') \<and> q s'"
    using sends_refl [OF s(2)] by simp
qed

lemma acts_bind:
  assumes "acts J p f t q" "acts J q g u r"
  shows "acts J p (\<lambda>s. f s \<bind> g) (t @ u) r"
  unfolding acts_def
proof (intro allI impI)
  fix s
  assume s: "p s" "serial_at J (ser s)"
  obtain s1 where s1: "f s = Some s1" "con s1 = con s" "sends t (ser s) (ser s1)" "q s1"
    using assms(1) s unfolding acts_def by blast
  obtain s2 where "g s1 = Some s2" "con s2 = con s1" "sends u (ser s1) (ser s2)" "r s2"
    using assms(2) s1(4) serial_at_sends [OF s(2) s1(3)] unfolding acts_def by blast
  then show "\<exists>s'. (f s \<bind> g) = Some s' \<and> con s' = con s \<and> sends (t @ u) (ser s) (ser s') \<and> r s'"
    using s1 sends_trans by (intro exI [of _ s2]) auto
qed

lemma acts_conj:
  assumes "acts J p f t q" "\<And>s s'. p s \<Longrightarrow> f s = Some s' \<Longrightarrow> q s' \<Longrightarrow> r s'"
  shows "acts J p f t r"
  using assms unfolding acts_def by meson

lemma acts_upd:
  assumes "acts J p f t q" "\<And>s. p' s \<Longrightarrow> p (g s) \<and> con (g s) = con s \<and> ser (g s) = ser s"
  shows "acts J p' (\<lambda>s. f (g s)) t q"
  unfolding acts_def
proof (intro allI impI)
  fix s
  assume "p' s" "serial_at J (ser s)"
  then show "\<exists>s'. f (g s) = Some s' \<and> con s' = con s \<and> sends t (ser s) (ser s') \<and> q s'"
    using assms(1) [unfolded acts_def, rule_format, of "g s"] assms(2) [of s] by simp
qed

lemma acts_turns:
  assumes "\<And>k. k < n \<Longrightarrow> acts J (p k) body t (p (Suc k))" "\<And>k s x. p k (s\<lparr>var_i := x\<rparr>) = p k s"
  shows "acts J (p 0) (turns n body) (concat (replicate n t)) (p n)"
  using assms
proof (induction n arbitrary: p)
  case 0
  have "acts J (p 0) Some [] (p 0)"
    by (rule acts_quiet) simp
  moreover have "turns 0 body = Some"
    by (simp add: fun_eq_iff)
  ultimately show ?case
    by (simp only: replicate_0 concat.simps(1))
next
  case (Suc n)
  have IH: "acts J (p (Suc 0)) (turns n body) (concat (replicate n t)) (p (Suc n))"
    by (rule Suc.IH) (use Suc.prems in simp_all)
  have "acts J (p (Suc 0)) (\<lambda>s. turns n body (s\<lparr>var_i := var_i s + 1\<rparr>)) (concat (replicate n t)) (p (Suc n))"
    by (rule acts_upd [OF IH]) (simp add: Suc.prems(2))
  note acts_bind [OF Suc.prems(1) [OF zero_less_Suc] this]
  moreover have "turns (Suc n) body = (\<lambda>s. body s \<bind> (\<lambda>s. turns n body (s\<lparr>var_i := var_i s + 1\<rparr>)))"
    by (simp add: fun_eq_iff)
  ultimately show ?case
    by (simp only: replicate_Suc concat.simps(2))
qed

lemma acts_for:
  assumes "\<And>k. k < n \<Longrightarrow> acts J (p k) body t (p (Suc k))" "\<And>k s x. p k (s\<lparr>var_i := x\<rparr>) = p k s" "keeps_i body" "n < 2147483648"
  shows "acts J (p 0) (for_i n body) (concat (replicate n t)) (p n)"
proof -
  have "acts J (p 0) (turns n body) (concat (replicate n t)) (p n)"
    using assms(1,2) by (rule acts_turns)
  from acts_upd [OF this, of "p 0" "\<lambda>s. s\<lparr>var_i := 0\<rparr>"]
  have "acts J (p 0) (\<lambda>s. turns n body (s\<lparr>var_i := 0\<rparr>)) (concat (replicate n t)) (p n)"
    by (simp add: assms(2))
  moreover have "for_i n body = (\<lambda>s. turns n body (s\<lparr>var_i := 0\<rparr>))"
    using for_i_turns [OF assms(3,4)] by (rule ext)
  ultimately show ?thesis
    by (simp only:)
qed

text \<open>The loops that do nothing, and those that keep a property.\<close>

lemma acts_loop:
  assumes "acts J p body [] p" "\<And>s x. p (s\<lparr>var_i := x\<rparr>) = p s" "keeps_i body" "n < 2147483648"
  shows "acts J p (for_i n body) [] p"
proof -
  have "concat (replicate n []) = ([] :: byte list)"
    by (induction n) simp_all
  then show ?thesis
    using acts_for [of n J "\<lambda>_. p" body "[]", OF assms(1) assms(2) assms(3,4)] by (simp only:)
qed

lemma acts_Some: "acts J p Some [] p"
  by (rule acts_quiet) simp

lemma acts_idle: "(\<And>s x. p (s\<lparr>var_i := x\<rparr>) = p s) \<Longrightarrow> n < 2147483648 \<Longrightarrow> acts J p (for_i n Some) [] p"
  using acts_loop [OF acts_Some _ body_keeps_i(15)] .

section \<open>The loops over memory\<close>

lemma virt_upd [simp]:
  "virt (s\<lparr>var_i := x4\<rparr>) a = virt s a" "virt (s\<lparr>measured := x3\<rparr>) a = virt s a" "virt (s\<lparr>var_address := x5\<rparr>) a = virt s a"
  "virt (s\<lparr>var_ptr := x5\<rparr>) a = virt s a" "virt (s\<lparr>var_mem := x5\<rparr>) a = virt s a" "virt (s\<lparr>ser := x1\<rparr>) a = virt s a"
  "virt (s\<lparr>con := x2\<rparr>) a = virt s a" "virt (s\<lparr>gdtr := x6\<rparr>) a = virt s a"
  by (simp_all add: virt_def)

text \<open>The addresses touched by the two benchmarks: pages from 64 MiB on, and from 1 MiB on.\<close>

definition cold_page :: "nat \<Rightarrow> addr" where "cold_page i = of_nat (0x4000 + i) * 4096"
definition hot_page :: "nat \<Rightarrow> addr" where "hot_page i = of_nat (0x100000 + 0x1000 * i)"

lemma word_mod_small: "n < 2 ^ 30 \<Longrightarrow> (of_nat n :: u64) mod push_bit 30 1 = of_nat n"
  by (rule word_eq_of_unat) (simp add: unat_mod unsigned_of_nat take_bit_nat_eq_self)

lemma cold_turns:
  assumes "\<forall>i<j + n. virt s (cold_page i) \<noteq> None" "var_ptr s = of_nat (0x4000 + j)" "j + n \<le> 100000"
  shows "turns n (\<lambda>s. do { s \<leftarrow> volatile_read (var_ptr s * 4096) s; Some (next_ptr s) }) s =
    Some (s\<lparr>var_ptr := of_nat (0x4000 + (j + n)), measured := measured s @ map (\<lambda>i. Op_read (cold_page i)) [j..<j + n],
      var_i := var_i s + of_nat n\<rparr>)"
  using assms
proof (induction n arbitrary: j s)
  case (Suc n)
  let ?t = "next_ptr (note_op (Op_read (cold_page j)) s)"
  obtain y where a: "var_ptr s * 4096 = cold_page j" "virt s (cold_page j) = Some y"
    using spec [OF Suc.prems(1), of j] Suc.prems(2) by (auto simp: cold_page_def)
  have p: "var_ptr ?t = of_nat (0x4000 + Suc j)"
    using Suc.prems(2,3) word_mod_small [of "0x4000 + Suc j"] by (simp add: next_ptr_def note_op_def Let_def add.commute add.left_commute)
  have "turns n (\<lambda>s. do { s \<leftarrow> volatile_read (var_ptr s * 4096) s; Some (next_ptr s) }) (?t\<lparr>var_i := var_i ?t + 1\<rparr>) =
    Some (?t\<lparr>var_ptr := of_nat (0x4000 + (Suc j + n)), measured := measured ?t @ map (\<lambda>i. Op_read (cold_page i)) [Suc j..<Suc j + n],
      var_i := var_i ?t + 1 + of_nat n\<rparr>)"
    using Suc.IH [of "Suc j" "?t\<lparr>var_i := var_i ?t + 1\<rparr>"] Suc.prems(1,3) p
    by (simp add: next_ptr_def note_op_def Let_def del: of_nat_Suc of_nat_add)
  moreover have "[j..<j + Suc n] = j # [Suc j..<Suc j + n]"
    by (simp add: upt_conv_Cons)
  ultimately show ?case
    using a by (simp add: volatile_read_def next_ptr_def note_op_def Let_def add.assoc)
qed simp

lemma hot_turns:
  assumes "\<forall>i<j + n. virt s (hot_page i) \<noteq> None" "var_address s = hot_page j" "j + n \<le> 100000"
  shows "turns n hot_touch s =
    Some (s\<lparr>var_address := hot_page (j + n), measured := measured s @ map (\<lambda>i. Op_read (hot_page i)) [j..<j + n],
      var_i := var_i s + of_nat n\<rparr>)"
  using assms
proof (induction n arbitrary: j s)
  case (Suc n)
  let ?t = "next_address (note_op (Op_read (hot_page j)) s)"
  obtain y where a: "virt s (hot_page j) = Some y"
    using spec [OF Suc.prems(1), of j] by auto
  have p: "var_address ?t = hot_page (Suc j)"
    using Suc.prems(2,3) word_mod_small [of "0x100000 + 0x1000 * Suc j"]
    by (simp add: next_address_def note_op_def hot_page_def Let_def algebra_simps)
  have "turns n hot_touch (?t\<lparr>var_i := var_i ?t + 1\<rparr>) =
    Some (?t\<lparr>var_address := hot_page (Suc j + n), measured := measured ?t @ map (\<lambda>i. Op_read (hot_page i)) [Suc j..<Suc j + n],
      var_i := var_i ?t + 1 + of_nat n\<rparr>)"
    using Suc.IH [of "Suc j" "?t\<lparr>var_i := var_i ?t + 1\<rparr>"] Suc.prems(1,3) p
    by (simp add: next_address_def note_op_def Let_def)
  moreover have "[j..<j + Suc n] = j # [Suc j..<Suc j + n]"
    by (simp add: upt_conv_Cons)
  moreover have "hot_touch s = Some ?t"
    using a Suc.prems(2) by (simp add: hot_touch_def volatile_read_def)
  ultimately show ?case
    by (simp add: next_address_def note_op_def Let_def add.assoc)
qed simp

lemma cold_kernel_eq:
  assumes "\<forall>i<100000. virt s (cold_page i) \<noteq> None"
  shows "cold_kernel s = Some (s\<lparr>var_ptr := 116384, measured := measured s @ map (\<lambda>i. Op_read (cold_page i)) [0..<100000],
    var_i := 100000\<rparr>)"
proof -
  have "for_i COLD_ACCESS (\<lambda>s. do { s \<leftarrow> volatile_read (var_ptr s * 4096) s; Some (next_ptr s) }) (s\<lparr>var_ptr := 0x4000\<rparr>) =
      turns 100000 (\<lambda>s. do { s \<leftarrow> volatile_read (var_ptr s * 4096) s; Some (next_ptr s) }) (s\<lparr>var_ptr := 0x4000, var_i := 0\<rparr>)"
    using for_i_turns [OF body_keeps_i(8), of COLD_ACCESS] by (simp add: counts)
  then show ?thesis
    using cold_turns [of 0 100000 "s\<lparr>var_ptr := 0x4000, var_i := 0\<rparr>"] assms by (simp add: cold_kernel_def)
qed

lemma hot_loop_eq:
  assumes "\<forall>i<100000. virt s (hot_page i) \<noteq> None"
  shows "for_i HOT_ACCESS hot_touch (s\<lparr>var_address := 0x100000\<rparr>) =
    Some (s\<lparr>var_address := hot_page 100000, measured := measured s @ map (\<lambda>i. Op_read (hot_page i)) [0..<100000], var_i := 100000\<rparr>)"
proof -
  have "for_i HOT_ACCESS hot_touch (s\<lparr>var_address := 0x100000\<rparr>) = turns 100000 hot_touch (s\<lparr>var_address := 0x100000, var_i := 0\<rparr>)"
    using for_i_turns [OF body_keeps_i(9), of HOT_ACCESS] by (simp add: counts)
  then show ?thesis
    using hot_turns [of 0 100000 "s\<lparr>var_address := 0x100000, var_i := 0\<rparr>"] assms by (simp add: hot_page_def)
qed

lemma access_pages_unat:
  assumes "i < 100000"
  shows "unat (cold_page i) = 4096 * (0x4000 + i)" "unat (hot_page i) = 0x100000 + 0x1000 * i"
  using assms page_offset_unat [of "0x4000 + i"] page_offset_unat [of "256 + i"]
  by (simp_all add: cold_page_def hot_page_def mult.commute unsigned_of_nat take_bit_nat_eq_self)

lemma memory_mapped:
  assumes "kstate s0 ps0 (Some (ident n)) ps k s" "n \<le> 34359738368"
  shows "n = 2097152 \<Longrightarrow> \<forall>i<100000. virt s (cold_page i) \<noteq> None" "n = 1048576 \<Longrightarrow> \<forall>i<100000. virt s (hot_page i) \<noteq> None"
proof -
  show "n = 2097152 \<Longrightarrow> \<forall>i<100000. virt s (cold_page i) \<noteq> None" "n = 1048576 \<Longrightarrow> \<forall>i<100000. virt s (hot_page i) \<noteq> None"
    using virt_low [OF assms(1) _ assms(2)] by (simp_all add: access_pages_unat)
qed

end
