(* ===== verification/Kernelrun.thy ===== *)
theory Kernelrun
  imports Kernelstate Report
begin

text \<open>
  The run of the linked benchmarks on the state of the kernel: the pages each one takes from the free
  list and never gives back, the accesses it makes, and the effect of the whole run of the harness on
  the serial line and the screen.
\<close>

section \<open>The functions of the benchmarks\<close>

lemma tables_for_sizes: "tables_for 1048576 = 2053" "tables_for 2097152 = 4105"
  by (simp_all add: tables_for_def)

lemma acts_setup_fresh:
  assumes "pool_ok ps0" "n = unat eom div 4096" "eom \<noteq> 0" "unat eom \<le> 281474976710656" "Suc (tables_for n) \<le> length ps"
  shows "acts J (kstate s0 ps0 None ps k) (k_setup_mmu pr eom) []
    (\<lambda>s. kstate s0 ps0 (Some (ident n)) (drop (Suc (tables_for n)) ps) k s \<and> fresh_space n (hp s))"
proof (rule acts_quiet)
  fix s
  assume s: "kstate s0 ps0 None ps k s"
  obtain r qs where ps: "ps = r # qs"
    using assms(5) by (cases ps) auto
  obtain h where "k_setup_mmu pr eom s = Some (note_op (Op_setup_mmu eom) (s\<lparr>hp := h\<rparr>))"
      "kstate s0 ps0 (Some (ident n)) (drop (tables_for n) qs) k (s\<lparr>hp := h\<rparr>)" "fresh_space n h"
    using k_setup_mmu_state [OF s [unfolded ps] assms(1-4)] assms(5) ps by auto
  then show "\<exists>s'. k_setup_mmu pr eom s = Some s' \<and> con s' = con s \<and> ser s' = ser s \<and>
      kstate s0 ps0 (Some (ident n)) (drop (Suc (tables_for n)) ps) k s' \<and> fresh_space n (hp s')"
    by (simp add: ps note_op_def)
qed

lemma acts_setup:
  assumes "pool_ok ps0"
  shows "2054 \<le> length ps \<Longrightarrow> acts J (kstate s0 ps0 None ps k) (k_setup_mmu pr (push_bit 32 1)) []
      (kstate s0 ps0 (Some (ident 1048576)) (drop 2054 ps) k)"
    "4106 \<le> length ps \<Longrightarrow> acts J (kstate s0 ps0 None ps k) (k_setup_mmu pr (push_bit 33 1)) []
      (kstate s0 ps0 (Some (ident 2097152)) (drop 4106 ps) k)"
  using acts_conj [OF acts_setup_fresh [OF assms, of 1048576 "push_bit 32 1" ps J s0 k pr]]
    acts_conj [OF acts_setup_fresh [OF assms, of 2097152 "push_bit 33 1" ps J s0 k pr]] by (simp_all add: tables_for_sizes)

lemma acts_cleanup: "acts J (\<lambda>s. kstate s0 ps0 (Some f) ps k s \<and> q s) k_switch_to_start_cr3 [] (kstate s0 ps0 None ps k)"
proof (rule acts_quiet)
  fix s
  assume "kstate s0 ps0 (Some f) ps k s \<and> q s"
  then show "\<exists>s'. k_switch_to_start_cr3 s = Some s' \<and> con s' = con s \<and> ser s' = ser s \<and> kstate s0 ps0 None ps k s'"
    using k_cleanup_state [of s0 ps0 f ps k s] by fastforce
qed

lemma acts_ioram:
  assumes "pool_ok ps0" "2057 \<le> length ps" "k < 3"
  shows "acts J (kstate s0 ps0 None ps k) (\<lambda>s. do { s \<leftarrow> k_setup_mmu pr (push_bit 32 1) s; map_ioram pr s }) []
    (\<lambda>s. kstate s0 ps0 (Some (with_ioram (Suc k))) (drop 2057 ps) (Suc k) s \<and> mem_ok (Suc k) (var_mem s))"
proof -
  have "\<exists>p1 p2 p3. xs = p1 # p2 # p3 # drop 3 xs" if "3 \<le> length xs" for xs :: "addr list"
    using that by (auto simp: Suc_le_length_iff numeral_3_eq_3)
  moreover have "3 \<le> length (drop 2054 ps)"
    using assms(2) by simp
  ultimately obtain p1 p2 p3 where "drop 2054 ps = p1 # p2 # p3 # drop 3 (drop 2054 ps)"
    by blast
  then have d: "drop 2054 ps = p1 # p2 # p3 # drop 2057 ps"
    by simp
  have "acts J (\<lambda>s. kstate s0 ps0 (Some (ident 1048576)) (p1 # p2 # p3 # drop 2057 ps) k s \<and> fresh_space 1048576 (hp s))
    (map_ioram pr) [] (\<lambda>s. kstate s0 ps0 (Some (with_ioram (Suc k))) (drop 2057 ps) (Suc k) s \<and> mem_ok (Suc k) (var_mem s))"
  proof (rule acts_quiet)
    fix s
    assume s: "kstate s0 ps0 (Some (ident 1048576)) (p1 # p2 # p3 # drop 2057 ps) k s \<and> fresh_space 1048576 (hp s)"
    obtain h where "map_ioram pr s = Some (s\<lparr>var_mem := vmem (Suc k), hp := h\<rparr>)"
        "kstate s0 ps0 (Some (with_ioram (Suc k))) (drop 2057 ps) (Suc k) (s\<lparr>var_mem := vmem (Suc k), hp := h\<rparr>)"
      using k_ioram_state [OF conjunct1 [OF s] assms(1) conjunct2 [OF s] assms(3), of pr] by blast
    then show "\<exists>s'. map_ioram pr s = Some s' \<and> con s' = con s \<and> ser s' = ser s \<and>
        kstate s0 ps0 (Some (with_ioram (Suc k))) (drop 2057 ps) (Suc k) s' \<and> mem_ok (Suc k) (var_mem s')"
      by (simp add: mem_ok_def)
  qed
  moreover have "acts J (kstate s0 ps0 None ps k) (k_setup_mmu pr (push_bit 32 1)) []
      (\<lambda>s. kstate s0 ps0 (Some (ident 1048576)) (p1 # p2 # p3 # drop 2057 ps) k s \<and> fresh_space 1048576 (hp s))"
    using acts_setup_fresh [OF assms(1), of 1048576 "push_bit 32 1" ps J s0 k pr] assms(2) by (simp add: tables_for_sizes d)
  ultimately show ?thesis
    using acts_bind by fastforce
qed

text \<open>What the compiler must not do for the operand that is not loaded: point into other memory.\<close>

definition regs_ok :: "build \<Rightarrow> bool" where
  "regs_ok b \<longleftrightarrow> (\<forall>s. \<forall>r \<in> {reg_sgdt b s, reg_sidt b s, reg_lgdt b s}. r = var_mem s \<or> unat r + 10 \<le> 0x100000)"

text \<open>Inside \<open>sgdt\<close>, \<open>sidt\<close> and \<open>lgdt\<close>, the \<open>k\<close>-th benchmark with pages of its own.\<close>

definition ioram_stage :: "kernel \<Rightarrow> addr list \<Rightarrow> addr list \<Rightarrow> nat \<Rightarrow> kernel \<Rightarrow> bool" where
  "ioram_stage s0 ps0 ps k s \<longleftrightarrow> kstate s0 ps0 (Some (with_ioram k)) ps k s \<and> mem_ok k (var_mem s)"

lemma ioram_stage_i [simp]: "ioram_stage s0 ps0 ps k (s\<lparr>var_i := x\<rparr>) = ioram_stage s0 ps0 ps k s"
  by (simp add: ioram_stage_def)

lemma store_stage:
  assumes "pool_ok ps0" "k \<in> {1, 2, 3}" "reg s = var_mem s \<or> unat (reg s) + 10 \<le> 0x100000" "ioram_stage s0 ps0 ps k s"
  shows "\<exists>h. vstore (reg s) (dtr_bytes d) s = Some (s\<lparr>hp := h\<rparr>) \<and>
    ioram_stage s0 ps0 ps k (note_op x (s\<lparr>hp := h, var_mem := reg s\<rparr>)) \<and> vload (reg s) 10 (s\<lparr>hp := h\<rparr>) = Some (dtr_bytes d)"
proof -
  have a: "mem_ok k (reg s)"
    using assms(3,4) by (auto simp: mem_ok_def ioram_stage_def)
  then show ?thesis
    using vstore_state [of s0 ps0 k ps k s "reg s" d] assms by (auto simp: ioram_stage_def note_op_def)
qed

lemma acts_sgdt:
  assumes "pool_ok ps0" "k \<in> {1, 2, 3}" "regs_ok b"
  shows "acts J (ioram_stage s0 ps0 ps k) (sgdt_kernel b) [] (ioram_stage s0 ps0 ps k)"
    "acts J (ioram_stage s0 ps0 ps k) (sidt_kernel b) [] (ioram_stage s0 ps0 ps k)"
proof -
  let ?p = "ioram_stage s0 ps0 ps k"
  have "acts J ?p (test_sgdt (reg_sgdt b)) [] ?p"
  proof (rule acts_quiet)
    fix s
    assume "?p s"
    with store_stage [OF assms(1,2), of "reg_sgdt b" s s0 ps "gdtr s" "Op_sgdt (reg_sgdt b s)"] assms(3)
    show "\<exists>s'. test_sgdt (reg_sgdt b) s = Some s' \<and> con s' = con s \<and> ser s' = ser s \<and> ?p s'"
      by (auto simp: test_sgdt_def Let_def regs_ok_def note_op_def)
  qed
  moreover have "acts J ?p (test_sidt (reg_sidt b)) [] ?p"
  proof (rule acts_quiet)
    fix s
    assume "?p s"
    with store_stage [OF assms(1,2), of "reg_sidt b" s s0 ps "idtr (cpu (kdesc s))" "Op_sidt (reg_sidt b s)"] assms(3)
    show "\<exists>s'. test_sidt (reg_sidt b) s = Some s' \<and> con s' = con s \<and> ser s' = ser s \<and> ?p s'"
      by (auto simp: test_sidt_def Let_def regs_ok_def note_op_def)
  qed
  ultimately show "acts J ?p (sgdt_kernel b) [] ?p" "acts J ?p (sidt_kernel b) [] ?p"
    unfolding sgdt_kernel_def sidt_kernel_def
    by (auto intro!: acts_loop body_keeps_i simp: counts)
qed

text \<open>What \<open>lgdt\<close> loads is what was stored.\<close>

definition saved_stage :: "kernel \<Rightarrow> addr list \<Rightarrow> addr list \<Rightarrow> nat \<Rightarrow> kernel \<Rightarrow> bool" where
  "saved_stage s0 ps0 ps k s \<longleftrightarrow> kstate s0 ps0 (Some (with_ioram k)) ps k s \<and> vload (var_mem s) 10 s = Some (dtr_bytes (gdtr s))"

lemma vload_upd [simp]:
  "vload a n (s\<lparr>var_i := x1\<rparr>) = vload a n s" "vload a n (s\<lparr>measured := x2\<rparr>) = vload a n s"
  "vload a n (s\<lparr>gdtr := x3\<rparr>) = vload a n s" "vload a n (s\<lparr>var_mem := x4\<rparr>) = vload a n s"
  "vload a n (s\<lparr>ser := x5\<rparr>) = vload a n s" "vload a n (s\<lparr>con := x6\<rparr>) = vload a n s"
  by (simp_all add: vload_def virts_def)

lemma acts_lgdt:
  assumes "pool_ok ps0" "k \<in> {1, 2, 3}" "regs_ok b"
  shows "acts J (ioram_stage s0 ps0 ps k) (save_gdt (reg_lgdt b)) [] (saved_stage s0 ps0 ps k)"
    "acts J (saved_stage s0 ps0 ps k) lgdt_kernel [] (saved_stage s0 ps0 ps k)"
proof -
  let ?p = "ioram_stage s0 ps0 ps k" and ?q = "saved_stage s0 ps0 ps k"
  show "acts J ?p (save_gdt (reg_lgdt b)) [] ?q"
  proof (rule acts_quiet)
    fix s
    assume "?p s"
    with store_stage [OF assms(1,2), of "reg_lgdt b" s s0 ps "gdtr s" "Op_sgdt (reg_lgdt b s)"] assms(3)
    show "\<exists>s'. save_gdt (reg_lgdt b) s = Some s' \<and> con s' = con s \<and> ser s' = ser s \<and> ?q s'"
      by (auto simp: save_gdt_def Let_def regs_ok_def note_op_def saved_stage_def ioram_stage_def)
  qed
  have "acts J ?q test_lgdt [] ?q"
    by (rule acts_quiet) (auto simp: test_lgdt_def saved_stage_def dtr_of_bytes note_op_def kstate_def cpus_ok_def)
  then show "acts J ?q lgdt_kernel [] ?q"
    unfolding lgdt_kernel_def by (rule acts_loop) (auto simp: body_keeps_i counts saved_stage_def)
qed

lemma acts_set_cr3:
  "acts J (\<lambda>s. kstate s0 ps0 (Some f) ps k s \<and> var_cr3 s = cr3 (hp s)) set_cr3_kernel []
     (\<lambda>s. kstate s0 ps0 (Some f) ps k s \<and> var_cr3 s = cr3 (hp s))"
proof -
  let ?p = "\<lambda>s. kstate s0 ps0 (Some f) ps k s \<and> var_cr3 s = cr3 (hp s)"
  have "acts J ?p test_set_cr3 [] ?p"
    by (rule acts_quiet) (auto simp: test_set_cr3_def note_op_def)
  then show ?thesis
    unfolding set_cr3_kernel_def by (rule acts_loop) (auto simp: body_keeps_i counts)
qed

lemma smp_init_ok:
  assumes "idt_ok d"
  shows "\<exists>d'. smp_init st ia ie d = Some d' \<and> idt_ok d' \<and> apic_ops (cpu d') = apic_ops (cpu d)"
proof -
  have "\<exists>t. setup_idt st ia d = Some t \<and> idt_ok t \<and> apic_ops (cpu t) = apic_ops (cpu d)"
  proof (cases "idt_initialized d")
    case False
    then show ?thesis
      using setup_idt_gates [OF False, of st ia] assms by (auto simp: idt_ok_def lidt_def)
  qed (use assms in \<open>simp add: setup_idt_def\<close>)
  moreover have "unat IPI_VECTOR = 32"
    by code_simp
  ultimately show ?thesis
    by (auto simp: smp_init_def set_idt_entry_eq idt_ok_def)
qed

lemma acts_smp_init: "acts J (kstate s0 ps0 w ps k) (k_smp_init b) [] (kstate s0 ps0 w ps k)"
proof (rule acts_quiet)
  fix s
  assume s: "kstate s0 ps0 w ps k s"
  then obtain d where "smp_init (stubs b) (idt_at b) (ipi_entry_at b) (kdesc s) = Some d" "idt_ok d"
      "apic_ops (cpu d) = apic_ops (cpu (kdesc s))"
    using smp_init_ok [of "kdesc s" "stubs b" "idt_at b" "ipi_entry_at b"] by (auto simp: kstate_def)
  then show "\<exists>s'. k_smp_init b s = Some s' \<and> con s' = con s \<and> ser s' = ser s \<and> kstate s0 ps0 w ps k s'"
    using s by (auto simp: k_smp_init_def kstate_def cpus_ok_def cong: option.case_cong)
qed

lemma acts_ipi: "acts J (kstate s0 ps0 w ps k) ipi_kernel [] (kstate s0 ps0 w ps k)"
proof -
  let ?p = "kstate s0 ps0 w ps k"
  have "acts J ?p (k_on_cpu 1) [] ?p"
  proof (rule acts_quiet)
    fix s
    assume s: "?p s"
    let ?m = "(ksmp s)\<lparr>at_cpu := (at_cpu (ksmp s))(me s := cpu (kdesc s))\<rparr>"
    have ok: "cpus_ok s" "smp_quiet ?m"
      using s by (simp_all add: kstate_def cpus_ok_def smp_quiet_def)
    then obtain t where "on_cpu_run (kmp s) (me s) 1 ?m = Some t" "smp_quiet t"
        "\<forall>k. interrupts_on (at_cpu t k) = interrupts_on (at_cpu ?m k) \<and> apic_ops (at_cpu t k) = apic_ops (at_cpu ?m k)"
      using on_cpu_run_returns [OF ok(2), of "me s" 1 "kmp s"] by (auto simp: cpus_ok_def)
    then show "\<exists>s'. k_on_cpu 1 s = Some s' \<and> con s' = con s \<and> ser s' = ser s \<and> ?p s'"
      using s ok(1) by (auto simp: k_on_cpu_def note_op_def kstate_def cpus_ok_def idt_ok_def cong: option.case_cong)
  qed
  then show ?thesis
    unfolding ipi_kernel_def by (rule acts_loop) (auto simp: body_keeps_i counts)
qed

lemma acts_cold:
  "acts J (kstate s0 ps0 (Some (ident 2097152)) ps k) cold_kernel [] (kstate s0 ps0 (Some (ident 2097152)) ps k)"
  by (rule acts_quiet) (use cold_kernel_eq memory_mapped(1) in fastforce)

lemma acts_hot_touch:
  "acts J (kstate s0 ps0 (Some (ident 1048576)) ps k) hot_kernel [] (kstate s0 ps0 (Some (ident 1048576)) ps k)"
  by (rule acts_quiet) (use hot_loop_eq memory_mapped(2) in \<open>fastforce simp: hot_kernel_def\<close>)

lemma acts_controls:
  "acts J (kstate s0 ps0 w ps k) cold_control [] (kstate s0 ps0 w ps k)"
  "acts J (kstate s0 ps0 w ps k) hot_control [] (kstate s0 ps0 w ps k)"
proof -
  let ?p = "kstate s0 ps0 w ps k"
  have "acts J ?p (\<lambda>s. Some (next_ptr s)) [] ?p" "acts J ?p (\<lambda>s. Some (next_address s)) [] ?p"
    by (rule acts_quiet; simp add: next_ptr_def next_address_def Let_def)+
  then have "acts J ?p (for_i COLD_ACCESS (\<lambda>s. Some (next_ptr s))) [] ?p"
      "acts J ?p (for_i HOT_ACCESS (\<lambda>s. Some (next_address s))) [] ?p"
    by (auto intro!: acts_loop body_keeps_i simp: counts)
  from acts_upd [OF this(1), of ?p "\<lambda>s. s\<lparr>var_ptr := 0x4000\<rparr>"] acts_upd [OF this(2), of ?p "\<lambda>s. s\<lparr>var_address := 0\<rparr>"]
  show "acts J ?p cold_control [] ?p" "acts J ?p hot_control [] ?p"
    by (simp_all add: cold_control_def [abs_def] hot_control_def [abs_def] Let_def)
qed

text \<open>The line control register does not answer with the divisor latch bit set.\<close>

definition lcr_ok :: "(nat \<Rightarrow> u16 \<Rightarrow> u32) \<Rightarrow> bool" where
  "lcr_ok J \<longleftrightarrow> (\<forall>n. \<not> bit (J n 0x3fb) 7)"

lemma acts_in: "acts J (kstate s0 ps0 w ps k) in_kernel [] (kstate s0 ps0 w ps k)"
proof -
  let ?p = "kstate s0 ps0 w ps k"
  have "acts J ?p (\<lambda>s. Some (snd (k_inb (0x3f8 + 0x03) s))) [] ?p"
    by (auto simp: acts_def k_inb_def inb_def note_op_def sends_def sent_def serial_at_def serial_ready_def)
  then show ?thesis
    unfolding in_kernel_def by (rule acts_loop) (auto simp: body_keeps_i counts)
qed

lemma acts_out:
  assumes "lcr_ok J"
  shows "acts J (kstate s0 ps0 w ps k) out_init [] (\<lambda>s. kstate s0 ps0 w ps k s \<and> \<not> bit (var_lcr s) 7)"
    "acts J (\<lambda>s. kstate s0 ps0 w ps k s \<and> \<not> bit (var_lcr s) 7) out_kernel [] (\<lambda>s. kstate s0 ps0 w ps k s \<and> \<not> bit (var_lcr s) 7)"
proof -
  let ?p = "\<lambda>s. kstate s0 ps0 w ps k s \<and> \<not> bit (var_lcr s) 7"
  show "acts J (kstate s0 ps0 w ps k) out_init [] ?p"
    using assms by (auto simp: acts_def out_init_def k_inb_def inb_def note_op_def sends_def sent_def serial_at_def
        serial_ready_def lcr_ok_def bit_simps)
  have "acts J ?p (\<lambda>s. Some (k_outb (var_lcr s) (0x3f8 + 0x03) s)) [] ?p"
    by (auto simp: acts_def k_outb_def outb_def note_op_def sends_def sent_def serial_at_def serial_ready_def)
  then show "acts J ?p out_kernel [] ?p"
    unfolding out_kernel_def by (rule acts_loop) (auto simp: body_keeps_i counts)
qed

definition print_text :: "byte list" where
  "print_text = concat (replicate 1000 (replicate 26 97))"

lemma acts_print:
  "acts J (kstate s0 ps0 w ps k) print_init [] (\<lambda>s. kstate s0 ps0 w ps k s \<and> var_len s = 26)"
  "acts J (\<lambda>s. kstate s0 ps0 w ps k s \<and> var_len s = 26) print_kernel print_text (\<lambda>s. kstate s0 ps0 w ps k s \<and> var_len s = 26)"
proof -
  let ?p = "\<lambda>s. kstate s0 ps0 w ps k s \<and> var_len s = 26"
  have "strlen print_buf = Some 26"
    by code_simp
  then show "acts J (kstate s0 ps0 w ps k) print_init [] ?p"
    by (intro acts_quiet) (auto simp: print_init_def)
  have b: "print_buf = replicate 26 97 @ [0]"
    by code_simp
  have "line False (replicate 26 (OutB 0x3f8 97)) = replicate 26 97 \<and> \<not> dlab False (replicate 26 (OutB 0x3f8 97))"
    by code_simp
  then have "acts J ?p (\<lambda>s. k_outbs print_buf (var_len s) 0x3f8 s) (replicate 26 97) ?p"
    by (auto simp: acts_def k_outbs_def outbs_def b note_op_def sends_def sent_def serial_at_def serial_ready_def)
  then have "acts J ?p (for_i 1000 (\<lambda>s. k_outbs print_buf (var_len s) 0x3f8 s)) (concat (replicate 1000 (replicate 26 97))) ?p"
    by (rule acts_for) (auto simp: body_keeps_i)
  then show "acts J ?p print_kernel print_text ?p"
    by (simp only: print_kernel_def print_text_def PRINTF_def)
qed

lemma acts_smsw:
  "acts J (kstate s0 ps0 w ps k) smsw_init [] (kstate s0 ps0 w ps k)"
  "acts J (kstate s0 ps0 w ps k) smsw_kernel [] (kstate s0 ps0 w ps k)"
  "acts J (kstate s0 ps0 w ps k) pushf_popf_kernel [] (kstate s0 ps0 w ps k)"
proof -
  let ?p = "kstate s0 ps0 w ps k"
  show "acts J ?p smsw_init [] ?p"
    by (rule acts_quiet) (simp add: smsw_init_def)
  have "?p ((test_smsw ^^ n) s) \<and> con ((test_smsw ^^ n) s) = con s \<and> ser ((test_smsw ^^ n) s) = ser s" if "?p s" for n s
    using that by (induction n) (simp_all add: test_smsw_def note_op_def)
  then have "acts J ?p (\<lambda>s. Some ((test_smsw ^^ 10) s)) [] ?p"
    by (intro acts_quiet) simp
  then show "acts J ?p smsw_kernel [] ?p"
    unfolding smsw_kernel_def by (rule acts_loop) (auto simp: body_keeps_i counts)
  have "?p ((note_op x ^^ n) s) \<and> con ((note_op x ^^ n) s) = con s \<and> ser ((note_op x ^^ n) s) = ser s" if "?p s" for n x s
    using that by (induction n) (simp_all add: note_op_def)
  then have "acts J ?p test_pushf_popf [] ?p"
    by (intro acts_quiet) (simp add: test_pushf_popf_def)
  then show "acts J ?p pushf_popf_kernel [] ?p"
    unfolding pushf_popf_kernel_def by (rule acts_loop) (auto simp: body_keeps_i counts)
qed

end
