(* ===== verification/Linked.thy ===== *)
theory Linked
  imports Kernelrun
begin

text \<open>
  The fourteen benchmarks of the image one after the other: each leads from the state between two
  benchmarks to the next such state, and the \<open>printf\<close> of either build keeps it. The locale of the
  harness is interpreted on both builds of the kernel.
\<close>

section \<open>The two builds of the kernel\<close>

definition kernel_serial_pr :: "(nat \<Rightarrow> byte) \<Rightarrow> bool \<Rightarrow> kernel print" where
  "kernel_serial_pr junk use_serial fmt va s = map_option (\<lambda>u. s\<lparr>ser := u\<rparr>) (serial_pr junk use_serial fmt va (ser s))"

definition kernel_vga_pr :: "(nat \<Rightarrow> byte) \<Rightarrow> kernel print" where
  "kernel_vga_pr junk fmt va s = map_option (\<lambda>c. s\<lparr>con := c\<rparr>) (vga_pr junk fmt va (con s))"

lemma kernel_only_prints: "only_prints (kernel_serial_pr junk use_serial)" "only_prints (kernel_vga_pr junk)"
  by (auto simp: only_prints_def kernel_serial_pr_def kernel_vga_pr_def)

definition devices_free :: "(kernel \<Rightarrow> bool) \<Rightarrow> bool" where
  "devices_free p \<longleftrightarrow> (\<forall>s u c. p (s\<lparr>ser := u\<rparr>) = p s \<and> p (s\<lparr>con := c\<rparr>) = p s)"

text \<open>A stage of the run: a property of the state that no output touches, with both devices ready.\<close>

definition kernel_at :: "(nat \<Rightarrow> u16 \<Rightarrow> u32) \<Rightarrow> (kernel \<Rightarrow> bool) \<Rightarrow> kernel \<Rightarrow> bool" where
  "kernel_at J p s \<longleftrightarrow> devices_free p \<and> p s \<and> serial_at J (ser s) \<and> console_ready (con s)"

interpretation kernel_serial: printer "kernel_serial_pr junk use_serial" "\<lambda>s. sent (ser s)" "\<lambda>b out. out @ b" "kernel_at J"
proof
  fix p d fmt va out
  assume a: "kernel_at J p d" "render fmt va = Some out" "0 \<notin> set out" "length out < BUFSZ"
  then obtain u where "serial_pr junk use_serial fmt va (ser d) = Some u" "serial_at J u" "sent u = sent (ser d) @ out"
    using serial_sink_at.printf_written [of J "ser d" fmt va out "map junk [0..<BUFSZ]" False "\<lambda>_ _. None" "puts use_serial" use_serial]
    by (auto simp: serial_pr_def kernel_at_def)
  then show "\<exists>d'. kernel_serial_pr junk use_serial fmt va d = Some d' \<and> kernel_at J p d' \<and> sent (ser d') = sent (ser d) @ out"
    using a(1) by (auto simp: kernel_serial_pr_def kernel_at_def devices_free_def)
qed simp_all

interpretation kernel_vga: printer "kernel_vga_pr junk" "\<lambda>s. shown (con s)" "fold term_putc" "kernel_at J"
proof
  fix p d fmt va out
  assume a: "kernel_at J p d" "render fmt va = Some out" "0 \<notin> set out" "length out < BUFSZ"
  then obtain c where "vga_pr junk fmt va (con d) = Some c" "console_ready c" "shown c = fold term_putc out (shown (con d))"
    using vga_printer.print_text [of "con d" fmt va out] by (auto simp: kernel_at_def)
  then show "\<exists>d'. kernel_vga_pr junk fmt va d = Some d' \<and> kernel_at J p d' \<and> shown (con d') = fold term_putc out (shown (con d))"
    using a(1) by (auto simp: kernel_vga_pr_def kernel_at_def devices_free_def)
qed simp_all

section \<open>One benchmark\<close>

text \<open>
  A benchmark that leads from \<open>p\<close> to \<open>q\<close>, puts \<open>t\<close> on the serial line while it is measured and nothing on
  the screen, and has a name and a category the program on the host can read.
\<close>

definition bench_acts :: "(nat \<Rightarrow> u16 \<Rightarrow> u32) \<Rightarrow> (kernel \<Rightarrow> bool) \<Rightarrow> kernel benchmark_t \<Rightarrow> byte list \<Rightarrow> (kernel \<Rightarrow> bool) \<Rightarrow> bool" where
  "bench_acts J p b t q \<longleftrightarrow>
     report_ok b ([], t) \<and> 0 \<notin> set (category b) \<and> 0 \<notin> set (bname b) \<and> iteration_count b \<noteq> 0x8000000000000000 \<and> devices_free q \<and>
     (\<exists>f p1 p2. init b = Some f \<and> devices_free p1 \<and> devices_free p2 \<and> acts J p f [] p1 \<and>
       acts J p1 (benchmark_control b) [] p1 \<and> acts J p1 (benchmark b) t p2 \<and> acts J p2 (cleanup b) [] q)"

lemma prints_acts:
  assumes "acts J p f t q" "devices_free q"
  shows "prints (\<lambda>s. sent (ser s)) (\<lambda>b out. out @ b) (kernel_at J p) f t (kernel_at J q)"
    "prints (\<lambda>s. shown (con s)) (fold term_putc) (kernel_at J p) f [] (kernel_at J q)"
proof -
  have "\<exists>s'. f s = Some s' \<and> kernel_at J q s' \<and> sent (ser s') = sent (ser s) @ t \<and> shown (con s') = shown (con s)"
    if "kernel_at J p s" for s
  proof -
    obtain s' where "f s = Some s'" "con s' = con s" "sends t (ser s) (ser s')" "q s'"
      using assms(1) \<open>kernel_at J p s\<close> unfolding acts_def kernel_at_def by blast
    then show ?thesis
      using \<open>kernel_at J p s\<close> assms(2) serial_at_sends [of J "ser s" t "ser s'"] by (auto simp: kernel_at_def sends_def)
  qed
  then show "prints (\<lambda>s. sent (ser s)) (\<lambda>b out. out @ b) (kernel_at J p) f t (kernel_at J q)"
    "prints (\<lambda>s. shown (con s)) (fold term_putc) (kernel_at J p) f [] (kernel_at J q)"
    unfolding prints_def by fastforce+
qed

lemma bench_acts_run:
  assumes "bench_acts J p b t q"
  shows "bench_run (\<lambda>s. sent (ser s)) (\<lambda>b out. out @ b) (kernel_at J) p b ([], t) q"
    "bench_run (\<lambda>s. shown (con s)) (fold term_putc) (kernel_at J) p b ([], []) q"
proof -
  obtain f p1 p2 where a: "init b = Some f" "devices_free p1" "devices_free p2" "acts J p f [] p1"
      "acts J p1 (benchmark_control b) [] p1" "acts J p1 (benchmark b) t p2" "acts J p2 (cleanup b) [] q"
      "report_ok b ([], t)" "iteration_count b \<noteq> 0x8000000000000000" "devices_free q"
      "0 \<notin> set (category b)" "0 \<notin> set (bname b)"
    using assms unfolding bench_acts_def by blast
  then have n: "0 \<notin> set (category b)" "0 \<notin> set (bname b)" "length (category b) + length (bname b) < 1900"
    by (simp_all add: report_ok_def)
  show "bench_run (\<lambda>s. sent (ser s)) (\<lambda>b out. out @ b) (kernel_at J) p b ([], t) q"
    unfolding bench_run_def using a(9) n prints_acts(1) [OF a(4,2)] prints_acts(1) [OF a(5,2)] prints_acts(1) [OF a(6,3)]
      prints_acts(1) [OF a(7,10)] by (auto simp: a(1))
  show "bench_run (\<lambda>s. shown (con s)) (fold term_putc) (kernel_at J) p b ([], []) q"
    unfolding bench_run_def using a(9) n prints_acts(2) [OF a(4,2)] prints_acts(2) [OF a(5,2)] prints_acts(2) [OF a(6,3)]
      prints_acts(2) [OF a(7,10)] by (auto simp: a(1))
qed

fun benches_act :: "(nat \<Rightarrow> u16 \<Rightarrow> u32) \<Rightarrow> (kernel \<Rightarrow> bool) \<Rightarrow> kernel benchmark_t list \<Rightarrow> byte list list \<Rightarrow> (kernel \<Rightarrow> bool) \<Rightarrow> bool" where
  "benches_act J p [] [] q \<longleftrightarrow> p = q"
| "benches_act J p (b # bs) (t # ts) q \<longleftrightarrow> (\<exists>r. bench_acts J p b t r \<and> benches_act J r bs ts q)"
| "benches_act J p _ _ q \<longleftrightarrow> False"

lemma benches_act_runs:
  assumes "benches_act J p bs ts q"
  shows "bench_runs (\<lambda>s. sent (ser s)) (\<lambda>b out. out @ b) (kernel_at J) p bs (map (Pair []) ts) q"
    "bench_runs (\<lambda>s. shown (con s)) (fold term_putc) (kernel_at J) p bs (map (\<lambda>_. ([], [])) ts) q"
    "list_all2 report_ok bs (map (Pair []) ts)"
  using assms
  by (induction J p bs ts q rule: benches_act.induct) (use bench_acts_run in \<open>fastforce simp: bench_acts_def\<close>)+

section \<open>The benchmarks of the image\<close>

definition between :: "kernel \<Rightarrow> addr list \<Rightarrow> nat \<Rightarrow> nat \<Rightarrow> kernel \<Rightarrow> bool" where
  "between s0 ps0 n k = kstate s0 ps0 None (drop n ps0) k"

lemma stages_free:
  "devices_free (between s0 ps0 n k)" "devices_free (kstate s0 ps0 w ps k)" "devices_free (ioram_stage s0 ps0 ps k)"
  "devices_free (saved_stage s0 ps0 ps k)" "devices_free (\<lambda>s. kstate s0 ps0 w ps k s \<and> var_cr3 s = cr3 (hp s))"
  "devices_free (\<lambda>s. kstate s0 ps0 w ps k s \<and> \<not> bit (var_lcr s) 7)"
  "devices_free (\<lambda>s. kstate s0 ps0 w ps k s \<and> var_len s = l)"
  by (simp_all add: devices_free_def between_def ioram_stage_def saved_stage_def)

lemma bench_actsI:
  assumes "acts J p f [] p1" "acts J p1 (benchmark_control b) [] p1" "acts J p1 (benchmark b) t p2" "acts J p2 (cleanup b) [] q"
    and "init b = Some f" "devices_free p1" "devices_free p2" "devices_free q" "report_ok b ([], t)"
    and "0 \<notin> set (category b)" "0 \<notin> set (bname b)" "iteration_count b \<noteq> 0x8000000000000000"
  shows "bench_acts J p b t q"
  unfolding bench_acts_def using assms by blast

lemmas bench_fields = report_ok_def token_def bytes_of_def chr_def isspace_def idle_def sgdt_def sidt_def smsw_def
  pushf_popf_def lgdt_def set_cr3_def ipi_bench_def memory_cold_def memory_hot_def memory_pt_def in_serial_def
  out_serial_def print_bench_def

lemmas controls = idle_control_def sgdt_control_def sidt_control_def smsw_control_def pushf_popf_control_def
  lgdt_control_def set_cr3_control_def ipi_control_def in_control_def out_control_def print_control_def

lemma plain_benches:
  assumes "lcr_ok J"
  shows "bench_acts J (between s0 ps0 n k) idle [] (between s0 ps0 n k)"
    "bench_acts J (between s0 ps0 n k) smsw [] (between s0 ps0 n k)"
    "bench_acts J (between s0 ps0 n k) pushf_popf [] (between s0 ps0 n k)"
    "bench_acts J (between s0 ps0 n k) in_serial [] (between s0 ps0 n k)"
    "bench_acts J (between s0 ps0 n k) out_serial [] (between s0 ps0 n k)"
    "bench_acts J (between s0 ps0 n k) print_bench print_text (between s0 ps0 n k)"
proof -
  let ?p = "kstate s0 ps0 None (drop n ps0) k"
  have noend: "93 \<notin> set print_text"
    by (auto simp: print_text_def)
  have drops: "acts J (\<lambda>s. ?p s \<and> q s) Some [] ?p" for q
    by (rule acts_quiet) simp
  note facts = stages_free bench_fields acts_idle controls idle_kernel_def counts acts_Some acts_smsw acts_in
    acts_out [OF assms] acts_print drops noend
  show "bench_acts J (between s0 ps0 n k) idle [] (between s0 ps0 n k)"
    unfolding between_def by (rule bench_actsI [where ?p2.0 = ?p, OF acts_Some]) (simp_all add: facts)
  show "bench_acts J (between s0 ps0 n k) smsw [] (between s0 ps0 n k)"
    unfolding between_def by (rule bench_actsI [where ?p2.0 = ?p, OF acts_smsw(1)]) (simp_all add: facts)
  show "bench_acts J (between s0 ps0 n k) pushf_popf [] (between s0 ps0 n k)"
    unfolding between_def by (rule bench_actsI [where ?p2.0 = ?p, OF acts_Some]) (simp_all add: facts)
  show "bench_acts J (between s0 ps0 n k) in_serial [] (between s0 ps0 n k)"
    unfolding between_def by (rule bench_actsI [where ?p2.0 = ?p, OF acts_Some]) (simp_all add: facts)
  show "bench_acts J (between s0 ps0 n k) out_serial [] (between s0 ps0 n k)"
    unfolding between_def
    by (rule bench_actsI [where ?p2.0 = "\<lambda>s. ?p s \<and> \<not> bit (var_lcr s) 7", OF acts_out(1) [OF assms]]) (simp_all add: facts)
  show "bench_acts J (between s0 ps0 n k) print_bench print_text (between s0 ps0 n k)"
    unfolding between_def
    by (rule bench_actsI [where ?p2.0 = "\<lambda>s. ?p s \<and> var_len s = 26", OF acts_print(1)]) (simp_all add: facts)
qed

text \<open>Those with pages of their own, which are not given back.\<close>

lemma ioram_benches:
  assumes "pool_ok ps0" "regs_ok b" "n + 2057 \<le> length ps0" "k < 3"
  shows "bench_acts J (between s0 ps0 n k) (sgdt b) [] (between s0 ps0 (n + 2057) (Suc k))"
    "bench_acts J (between s0 ps0 n k) (sidt b) [] (between s0 ps0 (n + 2057) (Suc k))"
    "bench_acts J (between s0 ps0 n k) (lgdt b) [] (between s0 ps0 (n + 2057) (Suc k))"
proof -
  let ?ps = "drop (n + 2057) ps0"
  let ?p = "ioram_stage s0 ps0 ?ps (Suc k)" and ?q = "saved_stage s0 ps0 ?ps (Suc k)"
  have k: "Suc k \<in> {1, 2, 3}"
    using assms(4) by auto
  have start: "acts J (kstate s0 ps0 None (drop n ps0) k) (\<lambda>s. do { s \<leftarrow> k_setup_mmu pr (push_bit 32 1) s; map_ioram pr s }) [] ?p" for pr
    using acts_ioram [of ps0 "drop n ps0" k J s0 pr] assms by (simp add: ioram_stage_def [abs_def] add.commute)
  have init: "acts J (kstate s0 ps0 None (drop n ps0) k) (sgdt_init b) [] ?p"
      "acts J (kstate s0 ps0 None (drop n ps0) k) (sidt_init b) [] ?p"
    using start [of "bprint b"] by (simp_all add: sgdt_init_def [abs_def] sidt_init_def [abs_def])
  have save: "acts J (kstate s0 ps0 None (drop n ps0) k) (lgdt_init b) [] ?q"
    using acts_bind [OF start [of "bprint b"] acts_lgdt(1) [OF assms(1) k assms(2)]] by (simp add: lgdt_init_def [abs_def])
  have ends: "acts J ?p k_switch_to_start_cr3 [] (kstate s0 ps0 None ?ps (Suc k))"
      "acts J ?q k_switch_to_start_cr3 [] (kstate s0 ps0 None ?ps (Suc k))"
    using acts_cleanup by (simp_all add: ioram_stage_def [abs_def] saved_stage_def [abs_def])
  have i: "?q (s\<lparr>var_i := x\<rparr>) = ?q s" for s x
    by (simp add: saved_stage_def)
  note facts = stages_free bench_fields acts_idle controls counts acts_sgdt [OF assms(1) k assms(2)]
    acts_lgdt(2) [OF assms(1) k assms(2)] ends i
  show "bench_acts J (between s0 ps0 n k) (sgdt b) [] (between s0 ps0 (n + 2057) (Suc k))"
    unfolding between_def by (rule bench_actsI [where ?p2.0 = ?p, OF init(1)]) (simp_all add: facts)
  show "bench_acts J (between s0 ps0 n k) (sidt b) [] (between s0 ps0 (n + 2057) (Suc k))"
    unfolding between_def by (rule bench_actsI [where ?p2.0 = ?p, OF init(2)]) (simp_all add: facts)
  show "bench_acts J (between s0 ps0 n k) (lgdt b) [] (between s0 ps0 (n + 2057) (Suc k))"
    unfolding between_def by (rule bench_actsI [where ?p2.0 = ?q, OF save]) (simp_all add: facts)
qed

lemma space_benches:
  assumes "pool_ok ps0" "n + 2054 \<le> length ps0"
  shows "bench_acts J (between s0 ps0 n k) (set_cr3 b) [] (between s0 ps0 (n + 2054) k)"
    "bench_acts J (between s0 ps0 n k) (ipi_bench b) [] (between s0 ps0 (n + 2054) k)"
    "bench_acts J (between s0 ps0 n k) (memory_hot b) [] (between s0 ps0 (n + 2054) k)"
    "bench_acts J (between s0 ps0 n k) (memory_pt b) [] (between s0 ps0 (n + 2054) k)"
proof -
  let ?ps = "drop (n + 2054) ps0"
  let ?s = "kstate s0 ps0 None (drop n ps0) k" and ?p = "kstate s0 ps0 (Some (ident 1048576)) ?ps k"
  let ?q = "\<lambda>s. ?p s \<and> var_cr3 s = cr3 (hp s)"
  have start: "acts J ?s (k_setup_mmu pr (push_bit 32 1)) [] ?p" for pr
    using acts_setup(1) [OF assms(1), of "drop n ps0" J s0 k pr] assms(2) by (simp add: add.commute)
  have "acts J ?p (\<lambda>s. Some (s\<lparr>var_cr3 := cr3 (hp s)\<rparr>)) [] ?q"
    by (rule acts_quiet) simp
  from acts_bind [OF start this] have cr3: "acts J ?s (set_cr3_init b) [] ?q"
    by (simp add: set_cr3_init_def [abs_def])
  have ipi: "acts J ?s (ipi_init b) [] ?p"
    using acts_bind [OF acts_smp_init [of J s0 ps0 None "drop n ps0" k b] start [of "bprint b"]] by (simp add: ipi_init_def [abs_def])
  have hot: "acts J ?s (hot_init b) [] ?p"
    using acts_bind [OF start [of "bprint b"] acts_hot_touch] by (simp add: hot_init_def [abs_def] hot_kernel_def [abs_def] Let_def)
  have ends: "acts J ?p k_switch_to_start_cr3 [] (kstate s0 ps0 None ?ps k)"
      "acts J ?q k_switch_to_start_cr3 [] (kstate s0 ps0 None ?ps k)"
    using acts_cleanup [of J s0 ps0 "ident 1048576" ?ps k "\<lambda>_. True"] acts_cleanup by simp_all
  have pt: "acts J ?s (pt_kernel b) [] ?p"
    using start by (simp add: pt_kernel_def [abs_def])
  note facts = stages_free bench_fields acts_idle controls counts acts_set_cr3 acts_ipi acts_hot_touch acts_controls acts_Some
    pt ends
  show "bench_acts J (between s0 ps0 n k) (set_cr3 b) [] (between s0 ps0 (n + 2054) k)"
    unfolding between_def by (rule bench_actsI [where ?p2.0 = ?q, OF cr3]) (simp_all add: facts)
  show "bench_acts J (between s0 ps0 n k) (ipi_bench b) [] (between s0 ps0 (n + 2054) k)"
    unfolding between_def by (rule bench_actsI [where ?p2.0 = ?p, OF ipi]) (simp_all add: facts)
  show "bench_acts J (between s0 ps0 n k) (memory_hot b) [] (between s0 ps0 (n + 2054) k)"
    unfolding between_def by (rule bench_actsI [where ?p2.0 = ?p, OF hot]) (simp_all add: facts)
  show "bench_acts J (between s0 ps0 n k) (memory_pt b) [] (between s0 ps0 (n + 2054) k)"
    unfolding between_def by (rule bench_actsI [where ?p2.0 = ?p, OF acts_Some]) (simp_all add: facts)
qed

lemma cold_bench:
  assumes "pool_ok ps0" "n + 4106 \<le> length ps0"
  shows "bench_acts J (between s0 ps0 n k) (memory_cold b) [] (between s0 ps0 (n + 4106) k)"
proof -
  let ?p = "kstate s0 ps0 (Some (ident 2097152)) (drop (n + 4106) ps0) k"
  have start: "acts J (kstate s0 ps0 None (drop n ps0) k) (cold_init b) [] ?p"
    using acts_setup(2) [OF assms(1), of "drop n ps0" J s0 k "bprint b"] assms(2) by (simp add: add.commute cold_init_def [abs_def])
  have "acts J ?p k_switch_to_start_cr3 [] (kstate s0 ps0 None (drop (n + 4106) ps0) k)"
    using acts_cleanup [of J s0 ps0 "ident 2097152" "drop (n + 4106) ps0" k "\<lambda>_. True"] by simp
  then show ?thesis
    unfolding between_def by (intro bench_actsI [where ?p2.0 = ?p, OF start])
      (simp_all add: stages_free bench_fields acts_cold acts_controls counts)
qed

text \<open>All of them, in the order of the image.\<close>

definition linked_texts :: "byte list list" where
  "linked_texts = [[], [], [], [], [], [], [], [], [], [], [], [], [], print_text]"

lemma linked_act:
  assumes "pool_ok ps0" "18493 \<le> length ps0" "regs_ok b" "lcr_ok J"
  shows "benches_act J (between s0 ps0 0 0) (linked_benchmarks b) linked_texts (between s0 ps0 18493 3)"
proof -
  note plain = plain_benches [OF assms(4), of s0 ps0]
  have "bench_acts J (between s0 ps0 0 0) (sgdt b) [] (between s0 ps0 2057 1)"
      "bench_acts J (between s0 ps0 2057 1) (sidt b) [] (between s0 ps0 4114 2)"
      "bench_acts J (between s0 ps0 4114 2) (lgdt b) [] (between s0 ps0 6171 3)"
    using ioram_benches(1) [OF assms(1,3), of 0 0 J s0] ioram_benches(2) [OF assms(1,3), of 2057 1 J s0]
      ioram_benches(3) [OF assms(1,3), of 4114 2 J s0] assms(2) by (simp_all add: numeral_2_eq_2 numeral_3_eq_3)
  moreover have "bench_acts J (between s0 ps0 6171 3) (set_cr3 b) [] (between s0 ps0 8225 3)"
      "bench_acts J (between s0 ps0 8225 3) (ipi_bench b) [] (between s0 ps0 10279 3)"
      "bench_acts J (between s0 ps0 10279 3) (memory_cold b) [] (between s0 ps0 14385 3)"
      "bench_acts J (between s0 ps0 14385 3) (memory_hot b) [] (between s0 ps0 16439 3)"
      "bench_acts J (between s0 ps0 16439 3) (memory_pt b) [] (between s0 ps0 18493 3)"
    using space_benches(1) [OF assms(1), of 6171 J s0 3 b] space_benches(2) [OF assms(1), of 8225 J s0 3 b]
      cold_bench [OF assms(1), of 10279 J s0 3 b] space_benches(3) [OF assms(1), of 14385 J s0 3 b]
      space_benches(4) [OF assms(1), of 16439 J s0 3 b] assms(2) by simp_all
  ultimately show ?thesis
    unfolding linked_benchmarks_def linked_texts_def benches_act.simps by (intro exI conjI) (assumption | rule plain refl)+
qed

section \<open>The whole run\<close>

text \<open>
  How the run starts: at least 18493 pages are free, between 1 MiB and the registers at the end of the
  4 GiB, no virtual page was given out, processor 1 is up and takes interrupts, and the devices answer.
\<close>

definition kernel_started :: "addr list \<Rightarrow> kernel \<Rightarrow> bool" where
  "kernel_started ps s \<longleftrightarrow>
     free_pages (hp s) ps \<and> pool_ok ps \<and> 18493 \<le> length ps \<and> lock_v (vlock (hp s)) = 0 \<and> vfree_top (hp s) = 0 \<and>
     cpus_ok s \<and> idt_ok (kdesc s) \<and> serial_ready (ser s) \<and> lcr_ok (inputs (ser s)) \<and> console_ready (con s)"

lemma started_between: "kernel_started ps s \<Longrightarrow> between s ps 0 0 s"
  by (simp add: kernel_started_def between_def kstate_def)

lemma started_at: "kernel_started ps s \<Longrightarrow> kernel_at (inputs (ser s)) (between s ps 0 0) s"
  using started_between [of ps s] by (simp add: kernel_started_def kernel_at_def stages_free serial_at_def)

lemma started_act:
  assumes "kernel_started ps s" "regs_ok b"
  shows "benches_act (inputs (ser s)) (between s ps 0 0) (linked_benchmarks b) linked_texts (between s ps 18493 3)"
  using linked_act [of ps b "inputs (ser s)" s] assms by (simp add: kernel_started_def)

lemma length_linked: "length (linked_benchmarks b) = 14"
  by (simp add: linked_benchmarks_def)

text \<open>What the run leaves behind.\<close>

definition run_left :: "addr list \<Rightarrow> kernel \<Rightarrow> kernel \<Rightarrow> bool" where
  "run_left ps s s' \<longleftrightarrow>
     free_pages (hp s') (drop 18493 ps) \<and> cr3 (hp s') = cr3 (hp s) \<and> gdtr s' = gdtr s \<and>
     (\<forall>x. \<not> scratch_addr x \<longrightarrow> (\<forall>p \<in> set ps. \<not> in_range x p 4096) \<longrightarrow> ram (hp s') x = ram (hp s) x)"

lemma between_left: "between s ps 18493 3 s' \<Longrightarrow> run_left ps s s'"
  by (simp add: between_def kstate_def run_left_def)

lemma linked_vm_did:
  assumes "kernel_started ps (dev s)" "regs_ok b" "reading in_rdx s k < reading in_rdx s 0"
  shows "\<exists>s'. harness_main False in_rdx (kernel_serial_pr junk use_serial) c (linked_benchmarks b) s = Some s' \<and>
    run_left ps (dev s) (dev s') \<and>
    sent (ser (dev s')) = sent (ser (dev s)) @ harness_text (vm_lines (linked_benchmarks b) (map (Pair []) linked_texts))"
  using kernel_serial.did_harness_vm [OF started_at [OF assms(1)] benches_act_runs(1) [OF started_act [OF assms(1,2)]] assms(3),
      of junk use_serial c] by (auto simp: did_def kernel_at_def between_left)

text \<open>
  C6. The bare-metal build of the whole kernel: when the run starts as above, the harness returns from
  the fourteen benchmarks linked into the image and the screen shows the line of each with the
  differences of the four reads of the counter. The page tables that were loaded are loaded again
  and the same descriptor table is in use; memory outside the free pages changed at most below 1
  MiB and in the page at \<open>IORAM_BASE_PHYS\<close>. Exactly 18493 pages were taken from the free list and
  never given back.
\<close>

theorem bare_kernel_run:
  assumes "kernel_started ps (dev s)" "regs_ok b" "\<forall>i<14. bare_times_ok (tsc s) (tsc_reads s + 4 * i)"
  shows "\<exists>s'. harness_main True in_rdx (kernel_vga_pr junk) c (linked_benchmarks b) s = Some s' \<and>
    run_left ps (dev s) (dev s') \<and>
    shown (con (dev s')) = fold term_putc (harness_text (bare_lines (tsc s) (tsc_reads s) (linked_benchmarks b)
      (replicate 14 ([], [])))) (shown (con (dev s)))"
proof -
  have "map (\<lambda>_. ([], [])) linked_texts = replicate 14 ([] :: byte list, [] :: byte list)"
    by (simp add: linked_texts_def numeral_eq_Suc)
  then show ?thesis
    using kernel_vga.did_harness_bare [OF started_at [OF assms(1)] benches_act_runs(2) [OF started_act [OF assms(1,2)]],
        unfolded length_linked, OF assms(3), of in_rdx junk c] by (auto simp: did_def kernel_at_def between_left)
qed

lemma distinct_accesses: "distinct (map cold_page [0..<100000])" "distinct (map hot_page [0..<100000])"
proof -
  have "inj_on cold_page {0..<100000}" "inj_on hot_page {0..<100000}"
    by (auto simp: inj_on_def dest!: arg_cong [of _ _ unat] simp: access_pages_unat)
  then show "distinct (map cold_page [0..<100000])" "distinct (map hot_page [0..<100000])"
    by (simp_all add: distinct_map)
qed


section \<open>Witnesses\<close>

text \<open>The operand register of the instructions that store happens to hold the right address.\<close>

definition example_build :: "kernel print \<Rightarrow> build" where
  "example_build pr = \<lparr>bprint = pr, stubs = \<lambda>i. 0x100000 + 16 * of_nat i, idt_at = 0x7000, ipi_entry_at = 0x6000,
     reg_sgdt = var_mem, reg_sidt = var_mem, reg_lgdt = var_mem\<rparr>"

definition example_kernel :: "heap \<Rightarrow> kernel" where
  "example_kernel h = \<lparr>ser = example_serial, con = example_console, hp = h,
     kdesc = example_desc\<lparr>cpu := quiet_machine\<lparr>apic_ops := X2apic_ops\<rparr>\<rparr>, ksmp = example_smp (\<lambda>_. 0x202), kmp = two_cpus, me = 0,
     gdtr = (0x7f, 0x8000), measured = [], var_i = 0, var_mem = 0, var_msw = 0, var_msw_orig = 0, var_cr3 = 0, var_ptr = 0,
     var_address = 0, var_lcr = 0, var_len = 0\<rparr>"

lemma example_build_ok: "regs_ok (example_build pr)"
  by (simp add: regs_ok_def example_build_def)

lemma example_pool: "pool_ok (pages 0x200000 18493)"
proof -
  have "unat (0x200000 + 4096 * of_nat i :: u64) = 0x200000 + 4096 * i" if "i < 18493" for i
    using that by (simp add: page_offset_unat unat_plus_u64)
  then show ?thesis
    by (auto simp: pool_ok_def pages_def)
qed

lemma example_started:
  "\<exists>h. get_free_pages 0x200000 (4096 * of_nat 18493) boot_heap = Some (h, 0x200000) \<and>
     kernel_started (pages 0x200000 18493) (example_kernel h)"
proof -
  obtain m where m: "get_free_pages 0x200000 (4096 * of_nat 18493) boot_heap = Some (boot_heap\<lparr>freelist := 0x200000, ram := m\<rparr>, 0x200000)"
      "free_pages (boot_heap\<lparr>freelist := 0x200000, ram := m\<rparr>) (pages 0x200000 18493)"
    using get_free_pages_eq [of "0x200000" 18493 boot_heap "[]"] boot_heap_empty by (auto simp: page_aligned_def)
  have "interrupts_on (quiet_machine\<lparr>eflags := 0x202, apic_ops := X2apic_ops\<rparr>)"
    by code_simp
  then have "cpus_ok (example_kernel h)" for h
    by (simp add: cpus_ok_def example_kernel_def example_smp_def smp_quiet_def two_cpus_def example_desc_def)
  moreover have "serial_ready (ser (example_kernel h))" for h
    using example_serial_ready(1) by (simp add: example_kernel_def)
  moreover have "idt_ok (kdesc (example_kernel h))" "lcr_ok (inputs (ser (example_kernel h)))"
      "console_ready (con (example_kernel h))" for h
    by (simp_all add: example_kernel_def idt_ok_def example_desc_def lcr_ok_def example_serial_def
        console_ready_def console_ok_unat example_console_def)
  ultimately have "kernel_started (pages 0x200000 18493) (example_kernel (boot_heap\<lparr>freelist := 0x200000, ram := m\<rparr>))"
    using m(2) example_pool by (simp add: kernel_started_def example_kernel_def boot_heap_def)
  then show ?thesis
    using m(1) by blast
qed

theorem bare_kernel_run_witness:
  "\<exists>h s'. get_free_pages 0x200000 (4096 * of_nat 18493) boot_heap = Some (h, 0x200000) \<and>
     harness_main True False (kernel_vga_pr (\<lambda>_. 0)) (0, 0) (linked_benchmarks (example_build (kernel_vga_pr (\<lambda>_. 0))))
       \<lparr>dev = example_kernel h, tsc = of_nat, tsc_reads = 0\<rparr> = Some s' \<and>
     run_left (pages 0x200000 18493) (example_kernel h) (dev s')"
proof -
  obtain h where h: "get_free_pages 0x200000 (4096 * of_nat 18493) boot_heap = Some (h, 0x200000)"
      "kernel_started (pages 0x200000 18493) (example_kernel h)"
    using example_started by blast
  let ?s = "\<lparr>dev = example_kernel h, tsc = of_nat, tsc_reads = 0\<rparr>"
  have "\<forall>i<14. bare_times_ok (tsc ?s) (tsc_reads ?s + 4 * i)"
    by (simp add: bare_times_ok_def)
  with bare_kernel_run [of "pages 0x200000 18493" ?s "example_build (kernel_vga_pr (\<lambda>_. 0))" False "\<lambda>_. 0" "(0, 0)"] h
    example_build_ok show ?thesis
    by auto
qed


end
