(* ===== verification/Segments.thy ===== *)
theory Segments
  imports Heap
begin

text \<open>
  Segment descriptors and the address macros (\<open>include/mmu.h\<close>, \<open>include/asm.h\<close>,
  \<open>include/memlayout.h\<close>), the selectors of \<open>include/desc.h\<close>, and the two descriptor tables of
  \<open>x86_64/cstart.S\<close>. A bit field of \<open>n\<close> bits is an \<open>n word\<close>.
\<close>

section \<open>Segment descriptors\<close>

record segdesc =
  lim_15_0 :: "16 word"
  base_15_0 :: "16 word"
  base_23_16 :: "8 word"
  seg_type :: "4 word"
  seg_s :: "1 word"
  seg_dpl :: "2 word"
  seg_p :: "1 word"
  lim_19_16 :: "4 word"
  seg_avl :: "1 word"
  seg_rsv1 :: "1 word"
  seg_db :: "1 word"
  seg_g :: "1 word"
  base_31_24 :: "8 word"

definition SEG :: "u32 \<Rightarrow> u32 \<Rightarrow> u32 \<Rightarrow> u32 \<Rightarrow> segdesc" where
  "SEG type base lim dpl =
     \<lparr>lim_15_0 = ucast (drop_bit 12 lim AND 0xffff), base_15_0 = ucast (base AND 0xffff),
      base_23_16 = ucast (drop_bit 16 base AND 0xff), seg_type = ucast type, seg_s = 1, seg_dpl = ucast dpl, seg_p = 1,
      lim_19_16 = ucast (drop_bit 28 lim), seg_avl = 0, seg_rsv1 = 0, seg_db = 1, seg_g = 1,
      base_31_24 = ucast (drop_bit 24 base)\<rparr>"

definition SEG16 :: "u32 \<Rightarrow> u32 \<Rightarrow> u32 \<Rightarrow> u32 \<Rightarrow> segdesc" where
  "SEG16 type base lim dpl =
     \<lparr>lim_15_0 = ucast (lim AND 0xffff), base_15_0 = ucast (base AND 0xffff),
      base_23_16 = ucast (drop_bit 16 base AND 0xff), seg_type = ucast type, seg_s = 1, seg_dpl = ucast dpl, seg_p = 1,
      lim_19_16 = ucast (drop_bit 16 lim), seg_avl = 0, seg_rsv1 = 0, seg_db = 1, seg_g = 0,
      base_31_24 = ucast (drop_bit 24 base)\<rparr>"

text \<open>The eight bytes the assembler macros lay down.\<close>

definition word_bytes :: "u32 \<Rightarrow> byte list" where
  "word_bytes w = [ucast w, ucast (drop_bit 8 w)]"

definition SEG_NULLASM :: "byte list" where
  "SEG_NULLASM = word_bytes 0 @ word_bytes 0 @ [0, 0, 0, 0]"

definition SEG_ASM :: "u32 \<Rightarrow> u32 \<Rightarrow> u32 \<Rightarrow> byte list" where
  "SEG_ASM type base lim =
     word_bytes (drop_bit 12 lim AND 0xffff) @ word_bytes (base AND 0xffff) @
     [ucast (drop_bit 16 base AND 0xff), ucast (0x90 OR type), ucast (0xC0 OR (drop_bit 28 lim AND 0xf)),
      ucast (drop_bit 24 base AND 0xff)]"

text \<open>The bytes of the bit fields in memory, and the fields of a quadword.\<close>

definition seg_bytes :: "segdesc \<Rightarrow> byte list" where
  "seg_bytes d = [ucast (lim_15_0 d), ucast (drop_bit 8 (lim_15_0 d)), ucast (base_15_0 d), ucast (drop_bit 8 (base_15_0 d)),
     base_23_16 d,
     ucast (seg_type d) OR push_bit 4 (ucast (seg_s d)) OR push_bit 5 (ucast (seg_dpl d)) OR push_bit 7 (ucast (seg_p d)),
     ucast (lim_19_16 d) OR push_bit 4 (ucast (seg_avl d)) OR push_bit 5 (ucast (seg_rsv1 d)) OR push_bit 6 (ucast (seg_db d)) OR
       push_bit 7 (ucast (seg_g d)),
     base_31_24 d]"

definition quad_seg :: "u64 \<Rightarrow> segdesc" where
  "quad_seg q = \<lparr>lim_15_0 = ucast q, base_15_0 = ucast (drop_bit 16 q), base_23_16 = ucast (drop_bit 32 q),
     seg_type = ucast (drop_bit 40 q), seg_s = ucast (drop_bit 44 q), seg_dpl = ucast (drop_bit 45 q),
     seg_p = ucast (drop_bit 47 q), lim_19_16 = ucast (drop_bit 48 q), seg_avl = ucast (drop_bit 52 q),
     seg_rsv1 = ucast (drop_bit 53 q), seg_db = ucast (drop_bit 54 q), seg_g = ucast (drop_bit 55 q),
     base_31_24 = ucast (drop_bit 56 q)\<rparr>"

text \<open>What a descriptor means to the processor.\<close>

definition seg_base :: "segdesc \<Rightarrow> u32" where
  "seg_base d = ucast (base_15_0 d) OR push_bit 16 (ucast (base_23_16 d)) OR push_bit 24 (ucast (base_31_24 d))"

definition seg_limit :: "segdesc \<Rightarrow> u32" where
  "seg_limit d = (let l = ucast (lim_15_0 d) OR push_bit 16 (ucast (lim_19_16 d)) in
     if seg_g d = 1 then push_bit 12 l OR 0xfff else l)"

lemma byte_eqI:
  fixes a b :: byte
  assumes "bit a 0 = bit b 0" "bit a 1 = bit b 1" "bit a 2 = bit b 2" "bit a 3 = bit b 3" "bit a 4 = bit b 4"
    "bit a 5 = bit b 5" "bit a 6 = bit b 6" "bit a 7 = bit b 7"
  shows "a = b"
proof (rule bit_word_eqI)
  fix n
  assume "n < LENGTH(8)"
  then have "n \<in> {0, 1, 2, 3, 4, 5, 6, 7}"
    by auto
  then show "bit a n = bit b n"
    using assms by auto
qed

lemma halves:
  "(ucast (ucast (drop_bit k q) :: 16 word) :: byte) = ucast (drop_bit k (q :: u64))"
  "(ucast (drop_bit 8 (ucast (drop_bit k q) :: 16 word)) :: byte) = ucast (drop_bit (k + 8) (q :: u64))"
  by (rule byte_eqI; simp add: bit_simps ac_simps)+

lemma type_byte: "ucast (ucast (drop_bit 40 q) :: 4 word) OR push_bit 4 (ucast (ucast (drop_bit 44 q) :: 1 word)) OR
      push_bit 5 (ucast (ucast (drop_bit 45 q) :: 2 word)) OR push_bit 7 (ucast (ucast (drop_bit 47 q) :: 1 word)) =
      (ucast (drop_bit 40 q :: u64) :: byte)"
  by (rule byte_eqI; simp add: bit_simps)

lemma limit_byte: "ucast (ucast (drop_bit 48 q) :: 4 word) OR push_bit 4 (ucast (ucast (drop_bit 52 q) :: 1 word)) OR
      push_bit 5 (ucast (ucast (drop_bit 53 q) :: 1 word)) OR push_bit 6 (ucast (ucast (drop_bit 54 q) :: 1 word)) OR
      push_bit 7 (ucast (ucast (drop_bit 55 q) :: 1 word)) = (ucast (drop_bit 48 q :: u64) :: byte)"
  by (rule byte_eqI; simp add: bit_simps)

text \<open>Reading a quadword as a descriptor loses nothing.\<close>

lemma seg_bytes_quad: "seg_bytes (quad_seg q) = map (byte_of q) [0, 1, 2, 3, 4, 5, 6, 7]"
  using halves [of 0 q] halves [of 16 q] by (simp add: seg_bytes_def quad_seg_def byte_of_def type_byte limit_byte)

lemma small_type_bits:
  assumes "type < (16 :: u32)" "4 \<le> n"
  shows "\<not> bit type n"
proof -
  have "take_bit 4 type = type"
    using assms(1) by (intro word_eq_of_unat) (simp add: unsigned_take_bit_eq take_bit_nat_eq_self word_less_nat_alt)
  then show ?thesis
    using assms(2) by (metis bit_take_bit_iff not_le)
qed

lemma seg_asm_bytes:
  assumes "type < 16"
  shows "ucast (ucast type :: 4 word) OR push_bit 4 1 OR push_bit 7 1 = (ucast (0x90 OR type :: u32) :: byte)"
    "ucast (ucast (drop_bit 28 lim) :: 4 word) OR push_bit 6 1 OR push_bit 7 1 = (ucast (0xC0 OR (drop_bit 28 lim AND 0xf) :: u32) :: byte)"
proof -
  have "\<not> bit type n" if "4 \<le> n" for n
    using small_type_bits [OF assms that] .
  then show "ucast (ucast type :: 4 word) OR push_bit 4 1 OR push_bit 7 1 = (ucast (0x90 OR type :: u32) :: byte)"
    by (intro byte_eqI) (simp_all add: bit_simps bit_numeral_rec)
  show "ucast (ucast (drop_bit 28 lim) :: 4 word) OR push_bit 6 1 OR push_bit 7 1 = (ucast (0xC0 OR (drop_bit 28 lim AND 0xf) :: u32) :: byte)"
    by (rule byte_eqI) (simp_all add: bit_simps bit_numeral_rec)
qed

section \<open>Gates of 32-bit handlers\<close>

record gatedesc =
  off_15_0 :: "16 word"
  gate_cs :: "16 word"
  gate_args :: "5 word"
  gate_rsv1 :: "3 word"
  gate_type :: "4 word"
  gate_s :: "1 word"
  gate_dpl :: "2 word"
  gate_p :: "1 word"
  off_31_16 :: "16 word"

definition STS_IG32 :: u32 where "STS_IG32 = 0xE"
definition STS_TG32 :: u32 where "STS_TG32 = 0xF"

definition SETGATE :: "gatedesc \<Rightarrow> bool \<Rightarrow> u32 \<Rightarrow> u32 \<Rightarrow> u32 \<Rightarrow> gatedesc" where
  "SETGATE gate istrap sel off d = gate
     \<lparr>off_15_0 := ucast (off AND 0xffff), gate_cs := ucast sel, gate_args := 0, gate_rsv1 := 0,
      gate_type := ucast (if istrap then STS_TG32 else STS_IG32), gate_s := 0, gate_dpl := ucast d, gate_p := 1,
      off_31_16 := ucast (drop_bit 16 off)\<rparr>"

section \<open>Addresses\<close>

definition PTXSHIFT :: nat where "PTXSHIFT = 12"
definition PDXSHIFT :: nat where "PDXSHIFT = 22"
definition PGSIZE :: u64 where "PGSIZE = push_bit 12 1"

definition PDX :: "u64 \<Rightarrow> u32" where "PDX va = drop_bit PDXSHIFT (ucast va) AND 0x3FF"
definition PTX :: "u64 \<Rightarrow> u32" where "PTX va = drop_bit PTXSHIFT (ucast va) AND 0x3FF"

definition PGADDR :: "u32 \<Rightarrow> u32 \<Rightarrow> u32 \<Rightarrow> u32" where
  "PGADDR d t off = push_bit PDXSHIFT d OR push_bit PTXSHIFT t OR off"

definition PGROUNDUP :: "u64 \<Rightarrow> u64" where "PGROUNDUP sz = (sz + PGSIZE - 1) AND NOT (PGSIZE - 1)"
definition PGROUNDDOWN :: "u64 \<Rightarrow> u64" where "PGROUNDDOWN a = a AND NOT (PGSIZE - 1)"

definition PTE_ADDR :: "u64 \<Rightarrow> u32" where "PTE_ADDR pte = ucast pte AND NOT 0xFFF"
definition PTE_FLAGS :: "u64 \<Rightarrow> u32" where "PTE_FLAGS pte = ucast pte AND 0xFFF"

definition KERNBASE :: u32 where "KERNBASE = 0x80000000"
definition V2P :: "u64 \<Rightarrow> u32" where "V2P a = ucast a - KERNBASE"
definition P2V :: "u64 \<Rightarrow> u64" where "P2V a = a + ucast KERNBASE"

lemma masks: "(0xFFF :: u32) = mask 12" "(0x3FF :: u32) = mask 10" "(0xffff :: u32) = mask 16" "(0xff :: u32) = mask 8"
  by (simp_all add: mask_eq_exp_minus_1)

lemma ucast_add: "(ucast (a + b :: u64) :: u32) = ucast a + ucast b"
  by (rule word_eq_of_unat) (simp add: unat_word_ariths unsigned_ucast_eq take_bit_eq_mod [where ?'a = nat] mod_simps mod_mod_cancel)

text \<open>The parts of an address and of an entry make up the whole; translation to physical addresses is undone.\<close>

lemma address_parts:
  "PGADDR (PDX va) (PTX va) (ucast va AND 0xFFF) = ucast va"
  "PTE_ADDR pte OR PTE_FLAGS pte = ucast pte" "V2P (P2V a) = ucast a"
proof -
  show "PGADDR (PDX va) (PTX va) (ucast va AND 0xFFF) = ucast va"
    unfolding PGADDR_def PDX_def PTX_def PDXSHIFT_def PTXSHIFT_def masks
  proof (rule bit_word_eqI)
    fix n
    show "bit (push_bit 22 (drop_bit 22 (ucast va) AND mask 10) OR push_bit 12 (drop_bit 12 (ucast va) AND mask 10) OR
        (ucast va AND mask 12) :: u32) n = bit (ucast va :: u32) n"
      by (cases "n < 22") (auto simp: bit_simps)
  qed
  show "PTE_ADDR pte OR PTE_FLAGS pte = ucast pte"
    unfolding PTE_ADDR_def PTE_FLAGS_def masks by (rule bit_word_eqI) (auto simp: bit_simps)
  show "V2P (P2V a) = ucast a"
    by (simp add: V2P_def P2V_def KERNBASE_def ucast_add)
qed

text \<open>Rounding is the one of the page allocator, and a gate leads to the offset it was set to.\<close>

lemma PGROUNDUP_page_up: "PGROUNDUP sz = page_up sz" "PGROUNDDOWN a = a AND - PAGE_SIZE"
  by (simp_all add: PGROUNDUP_def PGROUNDDOWN_def page_up_def PGSIZE_def PAGE_SIZE_def)

lemma SETGATE_offset:
  "push_bit 16 (ucast (off_31_16 (SETGATE g istrap sel off d))) OR ucast (off_15_0 (SETGATE g istrap sel off d)) = off"
proof (rule bit_word_eqI)
  fix n
  show "bit (push_bit 16 (ucast (off_31_16 (SETGATE g istrap sel off d))) OR
      ucast (off_15_0 (SETGATE g istrap sel off d)) :: u32) n = bit off n"
    by (cases "n < 16") (auto simp: SETGATE_def masks bit_simps dest: bit_imp_le_length)
qed

section \<open>The descriptor tables of the image\<close>

definition gdt32 :: "u64 list" where
  "gdt32 = [0, 0x00cf9b000000ffff, 0x00cf93000000ffff]"

text \<open>The four words of the entry at 0x50 are one quadword.\<close>

definition quad_of_words :: "u16 \<Rightarrow> u16 \<Rightarrow> u16 \<Rightarrow> u16 \<Rightarrow> u64" where
  "quad_of_words a b c d = ucast a OR push_bit 16 (ucast b) OR push_bit 32 (ucast c) OR push_bit 48 (ucast d)"

definition gdt64 :: "u64 list" where
  "gdt64 =
     [0,
      0x00af9b000000ffff,
      0x00cf93000000ffff,
      0x00af1b000000ffff,
      0x00cf9b000000ffff,
      0x008f9b000000FFFF,
      0x008f93000000FFFF,
      0x00cffb000000ffff,
      0x00cff3000000ffff,
      0x00affb000000ffff,
      quad_of_words 0xffff 0x0 0x9200 0x00cf,
      0, 0, 0, 0, 0]"

definition gdt64_limit :: u16 where "gdt64_limit = of_nat (8 * length gdt64) - 1"
definition gdt32_limit :: u16 where "gdt32_limit = of_nat (8 * length gdt32) - 1"

text \<open>The selectors.\<close>

definition SEG_KDATA :: u16 where "SEG_KDATA = 2"

definition KERNEL_CS :: u16 where "KERNEL_CS = 0x08"
definition KERNEL_DS :: u16 where "KERNEL_DS = 0x10"
definition NP_SEL :: u16 where "NP_SEL = 0x18"
definition KERNEL_CS32 :: u16 where "KERNEL_CS32 = 0x20"
definition KERNEL_CS16 :: u16 where "KERNEL_CS16 = 0x28"
definition KERNEL_DS16 :: u16 where "KERNEL_DS16 = 0x30"
definition USER_CS32 :: u16 where "USER_CS32 = 0x3b"
definition USER_DS :: u16 where "USER_DS = 0x43"
definition USER_CS64 :: u16 where "USER_CS64 = 0x4b"
definition FIRST_SPARE_SEL :: u16 where "FIRST_SPARE_SEL = 0x50"
definition TSS_MAIN :: u16 where "TSS_MAIN = 0x80"

text \<open>What kind of segment a descriptor is: of how many bits, of which ring, and whether it is present.\<close>

datatype seg_kind = Null_seg | Code_seg nat nat bool | Data_seg nat bool | System_seg

definition kind_of :: "segdesc \<Rightarrow> seg_kind" where
  "kind_of d =
     (if seg_bytes d = [0, 0, 0, 0, 0, 0, 0, 0] then Null_seg
      else if seg_s d = 0 then System_seg
      else if bit (seg_type d) 3
        then Code_seg (if seg_rsv1 d = 1 then 64 else if seg_db d = 1 then 32 else 16) (unat (seg_dpl d)) (seg_p d = 1)
      else Data_seg (unat (seg_dpl d)) (seg_p d = 1))"

text \<open>The descriptor of a selector in a table; \<open>None\<close> beyond its limit.\<close>

definition descriptor :: "u64 list \<Rightarrow> u16 \<Rightarrow> segdesc option" where
  "descriptor gdt sel = (let i = unat (drop_bit 3 sel) in if i < length gdt then Some (quad_seg (gdt ! i)) else None)"

definition rpl :: "u16 \<Rightarrow> nat" where "rpl sel = unat (take_bit 2 sel)"

text \<open>The column of the comment in \<open>include/desc.h\<close> for the 64-bit build, by the names of the selectors.\<close>

definition documented :: "(u16 \<times> seg_kind) list" where
  "documented =
     [(0, Null_seg), (KERNEL_CS, Code_seg 64 0 True), (KERNEL_DS, Data_seg 0 True), (NP_SEL, Code_seg 64 0 False),
      (KERNEL_CS32, Code_seg 32 0 True), (KERNEL_CS16, Code_seg 16 0 True), (KERNEL_DS16, Data_seg 0 True),
      (USER_CS32, Code_seg 32 3 True), (USER_DS, Data_seg 3 True), (USER_CS64, Code_seg 64 3 True)]"

section \<open>Properties\<close>



lemma seg_limit_SEG: "seg_limit (SEG type base lim dpl) = lim OR 0xfff" "seg_limit (SEG16 type base lim dpl) = take_bit 20 lim"
proof -
  have "bit (push_bit 12 (ucast (ucast (drop_bit 12 lim AND mask 16) :: 16 word) OR
      push_bit 16 (ucast (ucast (drop_bit 28 lim) :: 4 word))) OR mask 12 :: u32) n = bit (lim OR mask 12) n" for n
    by (cases "n < 28") (auto simp: bit_simps dest: bit_imp_le_length)
  then show "seg_limit (SEG type base lim dpl) = lim OR 0xfff"
    by (intro bit_word_eqI) (simp add: seg_limit_def SEG_def Let_def masks)
  have "bit (ucast (ucast (lim AND mask 16) :: 16 word) OR push_bit 16 (ucast (ucast (drop_bit 16 lim) :: 4 word)) :: u32) n =
      bit (take_bit 20 lim) n" for n
    by (cases "n < 16") (auto simp: bit_simps)
  then show "seg_limit (SEG16 type base lim dpl) = take_bit 20 lim"
    by (intro bit_word_eqI) (simp add: seg_limit_def SEG16_def Let_def masks)
qed

lemma base_parts: "ucast (ucast (b AND mask 16) :: 16 word) OR push_bit 16 (ucast (ucast (drop_bit 16 b AND mask 8) :: 8 word)) OR
    push_bit 24 (ucast (ucast (drop_bit 24 b) :: 8 word)) = (b :: u32)"
proof (rule bit_word_eqI)
  fix n
  show "bit (ucast (ucast (b AND mask 16) :: 16 word) OR push_bit 16 (ucast (ucast (drop_bit 16 b AND mask 8) :: 8 word)) OR
    push_bit 24 (ucast (ucast (drop_bit 24 b) :: 8 word)) :: u32) n = bit b n"
    by (cases "n < 16"; cases "n < 24") (auto simp: bit_simps dest: bit_imp_le_length)
qed

text \<open>
  The macros for segments agree: \<open>SEG_ASM\<close> lays down the bytes of the descriptor that \<open>SEG\<close> makes for
  ring 0, whose base is the one asked for and whose limit is the one asked for rounded up to the end
  of its page; \<open>SEG16\<close> has the same base and the low 20 bits of the limit.
\<close>

theorem seg_macros_agree:
  assumes "type < 16"
  shows "SEG_ASM type base lim = seg_bytes (SEG type base lim 0) \<and> seg_base (SEG type base lim dpl) = base \<and>
    seg_limit (SEG type base lim dpl) = lim OR 0xfff \<and> seg_base (SEG16 type base lim dpl) = base \<and>
    seg_limit (SEG16 type base lim dpl) = take_bit 20 lim"
proof -
  have b: "seg_base (SEG type base lim dpl) = base" "seg_base (SEG16 type base lim dpl) = base"
    using base_parts [of base] by (simp_all add: seg_base_def SEG_def SEG16_def masks)
  have "(ucast (ucast (x AND mask 16) :: 16 word) :: byte) = ucast (x AND mask 16)"
      "(ucast (drop_bit 8 (ucast (x AND mask 16) :: 16 word)) :: byte) = ucast (drop_bit 8 (x AND mask 16))"
      "(ucast (x AND mask 8) :: byte) = ucast x" for x :: u32
    by (rule byte_eqI; simp add: bit_simps)+
  then have "SEG_ASM type base lim = seg_bytes (SEG type base lim 0)"
    using seg_asm_bytes(1) [OF assms] seg_asm_bytes(2) [OF assms, of lim] by (simp add: SEG_ASM_def seg_bytes_def SEG_def word_bytes_def masks)
  with b seg_limit_SEG show ?thesis
    by blast
qed

theorem seg_macros_witness:
  "SEG_ASM 0xA 0x12345678 0xffffffff = seg_bytes (SEG 0xA 0x12345678 0xffffffff 0)"
  using seg_macros_agree [of "0xA" "0x12345678" "0xffffffff" 0] by simp

end
