(* ===== verification/Entry.thy ===== *)
theory Entry
  imports Segments Bootmap Boot
begin

text \<open>
  The entry code in \<open>x86_64/cstart.S\<close>: from the boot loader to \<open>main\<close> on the boot processor, and from
  the start-up interrupt to \<open>mpenter\<close> on the others. The instructions that switch modes are functions
  that fail where the processor raises an exception; the addresses of labels are arguments.
\<close>

section \<open>The processor\<close>

record core =
  c_cr0 :: u32
  c_cr3 :: u32
  c_cr4 :: u32
  c_efer :: u64
  c_gdtr :: "u16 \<times> u32"
  c_cs :: segdesc
  c_ds :: "segdesc option"
  c_esp :: u32

definition pe :: "core \<Rightarrow> bool" where "pe s \<longleftrightarrow> bit (c_cr0 s) 0"
definition paging :: "core \<Rightarrow> bool" where "paging s \<longleftrightarrow> bit (c_cr0 s) 31"
definition pae :: "core \<Rightarrow> bool" where "pae s \<longleftrightarrow> bit (c_cr4 s) 5"
definition lme :: "core \<Rightarrow> bool" where "lme s \<longleftrightarrow> bit (c_efer s) 8"

text \<open>Long mode is active when paging is on and was turned on with \<open>IA32_EFER.LME\<close> set.\<close>

definition lma :: "core \<Rightarrow> bool" where "lma s \<longleftrightarrow> paging s \<and> lme s"

datatype cpu_mode = Real_mode | Protected16 | Protected32 | Compatibility | Long64

definition mode :: "core \<Rightarrow> cpu_mode" where
  "mode s =
     (if \<not> pe s then Real_mode
      else if lma s then (if seg_rsv1 (c_cs s) = 1 then Long64 else Compatibility)
      else if seg_db (c_cs s) = 1 then Protected32 else Protected16)"

text \<open>Writes of the control registers; the processor refuses paging without protection or, for long mode, without \<open>CR4.PAE\<close>.\<close>

definition mov_cr0 :: "u32 \<Rightarrow> core \<Rightarrow> core option" where
  "mov_cr0 v s =
     (if bit v 31 \<and> \<not> bit v 0 \<or> bit v 31 \<and> \<not> paging s \<and> lme s \<and> \<not> pae s then None else Some (s\<lparr>c_cr0 := v\<rparr>))"

definition mov_cr3 :: "u32 \<Rightarrow> core \<Rightarrow> core" where "mov_cr3 v s = s\<lparr>c_cr3 := v\<rparr>"

definition mov_cr4 :: "u32 \<Rightarrow> core \<Rightarrow> core option" where
  "mov_cr4 v s = (if lma s \<and> \<not> bit v 5 then None else Some (s\<lparr>c_cr4 := v\<rparr>))"

definition wrmsr_efer :: "u64 \<Rightarrow> core \<Rightarrow> core option" where
  "wrmsr_efer v s = (if paging s \<and> bit v 8 \<noteq> lme s then None else Some (s\<lparr>c_efer := v\<rparr>))"

definition lgdt32 :: "mem \<Rightarrow> addr \<Rightarrow> core \<Rightarrow> core" where
  "lgdt32 m a s = s\<lparr>c_gdtr := (load16 m a, load32 m (a + 2))\<rparr>"

text \<open>The descriptor a selector leads to, at privilege level 0.\<close>

definition fetch_desc :: "mem \<Rightarrow> u16 \<Rightarrow> core \<Rightarrow> segdesc option" where
  "fetch_desc m sel s = (case c_gdtr s of (limit, base) \<Rightarrow>
     let off = 8 * unat (drop_bit 3 sel) in
     if off = 0 \<or> unat limit < off + 7 then None else Some (quad_seg (load64 m (ucast base + of_nat off))))"

definition far_jump :: "mem \<Rightarrow> u16 \<Rightarrow> core \<Rightarrow> core option" where
  "far_jump m sel s =
     do { d \<leftarrow> fetch_desc m sel s;
          if seg_s d = 1 \<and> bit (seg_type d) 3 \<and> seg_p d = 1 \<and> seg_dpl d = 0 \<and> \<not> (lma s \<and> seg_rsv1 d = 1 \<and> seg_db d = 1)
          then Some (s\<lparr>c_cs := d\<rparr>) else None }"

definition mov_data_segs :: "mem \<Rightarrow> u16 \<Rightarrow> core \<Rightarrow> core option" where
  "mov_data_segs m sel s =
     do { d \<leftarrow> fetch_desc m sel s;
          if seg_s d = 1 \<and> \<not> bit (seg_type d) 3 \<and> bit (seg_type d) 1 \<and> seg_p d = 1 \<and> seg_dpl d = 0
          then Some (s\<lparr>c_ds := Some d\<rparr>) else None }"

section \<open>The code\<close>

text \<open>Where the linker puts the labels; \<open>sipi_len\<close> is \<open>sipi_end - sipi_entry\<close>.\<close>

record labels =
  at_sipi_entry :: addr
  sipi_len :: nat
  at_gdt32_descr :: addr
  at_gdt32 :: addr
  at_pt_root :: addr
  at_mb_boot_info :: addr
  at_mb_magic :: addr
  at_ptl2 :: addr
  at_gdt64_desc :: addr
  at_gdt64 :: addr
  at_stacktop :: u32

definition enter_long_mode :: "mem \<Rightarrow> labels \<Rightarrow> core \<Rightarrow> core option" where
  "enter_long_mode m l s =
     do { s \<leftarrow> mov_cr4 (set_bit 5 (c_cr4 s)) s;
          let s = mov_cr3 (load32 m (at_pt_root l)) s;
          s \<leftarrow> wrmsr_efer (set_bit 8 (c_efer s)) s;
          mov_cr0 (set_bit 31 (set_bit 0 (c_cr0 s))) s }"

definition prepare_64 :: "mem \<Rightarrow> labels \<Rightarrow> core \<Rightarrow> core option" where
  "prepare_64 m l s = enter_long_mode m l (lgdt32 m (at_gdt64_desc l) s)"

definition entry_code :: "labels \<Rightarrow> u32 \<Rightarrow> u32 \<Rightarrow> mem \<Rightarrow> core \<Rightarrow> (mem \<times> core) option" where
  "entry_code l eax ebx m s =
     do { let m = store32 m (at_mb_boot_info l) ebx;
          let m = store32 m (at_mb_magic l) eax;
          let s = s\<lparr>c_esp := at_stacktop l\<rparr>;
          s \<leftarrow> prepare_64 m l s;
          s \<leftarrow> far_jump m 8 s;
          Some (m, s) }"

text \<open>The arguments \<open>start64\<close> loads for \<open>main\<close>.\<close>

definition start64 :: "labels \<Rightarrow> mem \<Rightarrow> u64 \<times> u64" where
  "start64 l m = (load64 m (at_mb_boot_info l), load64 m (at_mb_magic l))"

fun rep_movsb :: "mem \<Rightarrow> addr \<Rightarrow> addr \<Rightarrow> nat \<Rightarrow> mem" where
  "rep_movsb m rsi rdi 0 = m"
| "rep_movsb m rsi rdi (Suc rcx) = rep_movsb (m(rdi := m rsi)) (rsi + 1) (rdi + 1) rcx"

definition sipi_entry_mov :: "labels \<Rightarrow> mem \<Rightarrow> mem" where
  "sipi_entry_mov l m = rep_movsb m (at_sipi_entry l) 0 (sipi_len l)"

text \<open>The code at address 0 in real mode, where the data segment has base 0.\<close>

definition sipi_entry :: "labels \<Rightarrow> mem \<Rightarrow> core \<Rightarrow> core option" where
  "sipi_entry l m s =
     do { s \<leftarrow> mov_cr0 (c_cr0 s OR 1) s;
          let s = lgdt32 m (at_gdt32_descr l - at_sipi_entry l) s;
          far_jump m 8 s }"

definition ap_start32 :: "labels \<Rightarrow> mem \<Rightarrow> u32 \<Rightarrow> core \<Rightarrow> (u32 \<times> core) option" where
  "ap_start32 l m stacktop s =
     do { s \<leftarrow> mov_data_segs m (push_bit 3 SEG_KDATA) s;
          let (esp, rest) = take_stack stacktop;
          let s = s\<lparr>c_esp := esp\<rparr>;
          s \<leftarrow> prepare_64 m l s;
          s \<leftarrow> far_jump m 8 s;
          Some (rest, s) }"

section \<open>The image\<close>

text \<open>The parts of the image the code reads are where the labels say.\<close>

definition image_ok :: "labels \<Rightarrow> mem \<Rightarrow> bool" where
  "image_ok l m \<longleftrightarrow>
     load16 m (at_gdt64_desc l) = gdt64_limit \<and> load32 m (at_gdt64_desc l + 2) = ucast (at_gdt64 l) \<and>
     (\<forall>i<length gdt64. load64 m (at_gdt64 l + 8 * of_nat i) = gdt64 ! i) \<and>
     load16 m (at_gdt32_descr l) = gdt32_limit \<and> load32 m (at_gdt32_descr l + 2) = ucast (at_gdt32 l) \<and>
     (\<forall>i<length gdt32. load64 m (at_gdt32 l + 8 * of_nat i) = gdt32 ! i) \<and>
     load32 m (at_pt_root l) = ucast (boot_root (at_ptl2 l)) \<and> boot_image m (at_ptl2 l)"

definition image_range :: "labels \<Rightarrow> addr \<Rightarrow> bool" where
  "image_range l x \<longleftrightarrow> in_range x (at_gdt64_desc l) 6 \<or> in_range x (at_gdt64 l) 128 \<or> in_range x (at_gdt32_descr l) 6 \<or>
     in_range x (at_gdt32 l) 24 \<or> in_range x (at_pt_root l) 4 \<or> in_range x (at_ptl2 l) 0x6000"

text \<open>
  The image is above the first page and below 4 GiB, the code that is copied fits into the first page,
  and the two variables are apart from the rest.
\<close>

definition labels_ok :: "labels \<Rightarrow> bool" where
  "labels_ok l \<longleftrightarrow>
     (\<forall>x. image_range l x \<longrightarrow> 4096 \<le> unat x \<and> \<not> in_range x (at_mb_boot_info l) 4 \<and> \<not> in_range x (at_mb_magic l) 4) \<and>
     unat (at_gdt64 l) < 2 ^ 32 \<and> unat (at_gdt32 l) < 2 ^ 32 \<and> page_aligned (at_ptl2 l) \<and> unat (at_ptl2 l) + 0x6000 \<le> 2 ^ 32 \<and>
     4096 \<le> unat (at_sipi_entry l) \<and> unat (at_sipi_entry l) + sipi_len l \<le> 2 ^ 32 \<and> sipi_len l \<le> 4096 \<and>
     unat (at_gdt32_descr l - at_sipi_entry l) + 6 \<le> sipi_len l \<and>
     disj (at_mb_boot_info l) 8 (at_mb_magic l) 8"

lemma load_le_same: "(\<And>x. in_range x a n \<Longrightarrow> m' x = m x) \<Longrightarrow> n < 18446744073709551616 \<Longrightarrow> load_le n m' a = load_le n m a"
  using in_range_offset [of _ n a] by (intro load_le_cong) simp

lemma load_le_moved: "(\<And>i. i < n \<Longrightarrow> m' (b + of_nat i) = m (a + of_nat i)) \<Longrightarrow> load_le n m' b = load_le n m a"
  by (rule bit_word_eqI) (auto simp: bit_load_le)

lemma in_range_part:
  assumes "in_range x (a + of_nat k) n" "k + n \<le> j" "j < 18446744073709551616"
  shows "in_range x a j"
proof -
  obtain i where "i < n" "x = a + of_nat (k + i)"
    using assms(1) by (auto simp: in_range_iff_offset algebra_simps)
  then show ?thesis
    using assms in_range_offset [of "k + i" j a] by simp
qed

lemma load_le_piece:
  assumes "\<And>x. in_range x a j \<Longrightarrow> m' x = m x" "k + n \<le> j" "j < 18446744073709551616"
  shows "load_le n m' (a + of_nat k) = load_le n m (a + of_nat k)"
  using assms in_range_part [of _ a k n j] by (intro load_le_same) auto

lemma load_pieces:
  assumes "\<And>x. in_range x a j \<Longrightarrow> m' x = m x" "j < 18446744073709551616"
  shows "k + 8 \<le> j \<Longrightarrow> load64 m' (a + of_nat k) = load64 m (a + of_nat k)"
    "k + 4 \<le> j \<Longrightarrow> load32 m' (a + of_nat k) = load32 m (a + of_nat k)"
    "k + 2 \<le> j \<Longrightarrow> load16 m' (a + of_nat k) = load16 m (a + of_nat k)"
  unfolding load64_def load32_def load16_def using assms by (blast intro: load_le_piece)+

lemma image_same:
  assumes "image_ok l m" "\<And>x. image_range l x \<Longrightarrow> m' x = m x"
  shows "image_ok l m'"
proof -
  note part = load_pieces [of _ _ m' m]
  have q: "load64 m' (at_gdt64 l + 8 * of_nat i) = load64 m (at_gdt64 l + 8 * of_nat i)" if "i < 16" for i
    using part(1) [of "at_gdt64 l" 128 "8 * i"] that assms(2) by (simp add: image_range_def)
  have r: "load64 m' (at_gdt32 l + 8 * of_nat i) = load64 m (at_gdt32 l + 8 * of_nat i)" if "i < 3" for i
    using part(1) [of "at_gdt32 l" 24 "8 * i"] that assms(2) by (simp add: image_range_def)
  have t: "load64 m' (at_ptl2 l + 8 * of_nat i) = load64 m (at_ptl2 l + 8 * of_nat i)" if "i < 3072" for i
    using part(1) [of "at_ptl2 l" "0x6000" "8 * i"] that assms(2) by (simp add: image_range_def)
  have "load16 m' (at_gdt64_desc l) = load16 m (at_gdt64_desc l)" "load32 m' (at_gdt64_desc l + 2) = load32 m (at_gdt64_desc l + 2)"
      "load16 m' (at_gdt32_descr l) = load16 m (at_gdt32_descr l)" "load32 m' (at_gdt32_descr l + 2) = load32 m (at_gdt32_descr l + 2)"
      "load32 m' (at_pt_root l) = load32 m (at_pt_root l)"
    using part(3) [of "at_gdt64_desc l" 6 0] part(2) [of "at_gdt64_desc l" 6 2] part(3) [of "at_gdt32_descr l" 6 0]
      part(2) [of "at_gdt32_descr l" 6 2] part(2) [of "at_pt_root l" 4 0] assms(2) by (simp_all add: image_range_def)
  moreover have "length gdt64 = 16" "length gdt32 = 3" "length (boot_quads (at_ptl2 l)) = 3072"
    by (simp_all add: gdt64_def gdt32_def boot_quads_def)
  ultimately show ?thesis
    using assms(1) q r t by (simp add: image_ok_def boot_image_def)
qed

section \<open>The switches of mode\<close>

lemma prepare_64_ok:
  assumes "image_ok l m" "\<not> paging s"
  shows "\<exists>s'. prepare_64 m l s = Some s' \<and> lma s' \<and> pe s' \<and> c_cr3 s' = ucast (boot_root (at_ptl2 l)) \<and>
    c_gdtr s' = (gdt64_limit, ucast (at_gdt64 l)) \<and> c_esp s' = c_esp s \<and> c_ds s' = c_ds s"
  using assms by (simp add: prepare_64_def enter_long_mode_def lgdt32_def mov_cr4_def mov_cr3_def wrmsr_efer_def mov_cr0_def
      lma_def paging_def lme_def pae_def pe_def image_ok_def bit_set_bit_iff Let_def)

lemma ucast_ucast_32: "unat a < 4294967296 \<Longrightarrow> (ucast (ucast (a :: u64) :: u32) :: u64) = a"
  by (rule word_eq_of_unat) (simp add: unsigned_ucast_eq unsigned_take_bit_eq take_bit_nat_eq_self)

lemma fetch_gdt64:
  assumes "image_ok l m" "labels_ok l" "c_gdtr s = (gdt64_limit, ucast (at_gdt64 l))"
  shows "fetch_desc m 8 s = Some (quad_seg (gdt64 ! 1))"
proof -
  have "load64 m (at_gdt64 l + 8 * of_nat 1) = gdt64 ! 1"
    using assms(1) unfolding image_ok_def by (elim conjE) (drule spec [of _ 1], simp add: gdt64_def)
  moreover have "unat gdt64_limit = 127"
    by code_simp
  ultimately show ?thesis
    using assms(2,3) by (simp add: fetch_desc_def labels_ok_def ucast_ucast_32)
qed

lemma long_jump:
  assumes "image_ok l m" "labels_ok l" "c_gdtr s = (gdt64_limit, ucast (at_gdt64 l))" "lma s" "pe s"
  shows "far_jump m 8 s = Some (s\<lparr>c_cs := quad_seg (gdt64 ! 1)\<rparr>)" "mode (s\<lparr>c_cs := quad_seg (gdt64 ! 1)\<rparr>) = Long64"
proof -
  have "seg_s d = 1 \<and> bit (seg_type d) 3 \<and> seg_p d = 1 \<and> seg_dpl d = 0 \<and> seg_rsv1 d = 1 \<and> seg_db d = 0"
    if "d = quad_seg (gdt64 ! 1)" for d
    unfolding that by code_simp
  then show "far_jump m 8 s = Some (s\<lparr>c_cs := quad_seg (gdt64 ! 1)\<rparr>)" "mode (s\<lparr>c_cs := quad_seg (gdt64 ! 1)\<rparr>) = Long64"
    using fetch_gdt64 [OF assms(1-3)] assms(4,5) by (simp_all add: far_jump_def mode_def lma_def paging_def lme_def pe_def)
qed

lemma boot_walk:
  assumes "image_ok l m" "labels_ok l"
  shows "walk m 4 (ucast (ucast (boot_root (at_ptl2 l)) :: u32)) v = (if vpn v < 1048576 then Some (take_bit 48 v) else None)"
proof -
  have "unat (at_ptl2 l) + 0x6000 \<le> 4294967296"
    using assms(2) by (simp add: labels_ok_def)
  then have "unat (boot_root (at_ptl2 l)) < 4294967296"
    unfolding boot_root_def by (subst unat_plus_u64) simp_all
  then show ?thesis
    using boot_tables_identity [of m "at_ptl2 l" v] assms by (simp add: ucast_ucast_32 image_ok_def labels_ok_def)
qed

section \<open>The copy of the entry code\<close>

lemma rep_movsb_eq:
  assumes "\<forall>i<n. \<forall>j<n. a + of_nat i \<noteq> b + of_nat j" "n \<le> 18446744073709551615"
  shows "(\<forall>i<n. rep_movsb m a b n (b + of_nat i) = m (a + of_nat i)) \<and>
    (\<forall>x. \<not> in_range x b n \<longrightarrow> rep_movsb m a b n x = m x)"
  using assms
proof (induction n arbitrary: m a b)
  case (Suc n)
  define m1 where "m1 = m(b := m a)"
  have m1: "m1 b = m a" "\<And>x. x \<noteq> b \<Longrightarrow> m1 x = m x"
    by (simp_all add: m1_def)
  have step: "rep_movsb m a b (Suc n) = rep_movsb m1 (a + 1) (b + 1) n"
    by (simp only: rep_movsb.simps m1_def)
  have pre: "\<forall>i<n. \<forall>j<n. a + 1 + of_nat i \<noteq> b + 1 + of_nat j"
    using Suc.prems(1) by (auto dest!: spec [of _ "Suc _"] simp: algebra_simps)
  have le: "n \<le> 18446744073709551615"
    using Suc.prems(2) by simp
  note IH = Suc.IH [OF pre le, of m1]
  have first: "\<not> in_range b (b + 1) n"
    using Suc.prems(2) by (simp add: in_range_def unsigned_minus_1_eq_mask mask_eq_exp_minus_1)
  have "rep_movsb m a b (Suc n) (b + of_nat i) = m (a + of_nat i)" if "i < Suc n" for i
  proof (cases i)
    case 0
    then show ?thesis
      unfolding step using conjunct2 [OF IH] first m1(1) by simp
  next
    case (Suc j)
    then have "a + of_nat (Suc j) \<noteq> b + of_nat 0"
      using Suc.prems(1) that by blast
    then show ?thesis
      unfolding step using conjunct1 [OF IH] Suc that m1(2) by (simp add: add.assoc)
  qed
  moreover have "rep_movsb m a b (Suc n) x = m x" if "\<not> in_range x b (Suc n)" for x
  proof -
    have "\<not> in_range x (b + 1) n"
      using that in_range_part [of x b 1 n "Suc n"] Suc.prems(2) by auto
    moreover have "x \<noteq> b"
      using that by auto
    ultimately show ?thesis
      unfolding step using conjunct2 [OF IH] m1(2) by simp
  qed
  ultimately show ?case
    by blast
qed simp

lemma sipi_copy:
  assumes "labels_ok l"
  shows "\<forall>i < sipi_len l. sipi_entry_mov l m (of_nat i) = m (at_sipi_entry l + of_nat i)"
    "\<forall>x. 4096 \<le> unat x \<longrightarrow> sipi_entry_mov l m x = m x"
proof -
  let ?a = "at_sipi_entry l" and ?n = "sipi_len l"
  have ok: "4096 \<le> unat ?a" "unat ?a + ?n \<le> 4294967296" "?n \<le> 4096"
    using assms by (simp_all add: labels_ok_def)
  have "?a + of_nat i \<noteq> 0 + of_nat j" if "i < ?n" "j < ?n" for i j
  proof -
    have "unat (?a + of_nat i) = unat ?a + i" "unat (of_nat j :: u64) = j"
      using ok that by (simp_all add: unat_plus_u64 unat_of_nat_u64)
    then show ?thesis
      using ok that by (metis add.left_neutral not_le trans_le_add1 le_trans)
  qed
  then have c: "\<forall>i<?n. sipi_entry_mov l m (0 + of_nat i) = m (?a + of_nat i)"
      "\<forall>x. \<not> in_range x 0 ?n \<longrightarrow> sipi_entry_mov l m x = m x"
    using rep_movsb_eq [of ?n ?a 0 m] ok by (simp_all add: sipi_entry_mov_def)
  then show "\<forall>i<?n. sipi_entry_mov l m (of_nat i) = m (?a + of_nat i)"
    by simp
  show "\<forall>x. 4096 \<le> unat x \<longrightarrow> sipi_entry_mov l m x = m x"
    using c(2) ok(3) by (simp add: in_range_def)
qed

lemma image_copied:
  assumes "image_ok l m" "labels_ok l"
  defines "d \<equiv> at_gdt32_descr l - at_sipi_entry l"
  shows "image_ok l (sipi_entry_mov l m)" "load16 (sipi_entry_mov l m) d = gdt32_limit"
    "load32 (sipi_entry_mov l m) (d + 2) = ucast (at_gdt32 l)"
proof -
  show "image_ok l (sipi_entry_mov l m)"
    using assms(2) sipi_copy(2) [OF assms(2)] by (intro image_same [OF assms(1)]) (simp add: labels_ok_def)
  have d: "unat d + 6 \<le> sipi_len l" "sipi_len l \<le> 4096"
    using assms(2,3) by (simp_all add: labels_ok_def)
  have byte: "sipi_entry_mov l m (d + of_nat k) = m (at_gdt32_descr l + of_nat k)" if "k < 6" for k
  proof -
    have "of_nat (unat d + k) = d + of_nat k"
      by simp
    then show ?thesis
      using sipi_copy(1) [OF assms(2), of m] d that by (auto dest!: spec [of _ "unat d + k"] simp: assms(3))
  qed
  have "load16 (sipi_entry_mov l m) d = load16 m (at_gdt32_descr l)"
    unfolding load16_def using byte by (intro load_le_moved) simp
  moreover have "load32 (sipi_entry_mov l m) (d + 2) = load32 m (at_gdt32_descr l + 2)"
    unfolding load32_def
  proof (rule load_le_moved)
    fix i :: nat
    assume "i < 4"
    then show "sipi_entry_mov l m (d + 2 + of_nat i) = m (at_gdt32_descr l + 2 + of_nat i)"
      using byte [of "2 + i"] by (simp add: add.assoc)
  qed
  ultimately show "load16 (sipi_entry_mov l m) d = gdt32_limit" "load32 (sipi_entry_mov l m) (d + 2) = ucast (at_gdt32 l)"
    using assms(1) by (simp_all add: image_ok_def)
qed

lemma load64_store32:
  assumes "load64 m a = 0"
  shows "load64 (store32 m a v) a = ucast v"
proof (rule bit_word_eqI)
  fix k
  assume "k < LENGTH(64)"
  then have i: "k div 8 < 8" "unat (of_nat (k div 8) :: u64) = k div 8"
    by auto
  have "\<not> bit (m (a + of_nat (k div 8))) (k mod 8)"
    using arg_cong [OF assms, of "\<lambda>w. bit w k"] \<open>k < LENGTH(64)\<close> i(1) by (simp add: load64_def bit_load_le)
  then show "bit (load64 (store32 m a v) a) k = bit (ucast v :: u64) k"
    using \<open>k < LENGTH(64)\<close> i
    by (cases "k < 32") (auto simp: load64_def store32_def bit_load_le store_le_def bit_byte_of bit_simps dest: bit_imp_le_length)
qed

lemma boot_values:
  assumes "load64 m a = 0" "load64 m b = 0" "disj a 8 b 8"
  shows "load64 (store32 (store32 m a v) b w) a = ucast v" "load64 (store32 (store32 m a v) b w) b = ucast w"
proof -
  have a: "\<not> in_range x b 4" if "in_range x a 8" for x
    using assms(3) that in_range_mono [of x b 4 8] by (auto simp: disj_def)
  have b: "\<not> in_range x a 4" if "in_range x b 8" for x
    using assms(3) that in_range_mono [of x a 4 8] by (auto simp: disj_def)
  have "load64 (store32 (store32 m a v) b w) a = load64 (store32 m a v) a"
    unfolding load64_def store32_def by (rule load_le_same) (simp_all add: store_le_outside a)
  then show "load64 (store32 (store32 m a v) b w) a = ucast v"
    using load64_store32 [OF assms(1)] by simp
  have "load64 (store32 m a v) b = load64 m b"
    unfolding load64_def store32_def by (rule load_le_same) (simp_all add: store_le_outside b)
  then show "load64 (store32 (store32 m a v) b w) b = ucast w"
    using load64_store32 [of "store32 m a v" b w] assms(2) by simp
qed

lemma fetch_gdt32:
  assumes "image_ok l m" "labels_ok l" "c_gdtr s = (gdt32_limit, ucast (at_gdt32 l))"
  shows "fetch_desc m 8 s = Some (quad_seg (gdt32 ! 1))" "fetch_desc m 16 s = Some (quad_seg (gdt32 ! 2))"
proof -
  have "load64 m (at_gdt32 l + 8 * of_nat i) = gdt32 ! i" if "i < 3" for i
    using assms(1) that unfolding image_ok_def by (elim conjE) (drule spec [of _ i], simp add: gdt32_def)
  from this [of 1] this [of 2]
  have "load64 m (at_gdt32 l + 8) = gdt32 ! 1" "load64 m (at_gdt32 l + 16) = gdt32 ! 2"
    by simp_all
  moreover have "unat gdt32_limit = 23"
    by code_simp
  ultimately show "fetch_desc m 8 s = Some (quad_seg (gdt32 ! 1))" "fetch_desc m 16 s = Some (quad_seg (gdt32 ! 2))"
    using assms(2,3) by (simp_all add: fetch_desc_def labels_ok_def ucast_ucast_32)
qed

lemma sipi_entry_ok:
  assumes "image_ok l m" "labels_ok l" "\<not> paging s"
  defines "m' \<equiv> sipi_entry_mov l m"
  shows "\<exists>s1. sipi_entry l m' s = Some s1 \<and> mode s1 = Protected32 \<and> \<not> paging s1 \<and> c_gdtr s1 = (gdt32_limit, ucast (at_gdt32 l))"
proof -
  note im = image_copied [OF assms(1,2), folded m'_def]
  let ?s = "s\<lparr>c_cr0 := c_cr0 s OR 1, c_gdtr := (gdt32_limit, ucast (at_gdt32 l))\<rparr>"
  have "mov_cr0 (c_cr0 s OR 1) s = Some (s\<lparr>c_cr0 := c_cr0 s OR 1\<rparr>)"
    using assms(3) by (simp add: mov_cr0_def paging_def bit_simps)
  then have "sipi_entry l m' s = far_jump m' 8 ?s"
    using im(2,3) by (simp add: sipi_entry_def lgdt32_def)
  moreover have k: "seg_s d = 1 \<and> bit (seg_type d) 3 \<and> seg_p d = 1 \<and> seg_dpl d = 0 \<and> seg_rsv1 d = 0 \<and> seg_db d = 1"
    if "d = quad_seg (gdt32 ! 1)" for d
    unfolding that by code_simp
  moreover have np: "\<not> paging (?s\<lparr>c_cs := d\<rparr>)" "pe (?s\<lparr>c_cs := d\<rparr>)" for d
    using assms(3) by (simp_all add: paging_def pe_def bit_simps)
  ultimately show ?thesis
    using fetch_gdt32(1) [OF im(1) assms(2), of ?s] np by (auto simp: far_jump_def mode_def lma_def)
qed

section \<open>Properties\<close>

text \<open>
  C5. The boot processor reaches \<open>main\<close> in 64-bit mode: from the state a boot loader leaves, with paging
  off, the entry code raises no exception, whatever else the control registers hold; it ends in
  64-bit mode on the ring 0 code segment, with the stack of the image, and every address below 4
  GiB translates to itself, so that the code goes on where it was, and no other is mapped. The
  arguments of \<open>main\<close> are the two values of the boot loader.
\<close>

theorem entry_reaches_main:
  assumes "image_ok l m" "labels_ok l" "\<not> paging s" "load64 m (at_mb_boot_info l) = 0" "load64 m (at_mb_magic l) = 0"
  shows "\<exists>m' s'. entry_code l eax ebx m s = Some (m', s') \<and> mode s' = Long64 \<and> kind_of (c_cs s') = Code_seg 64 0 True \<and>
    c_esp s' = at_stacktop l \<and> start64 l m' = (ucast ebx, ucast eax) \<and>
    (\<forall>v. walk m' 4 (ucast (c_cr3 s')) v = (if vpn v < 1048576 then Some (take_bit 48 v) else None))"
proof -
  let ?m = "store32 (store32 m (at_mb_boot_info l) ebx) (at_mb_magic l) eax" and ?s = "s\<lparr>c_esp := at_stacktop l\<rparr>"
  have im: "image_ok l ?m"
    using assms(2) by (intro image_same [OF assms(1)]) (simp add: labels_ok_def store32_def store_le_outside)
  have "\<not> paging ?s"
    using assms(3) by (simp add: paging_def)
  from prepare_64_ok [OF im this] obtain s1 where s1: "prepare_64 ?m l ?s = Some s1" "lma s1" "pe s1"
      "c_cr3 s1 = ucast (boot_root (at_ptl2 l))" "c_gdtr s1 = (gdt64_limit, ucast (at_gdt64 l))" "c_esp s1 = at_stacktop l"
    by auto
  let ?s' = "s1\<lparr>c_cs := quad_seg (gdt64 ! 1)\<rparr>"
  have "entry_code l eax ebx m s = Some (?m, ?s')"
    using s1(1) long_jump(1) [OF im assms(2) s1(5,2,3)] by (simp add: entry_code_def Let_def)
  moreover have "kind_of (quad_seg (gdt64 ! 1)) = Code_seg 64 0 True"
    by code_simp
  moreover have "start64 l ?m = (ucast ebx, ucast eax)"
    using boot_values [OF assms(4,5)] assms(2) by (simp add: start64_def labels_ok_def)
  ultimately show ?thesis
    using long_jump(2) [OF im assms(2) s1(5,2,3)] s1(4,6) boot_walk [OF im assms(2)]
    by (intro exI [of _ ?m] exI [of _ ?s']) simp
qed

text \<open>
  C16. So do the other processors: the code that \<open>sipi_entry_mov\<close> copies to address 0 is the entry code,
  and a processor that starts there in real mode goes through 32-bit protected mode, on flat
  segments of the table in that code, into 64-bit mode on the page tables of the image, without an
  exception. It takes the stack at \<open>smp_stacktop\<close> and moves that down by a page.
\<close>

theorem ap_reaches_mpenter:
  assumes "image_ok l m" "labels_ok l" "\<not> pe s" "\<not> paging s"
  defines "m' \<equiv> sipi_entry_mov l m"
  shows "(\<forall>i < sipi_len l. m' (of_nat i) = m (at_sipi_entry l + of_nat i)) \<and>
    (\<exists>s1 s2 d. sipi_entry l m' s = Some s1 \<and> mode s1 = Protected32 \<and>
      ap_start32 l m' stacktop s1 = Some (stacktop - 4096, s2) \<and> mode s2 = Long64 \<and> c_esp s2 = stacktop \<and>
      c_ds s2 = Some d \<and> seg_base d = 0 \<and> seg_limit d = 0xffffffff \<and>
      (\<forall>v. walk m' 4 (ucast (c_cr3 s2)) v = (if vpn v < 1048576 then Some (take_bit 48 v) else None)))"
proof -
  have im: "image_ok l m'"
    using image_copied(1) [OF assms(1,2)] by (simp add: m'_def)
  obtain s1 where s1: "sipi_entry l m' s = Some s1" "mode s1 = Protected32" "\<not> paging s1" "c_gdtr s1 = (gdt32_limit, ucast (at_gdt32 l))"
    using sipi_entry_ok [OF assms(1,2,4)] by (auto simp: m'_def)
  let ?d = "quad_seg (gdt32 ! 2)"
  let ?t = "s1\<lparr>c_ds := Some ?d, c_esp := stacktop\<rparr>"
  have "seg_s d = 1 \<and> \<not> bit (seg_type d) 3 \<and> bit (seg_type d) 1 \<and> seg_p d = 1 \<and> seg_dpl d = 0"
    if "d = quad_seg (gdt32 ! 2)" for d
    unfolding that by code_simp
  then have "mov_data_segs m' (push_bit 3 SEG_KDATA) s1 = Some (s1\<lparr>c_ds := Some ?d\<rparr>)"
    using fetch_gdt32(2) [OF im assms(2) s1(4)] by (simp add: mov_data_segs_def SEG_KDATA_def)
  moreover have "\<not> paging ?t"
    using s1(3) by (simp add: paging_def)
  from prepare_64_ok [OF im this] obtain s2 where s2: "prepare_64 m' l ?t = Some s2" "lma s2" "pe s2"
      "c_cr3 s2 = ucast (boot_root (at_ptl2 l))" "c_gdtr s2 = (gdt64_limit, ucast (at_gdt64 l))" "c_esp s2 = stacktop" "c_ds s2 = Some ?d"
    by auto
  let ?s' = "s2\<lparr>c_cs := quad_seg (gdt64 ! 1)\<rparr>"
  note jump = long_jump [OF im assms(2) s2(5,2,3)]
  have "seg_base ?d = 0" "seg_limit ?d = 0xffffffff"
    by code_simp+
  moreover have "ap_start32 l m' stacktop s1 = Some (stacktop - 4096, ?s')"
    using calculation(1) s2(1) jump(1) by (simp add: ap_start32_def take_stack_def Let_def)
  ultimately have "\<exists>s1 s2 d. sipi_entry l m' s = Some s1 \<and> mode s1 = Protected32 \<and>
      ap_start32 l m' stacktop s1 = Some (stacktop - 4096, s2) \<and> mode s2 = Long64 \<and> c_esp s2 = stacktop \<and>
      c_ds s2 = Some d \<and> seg_base d = 0 \<and> seg_limit d = 0xffffffff \<and>
      (\<forall>v. walk m' 4 (ucast (c_cr3 s2)) v = (if vpn v < 1048576 then Some (take_bit 48 v) else None))"
    using s1(1,2) jump(2) s2(4,6,7) boot_walk [OF im assms(2)]
    by (intro exI [of _ s1] exI [of _ ?s'] exI [of _ ?d]) simp
  then show ?thesis
    using sipi_copy(1) [OF assms(2), of m] by (simp add: m'_def)
qed

section \<open>Witnesses\<close>

definition example_labels :: labels where
  "example_labels = \<lparr>at_sipi_entry = 0x100000, sipi_len = 64, at_gdt32_descr = 0x100020, at_gdt32 = 0x100026,
     at_pt_root = 0x200000, at_mb_boot_info = 0x200008, at_mb_magic = 0x200010, at_ptl2 = 0x201000, at_gdt64_desc = 0x207000,
     at_gdt64 = 0x20700a, at_stacktop = 0x300000\<rparr>"

definition example_image :: mem where
  "example_image x =
     (let n = unat x in
      if 0x201000 \<le> n \<and> n < 0x207000 then put_quads 0x201000 (boot_quads 0x201000) x
      else if 0x20700a \<le> n \<and> n < 0x20708a then put_quads 0x20700a gdt64 x
      else if 0x207000 \<le> n \<and> n < 0x207006 then store32 (store16 (\<lambda>_. 0) 0x207000 gdt64_limit) 0x207002 0x20700a x
      else if 0x100026 \<le> n \<and> n < 0x10003e then put_quads 0x100026 gdt32 x
      else if 0x100020 \<le> n \<and> n < 0x100026 then store32 (store16 (\<lambda>_. 0) 0x100020 gdt32_limit) 0x100022 0x100026 x
      else if 0x200000 \<le> n \<and> n < 0x200004 then store32 (\<lambda>_. 0) 0x200000 0x206000 x
      else 0)"

lemma in_range_unat:
  assumes "unat a + n \<le> 18446744073709551616"
  shows "in_range x a n \<longleftrightarrow> unat a \<le> unat x \<and> unat x < unat a + n"
  using assms unat_lt_u64 [of x] unat_lt_u64 [of a] by (auto simp: in_range_def unat_diff_split)

lemma example_labels_ok: "labels_ok example_labels"
  by (auto simp: labels_ok_def example_labels_def image_range_def in_range_unat disj_def page_aligned_def)

lemma example_quads:
  "i < 16 \<Longrightarrow> load64 example_image (0x20700a + 8 * of_nat i) = gdt64 ! i"
  "i < 3 \<Longrightarrow> load64 example_image (0x100026 + 8 * of_nat i) = gdt32 ! i"
  "i < 3072 \<Longrightarrow> load64 example_image (0x201000 + 8 * of_nat i) = boot_quads 0x201000 ! i"
proof -
  have len: "length gdt64 = 16" "length gdt32 = 3" "length (boot_quads 0x201000) = 3072"
    by (simp_all add: gdt64_def gdt32_def boot_quads_def)
  note ex = example_image_def in_range_unat Let_def
  show "i < 16 \<Longrightarrow> load64 example_image (0x20700a + 8 * of_nat i) = gdt64 ! i"
    using load_pieces(1) [of "0x20700a" 128 example_image "put_quads 0x20700a gdt64" "8 * i"] put_quads_load [of gdt64 i "0x20700a"] len
    by (simp add: ex)
  show "i < 3 \<Longrightarrow> load64 example_image (0x100026 + 8 * of_nat i) = gdt32 ! i"
    using load_pieces(1) [of "0x100026" 24 example_image "put_quads 0x100026 gdt32" "8 * i"] put_quads_load [of gdt32 i "0x100026"] len
    by (simp add: ex)
  show "i < 3072 \<Longrightarrow> load64 example_image (0x201000 + 8 * of_nat i) = boot_quads 0x201000 ! i"
    using load_pieces(1) [of "0x201000" "0x6000" example_image "put_quads 0x201000 (boot_quads 0x201000)" "8 * i"]
      put_quads_load [of "boot_quads 0x201000" i "0x201000"] len
    by (simp add: ex)
qed

lemma load_store_pair:
  assumes "unat a + 6 \<le> 18446744073709551615"
  shows "load16 (store32 (store16 m a v) (a + 2) w) a = v" "load32 (store32 (store16 m a v) (a + 2) w) (a + 2) = w"
proof -
  have "unat (a + 2) = unat a + 2"
    using assms by (simp add: unat_plus_u64)
  then have "disj a 2 (a + 2) 4"
    using assms by (auto simp: disj_def in_range_unat)
  from load_store_disj [OF this, of "store16 m a v" w, where ?'a = 16]
  show "load16 (store32 (store16 m a v) (a + 2) w) a = v"
    unfolding load16_def store32_def using load16_store16_same [of m a v, unfolded load16_def] by simp
qed (rule load32_store32_same)

lemma example_image_ok: "image_ok example_labels example_image"
proof -
  note ex = example_image_def in_range_unat Let_def
  have "load16 example_image 0x207000 = gdt64_limit" "load32 example_image 0x207002 = 0x20700a"
    using load_pieces(3) [of "0x207000" 6 example_image "store32 (store16 (\<lambda>_. 0) 0x207000 gdt64_limit) 0x207002 0x20700a" 0]
      load_pieces(2) [of "0x207000" 6 example_image "store32 (store16 (\<lambda>_. 0) 0x207000 gdt64_limit) 0x207002 0x20700a" 2]
      load_store_pair [of "0x207000" "\<lambda>_. 0" gdt64_limit "0x20700a"] by (simp_all add: ex)
  moreover have "load16 example_image 0x100020 = gdt32_limit" "load32 example_image 0x100022 = 0x100026"
    using load_pieces(3) [of "0x100020" 6 example_image "store32 (store16 (\<lambda>_. 0) 0x100020 gdt32_limit) 0x100022 0x100026" 0]
      load_pieces(2) [of "0x100020" 6 example_image "store32 (store16 (\<lambda>_. 0) 0x100020 gdt32_limit) 0x100022 0x100026" 2]
      load_store_pair [of "0x100020" "\<lambda>_. 0" gdt32_limit "0x100026"] by (simp_all add: ex)
  moreover have "load32 example_image 0x200000 = 0x206000"
    using load_pieces(2) [of "0x200000" 4 example_image "store32 (\<lambda>_. 0) 0x200000 0x206000" 0] by (simp add: ex)
  moreover have "length gdt64 = 16" "length gdt32 = 3" "length (boot_quads 0x201000) = 3072"
    by (simp_all add: gdt64_def gdt32_def boot_quads_def)
  ultimately show ?thesis
    using example_quads by (simp add: image_ok_def example_labels_def boot_root_def boot_image_def)
qed

text \<open>A processor that the boot loader left in protected mode, and one after a start-up interrupt.\<close>

definition example_core :: "u32 \<Rightarrow> core" where
  "example_core cr0 = \<lparr>c_cr0 = cr0, c_cr3 = 0, c_cr4 = 0, c_efer = 0, c_gdtr = (0, 0), c_cs = quad_seg 0, c_ds = None, c_esp = 0\<rparr>"

theorem entry_reaches_main_witness:
  "\<exists>m' s'. entry_code example_labels 0x2BADB002 0x9000 example_image (example_core 0x11) = Some (m', s') \<and> mode s' = Long64 \<and>
     start64 example_labels m' = (0x9000, 0x2BADB002)"
proof -
  have "load64 example_image 0x200008 = 0" "load64 example_image 0x200010 = 0"
    by (rule load64_zero, simp add: example_image_def in_range_unat Let_def)+
  moreover have "\<not> paging (example_core 0x11)"
    by code_simp
  ultimately show ?thesis
    using entry_reaches_main [OF example_image_ok example_labels_ok, of "example_core 0x11" "0x2BADB002" "0x9000"]
    by (auto simp: example_labels_def)
qed

theorem ap_reaches_mpenter_witness:
  "\<exists>s1 s2. sipi_entry example_labels (sipi_entry_mov example_labels example_image) (example_core 0x10) = Some s1 \<and>
     ap_start32 example_labels (sipi_entry_mov example_labels example_image) 0xa0000 s1 = Some (0x9f000, s2) \<and> mode s2 = Long64"
proof -
  have "\<not> pe (example_core 0x10)" "\<not> paging (example_core 0x10)"
    by code_simp+
  from ap_reaches_mpenter [OF example_image_ok example_labels_ok this, of "0xa0000"] show ?thesis
    by auto
qed

end
