(* ===== verification/Spec2Isabelle.thy ===== *)
theory Spec2Isabelle
  imports Prelude Cmem Cstring Printf Ports Spinlock Serial Heap Paging Vpages Mptable Cpu Apic Proc Boot Bootmap
    Desc Console Ipi Stack Atomic Harness Host Report Benchmarks Kernelstate Kernelrun Linked Segments Entry
begin

text \<open>
  HyperBench is a small kernel that measures the cost of instructions a hypervisor must handle. It
  is booted on the bare machine or in a virtual machine, brings up the memory, the page tables and
  the other processors, and then runs the benchmarks linked into it. On bare metal it reads the time
  stamp counter itself and shows the results on the screen; in a virtual machine it prints marks on
  the serial line, and a program on the host reads them and takes the times. This development models
  the kernel (\<open>x86_64/\<close>, \<open>lib/\<close>, \<open>include/\<close>), the harness (\<open>harness/\<close>) and the host program (\<open>host/\<close>).

  \<^bold>\<open>How code is modelled.\<close> C integers are words of their width, so that overflow is what it is in the
  code. Memory that is shared or linked through pointers is a map from 64-bit addresses to bytes
  (\<open>Cmem\<close>); an object that is only read through a pointer is the list of its bytes from there on. Global
  variables are the fields of a record that the functions take and return. A run with no defined
  result in C (an access outside an object, a value missing at the end of a function) and a loop
  that never ends have the result \<open>None\<close>; such loops are \<open>partial_function\<close>s, so no fuel is needed, and the
  theorems say when they return. Devices are the environment: what a port, a memory-mapped or a
  model-specific register answers is an arbitrary function of what was done before (\<open>Ports\<close>, \<open>Cpu\<close>),
  and the machine's side is the list of accesses in order; a theorem that relies on a device names
  what it relies on. Several processors are a step relation or a list of steps of any of them.
  Functions of \<open>printf\<close> are the real \<open>printf\<close> where its output matters (\<open>Serial\<close>, \<open>Console\<close>, \<open>Harness\<close>), and
  a log of format and arguments elsewhere.

  \<^bold>\<open>The theories.\<close>

  \<^item> \<open>Prelude\<close>: types, collections and facts on words all others share. \<open>Cmem\<close>: loads and stores of the flat
    memory, ranges and frames.

  \<^item> \<open>Cstring\<close> (\<open>lib/string.c\<close>): every function, against the usual reading of C strings; \<open>simple_glob\<close> decides
    a pattern, \<open>memmove\<close> copies overlapping regions, all inside their objects.

  \<^item> \<open>Printf\<close> (\<open>lib/printf.c\<close>): formatting. \<open>render\<close> is the text a format stands for; \<open>vsnprintf\<close> writes it, cut
    to the size. The locale \<open>char_sink\<close> is what \<open>printf\<close> asks of an output function, and gives the effect of
    \<open>printf\<close> on it; it is interpreted on the serial line and on the screen.

  \<^item> \<open>Ports\<close> (\<open>include/io.h\<close>), \<open>Serial\<close> (\<open>x86_64/serial.c\<close>, \<open>lib/abort.c\<close>), \<open>Console\<close> (\<open>x86_64/console.c\<close>): port
    access; what the line receives, read off the accesses as a 16550 does; the cells of video memory
    against a terminal that wraps and scrolls.

  \<^item> \<open>Spinlock\<close> (\<open>include/spinlock.h\<close>), \<open>Atomic\<close> (\<open>include/atomic.h\<close>): the lock and its mutual exclusion;
    counters under interleaving.

  \<^item> \<open>Heap\<close> and \<open>Paging\<close> (\<open>x86_64/heap.c\<close>, \<open>x86_64/util.S\<close>, \<open>include/page.h\<close>): the list of free pages in the
    pages themselves; page tables in memory, with the walk of the processor as their meaning. The
    locale \<open>page_allocator\<close> is what the page tables ask of the allocator. \<open>Vpages\<close>: \<open>alloc_vpages\<close> on several
    processors, with the interleaving in which two of them are given the same pages. \<open>Bootmap\<close>: the
    tables in the image (\<open>x86_64/cstart.S\<close>).

  \<^item> \<open>Mptable\<close> (the second part of \<open>x86_64/mp.c\<close>, \<open>include/mp.h\<close>): the search for the tables of the BIOS and what is
    read from them. \<open>Proc\<close> (\<open>x86_64/proc.c\<close>): which processor this is.

  \<^item> \<open>Cpu\<close> (\<open>include/processor.h\<close>): registers, and the machine the next theories work on. \<open>Apic\<close> (\<open>x86_64/apic.c\<close>,
    \<open>include/apic.h\<close>): both modes of the local APIC behind the table of operations, whose contract is the
    locale \<open>apic_driver\<close>, interpreted on both tables; the I/O APIC; the change of mode. The interrupts
    sent are read off the accesses.

  \<^item> \<open>Desc\<close> (\<open>x86_64/desc.c\<close>, \<open>include/desc.h\<close>): gates, the stubs and the frame they build on the stack, handlers
    and the exception table.

  \<^item> \<open>Boot\<close> (\<open>x86_64/main.c\<close>, the entry of the other processors in \<open>cstart.S\<close>): \<open>startothers\<close> and \<open>mpenter\<close>
    interleaved. \<open>Ipi\<close> (the first part of \<open>mp.c\<close>): \<open>on_cpu\<close> and its handler on several processors, with the
    delivery of interrupts.

  \<^item> \<open>Stack\<close> (\<open>lib/stack.c\<close>): stack traces, given the return addresses.

  \<^item> \<open>Harness\<close> (\<open>harness/harness.c\<close>, \<open>include/rdtsc.h\<close>, \<open>include/benchmark.h\<close>): the runs in both builds. The
    locale \<open>printer\<close> is what it asks of \<open>printf\<close>, interpreted on both devices. \<open>Host\<close> (\<open>host/host.c\<close>,
    \<open>host/rdtsc.h\<close>): the program on the host, with the library functions it uses. \<open>Report\<close>: reading the one
    with the other.

  \<^bold>\<open>What is shown.\<close> For each component its functional behaviour on every branch: the text written, the
  pages mapped, the interrupts sent, the frame built, the processors recorded. Invariants under every
  interleaving for the lock, the virtual page allocator, the start of the processors and \<open>on_cpu\<close>, with
  progress and a bound on the number of steps for the last two. Where the code can fail to return, the exact condition:
  an entry of unknown type in the tables, memory that does not end on a page boundary, a processor
  that takes no interrupts, input that ends during a run, a counter of which only a half is read.
  Where it goes on after an error, what it then does: page 0 as a page table, processors read from
  the null pointer, a report that ends at a long name. This theory holds the theorems that span
  components: the host's report of what the harness prints, the page tables built from the memory of
  the boot information, and the processors of the tables of the BIOS brought up.

  \<^bold>\<open>Bounds.\<close> \<open>NCPU\<close> is 64 as in the source; a text \<open>printf\<close> writes is cut to the 1999 bytes of its buffer; the
  addresses of page tables are below \<open>2 ^ 52\<close>, as the entries need; identifiers of processors have 8
  bits, as in the tables. Histories of devices and numbers of steps are not bounded.

  \<^bold>\<open>What is not modelled.\<close> The instructions of the benchmarks themselves, whose effect is the time they take:
  they are arguments of the harness. The assembly code that switches modes before C code runs.
  \<open>main\<close>, which calls the parts in order on states that are separate here; the three theorems below
  join the parts that depend on each other. The 32-bit build, code that is commented out, and
  macros nothing uses. Caches, the order of memory accesses of different processors and the time
  instructions take.
\<close>

section \<open>From the kernel to the report\<close>

text \<open>
  C3. The harness in a virtual machine and the program on the host together: after boot messages
  none of which is the line with the star, the harness comes to its end, and on the bytes of the
  serial line the host comes to its end and reports every benchmark once, in order, with its name,
  category and number of iterations as the kernel has them and the cycles between the marks, and
  leaves no input. The second of the two lines that say the end is what it needs to stop.
\<close>

theorem host_reports_harness:
  assumes "serial_ready (dev s)" "sent (dev s) = concat ls" "\<forall>l\<in>set ls. is_line l \<and> \<not> same_string STAR l"
    "list_all2 (bench_ok sent (\<lambda>b out. out @ b) serial_ready) bs ts" "list_all2 report_ok bs ts"
    "reading in_rdx s k < reading in_rdx s 0" "\<forall>t. popen = Some t \<longrightarrow> length t < 512"
  shows "\<exists>s'. harness_main False in_rdx (serial_pr junk use_serial) c bs s = Some s' \<and>
    host_main popen v \<lparr>stdin = sent (dev s'), hout = [], htsc = T, htsc_reads = 0\<rparr> =
      Some \<lparr>stdin = [], hout = host_log popen T 0 bs, htsc = T, htsc_reads = 4 * length bs\<rparr>"
proof -
  obtain s' where s': "harness_main False in_rdx (serial_pr junk use_serial) c bs s = Some s'"
      "sent (dev s') = concat ls @ harness_text (vm_lines bs ts)"
    using harness_vm_did [OF assms(1,4,6), of junk use_serial c] assms(2) by (auto simp: did_def)
  then show ?thesis
    using host_main_report [OF assms(5,3) _ assms(7), of "\<lparr>stdin = sent (dev s'), hout = [], htsc = T, htsc_reads = 0\<rparr>" v]
    by simp
qed

theorem host_reports_witness:
  "\<exists>s'. harness_main False False (serial_pr (\<lambda>_. 0) True) (0, 0) [idle_benchmark]
       \<lparr>dev = example_serial, tsc = \<lambda>k. if k = 0 then 5 else 3, tsc_reads = 0\<rparr> = Some s' \<and>
     host_main None example_vars \<lparr>stdin = sent (dev s'), hout = [], htsc = of_nat, htsc_reads = 0\<rparr> =
       Some \<lparr>stdin = [], hout = host_log None of_nat 0 [idle_benchmark :: serial benchmark_t], htsc = of_nat, htsc_reads = 4\<rparr>"
proof -
  let ?s = "\<lparr>dev = example_serial, tsc = \<lambda>k. if k = 0 then 5 else 3, tsc_reads = 0\<rparr>"
  have "reading False ?s 1 < reading False ?s 0"
    by (simp add: reading_def half_def take_bit_eq_mask mask_eq_exp_minus_1)
  moreover have "list_all2 (bench_ok sent (\<lambda>b out. out @ b) serial_ready) [idle_benchmark] [([], [])]"
      "list_all2 report_ok [idle_benchmark :: serial benchmark_t] [([], [])]"
    by (simp_all add: idle_benchmark_ok idle_report_ok)
  ultimately show ?thesis
    using host_reports_harness [of ?s "[]" "[idle_benchmark]" "[([], [])]" False 1 None "\<lambda>_. 0" True "(0, 0)" example_vars of_nat]
      example_serial_ready by simp
qed

text \<open>
  C1. The whole run in a virtual machine: when it starts with enough free pages, a second processor
  that takes interrupts and a serial port that answers, the harness returns from the fourteen
  benchmarks that are linked into the image, and the program on the host, on the bytes of the
  serial line, comes to its end and reports each of them with the name, category and number of
  iterations the sources give it. The page tables and the descriptor table are those of before,
  memory outside the free pages changed at most below 1 MiB and in the page at \<open>IORAM_BASE_PHYS\<close>, and
  18493 pages are gone.
\<close>

theorem kernel_run_reported:
  assumes "kernel_started ps (dev s)" "regs_ok b" "reading in_rdx s k < reading in_rdx s 0"
    "sent (ser (dev s)) = concat ls" "\<forall>l\<in>set ls. is_line l \<and> \<not> same_string STAR l" "\<forall>t. popen = Some t \<longrightarrow> length t < 512"
  shows "\<exists>s'. harness_main False in_rdx (kernel_serial_pr junk use_serial) c (linked_benchmarks b) s = Some s' \<and>
    run_left ps (dev s) (dev s') \<and>
    host_main popen v \<lparr>stdin = sent (ser (dev s')), hout = [], htsc = T, htsc_reads = 0\<rparr> =
      Some \<lparr>stdin = [], hout = host_log popen T 0 (linked_benchmarks b), htsc = T, htsc_reads = 56\<rparr>"
proof -
  obtain s' where s': "harness_main False in_rdx (kernel_serial_pr junk use_serial) c (linked_benchmarks b) s = Some s'"
      "run_left ps (dev s) (dev s')"
      "sent (ser (dev s')) = concat ls @ harness_text (vm_lines (linked_benchmarks b) (map (Pair []) linked_texts))"
    using linked_vm_did [OF assms(1-3), of junk use_serial c] assms(4) by auto
  have "list_all2 report_ok (linked_benchmarks b) (map (Pair []) linked_texts)"
    using benches_act_runs(3) [OF started_act [OF assms(1,2)]] .
  from host_main_report [OF this assms(5) _ assms(6), of "\<lparr>stdin = sent (ser (dev s')), hout = [], htsc = T, htsc_reads = 0\<rparr>" v]
  show ?thesis
    using s' by (simp add: length_linked)
qed

theorem kernel_run_witness:
  "\<exists>h s'. get_free_pages 0x200000 (4096 * of_nat 18493) boot_heap = Some (h, 0x200000) \<and>
     harness_main False False (kernel_serial_pr (\<lambda>_. 0) True) (0, 0) (linked_benchmarks (example_build (kernel_serial_pr (\<lambda>_. 0) True)))
       \<lparr>dev = example_kernel h, tsc = \<lambda>k. if k = 0 then 5 else 3, tsc_reads = 0\<rparr> = Some s' \<and>
     run_left (pages 0x200000 18493) (example_kernel h) (dev s')"
proof -
  obtain h where h: "get_free_pages 0x200000 (4096 * of_nat 18493) boot_heap = Some (h, 0x200000)"
      "kernel_started (pages 0x200000 18493) (example_kernel h)"
    using example_started by blast
  let ?s = "\<lparr>dev = example_kernel h, tsc = \<lambda>k. if k = 0 then 5 else 3, tsc_reads = 0\<rparr>"
  have "reading False ?s 1 < reading False ?s 0"
    by (simp add: reading_def half_def take_bit_eq_mask mask_eq_exp_minus_1)
  moreover have "sent (ser (dev ?s)) = concat []"
    using example_serial_ready(2) by (simp add: example_kernel_def)
  ultimately show ?thesis
    using kernel_run_reported [of "pages 0x200000 18493" ?s "example_build (kernel_serial_pr (\<lambda>_. 0) True)" False 1 "[]" None
        "\<lambda>_. 0" True "(0, 0)" example_vars of_nat] h example_build_ok by auto
qed

section \<open>From the boot information to the page tables\<close>

text \<open>
  C13. The memory from the boot information serves the page tables: when it ends on a page boundary
  and holds the 2054 pages for a map of 4 GiB, \<open>early_mem_init\<close> and then \<open>setup_mmu\<close> with no limit
  return; the first free page is the root, every address below 4 GiB translates to itself and no
  other address is mapped, and the pages after the tables are still free.
\<close>

theorem boot_memory_map:
  assumes "\<not> first_mem_init s" "unat base + 4095 < 18446744073709551616" "base \<noteq> 0"
    and "e = ucast (mbi_mem_upper (ram s) mbi) * 1024" "page_aligned e" "page_up base < e"
    and "2054 \<le> unat (e - page_up base) div 4096"
  shows "\<exists>s1 s'. early_mem_init bm base mbi s = Some s1 \<and> setup_mmu 0 s1 = Some (s', page_up base) \<and>
    cr3 s' = page_up base \<and> start_cr3 s' = cr3 s1 \<and>
    free_pages s' (drop 2054 (pages (page_up base) (unat (e - page_up base) div 4096))) \<and>
    (\<forall>v. walk (ram s') 4 (page_up base) v = (if vpn v < 1048576 then Some (take_bit 48 v) else None))"
proof -
  let ?n = "unat (e - page_up base) div 4096"
  obtain k where k: "?n = Suc k" "2053 \<le> k"
    using assms(7) by (cases ?n) auto
  obtain s1 where s1: "early_mem_init bm base mbi s = Some s1" "free_pages s1 (pages (page_up base) ?n)"
    using early_mem_init_frees [OF assms(1-6), of bm] by blast
  have t: "tables_for (4294967296 div 4096) = 2053"
    by (simp add: tables_for_def)
  have "e = of_nat (unat (mbi_mem_upper (ram s) mbi) * 1024)"
    using assms(4) by simp
  moreover have "unat (mbi_mem_upper (ram s) mbi) < 2 ^ LENGTH(32)"
    by (rule unsigned_less)
  moreover from this have "unat (of_nat (unat (mbi_mem_upper (ram s) mbi) * 1024) :: u64) =
      unat (mbi_mem_upper (ram s) mbi) * 1024"
    by (intro unat_of_nat_u64) simp
  ultimately have "unat e \<le> 4294967295 * 1024"
    by simp
  then have "unat (page_up base) + 4096 * ?n \<le> 4503599627370496"
    using assms(6) by (simp add: unat_diff_split word_less_nat_alt)
  then have "q AND PT_ADDR_MASK = q" if "q \<in> set (pages (page_up base) ?n)" for q
    using pages_masked [OF _ _ that] page_up_aligned by blast
  then have "\<forall>q \<in> set (take 2053 (pages (page_up base + 4096) k)). q AND PT_ADDR_MASK = q"
    by (auto simp: k(1) pages_Suc dest: in_set_takeD)
  with setup_mmu_maps [OF s1(2) [unfolded k(1) pages_Suc], of 4294967296 0] t k(2)
  obtain s' where "setup_mmu 0 s1 = Some (s', page_up base)" "cr3 s' = page_up base" "start_cr3 s' = cr3 s1"
    "free_pages s' (drop 2053 (pages (page_up base + 4096) k))"
    "\<forall>v. walk (ram s') 4 (page_up base) v = (if vpn v < 4294967296 div 4096 then Some (take_bit 48 v) else None)"
    by (auto simp: length_pages)
  then show ?thesis
    using s1(1) unfolding k(1) pages_Suc by (intro exI [of _ s1] exI [of _ s']) simp
qed

theorem boot_memory_witness:
  "\<exists>s1 s'. early_mem_init False 0x100001 0x9000 (boot_heap\<lparr>ram := store32 (\<lambda>_. 0) 0x9008 0x4000\<rparr>) = Some s1 \<and>
     setup_mmu 0 s1 = Some (s', 0x101000) \<and> walk (ram s') 4 0x101000 0xFEE00020 = Some 0xFEE00020"
proof -
  let ?s = "boot_heap\<lparr>ram := store32 (\<lambda>_. 0) 0x9008 0x4000\<rparr>"
  have p: "page_up 0x100001 = 0x101000"
    by (rule word_eq_of_unat) (simp add: page_up_def unat_page_down)
  have "mbi_mem_upper (ram ?s) 0x9000 = 0x4000"
    by (simp add: mbi_mem_upper_def)
  then have e: "0x1000000 = ucast (mbi_mem_upper (ram ?s) 0x9000) * (1024 :: u64)"
    by simp
  have "\<not> first_mem_init ?s"
    by (simp add: boot_heap_def)
  from boot_memory_map [OF this _ _ e, of "0x100001" False, unfolded p]
  obtain s1 s' where "early_mem_init False 0x100001 0x9000 ?s = Some s1" "setup_mmu 0 s1 = Some (s', 0x101000)"
      "\<forall>v. walk (ram s') 4 0x101000 v = (if vpn v < 1048576 then Some (take_bit 48 v) else None)"
    by (auto simp: page_aligned_def)
  then show ?thesis
    by (auto simp: vpn_eq take_bit_eq_mod)
qed

section \<open>From the tables of the BIOS to running processors\<close>

text \<open>
  C14. The processors the BIOS lists come up: after \<open>mpinit\<close> on a valid table of at most \<open>NCPU\<close>
  processors with different identifiers, \<open>startothers\<close> on any of them can come to its end, all
  others have then set their flags, and \<open>on_cpu\<close> for entry \<open>k\<close> of \<open>cpus\<close> addresses the processor with
  the \<open>k\<close>-th identifier of the table.
\<close>

theorem smp_boot:
  assumes "\<not> is_mp m 0" "length (cpus s0) = NCPU" "ncpu s0 = 0" "\<forall>c\<in>set (cpus s0). started c = 0"
    and "conf_entries m (found_conf m) = Some es" "conf_lapicaddr m (found_conf m) \<noteq> 0"
    and "distinct (cpu_ids es)" "length (cpu_ids es) \<le> NCPU" "b < length (cpu_ids es)"
  shows "\<exists>mp. mpinit bare_metal m s0 = Some mp \<and>
    (\<forall>s. mpst s = mp \<and> pc s = Check 0 \<and> entered s = {} \<and> smp_stacktop s = smp_stacktop0 \<and> ipis_sent s = [] \<and>
      apic_answers mp (cpu_ids es ! b) (bsp s) \<and>
      (\<forall>k<length (cpu_ids es). apic_answers mp (cpu_ids es ! k) (aps s k)) \<longrightarrow>
      (\<exists>s'. (boot_step idt_addr)\<^sup>*\<^sup>* s s' \<and> pc s' = Finished \<and>
        (\<forall>k<length (cpu_ids es). (k \<noteq> b \<longrightarrow> started (cpus (mpst s') ! k) = 1) \<and>
          dest_of (mpst s') k = ucast (cpu_ids es ! k))))"
proof -
  let ?ids = "cpu_ids es"
  obtain mp where mp: "mpinit bare_metal m s0 = Some mp" "ncpu mp = length ?ids"
      "map apicid (cpus mp) = take NCPU (?ids @ drop (length ?ids) (map apicid (cpus s0)))"
      "map started (cpus mp) = map started (cpus s0)" "lapic mp = ucast (conf_lapicaddr m (found_conf m))"
    using mpinit_result [OF assms(1-3,5), of bare_metal] assms(8) by auto
  have len: "length (cpus mp) = NCPU"
    using arg_cong [OF mp(3), of length] assms(2,8) by simp
  have ids: "cpu_id_list mp = ?ids"
    using assms(8) by (simp add: cpu_id_list_def mp(2,3))
  have "started (cpus mp ! k) = 0" if "k < length ?ids" for k
  proof -
    have "map started (cpus mp) ! k = map started (cpus s0) ! k"
      by (simp add: mp(4))
    then show ?thesis
      using that assms(2,4,8) len by simp
  qed
  then have start: "boot_start b ?ids s"
    if "mpst s = mp" "pc s = Check 0" "entered s = {}" "smp_stacktop s = smp_stacktop0" "ipis_sent s = []"
      "apic_answers mp (?ids ! b) (bsp s)" "\<forall>k<length ?ids. apic_answers mp (?ids ! k) (aps s k)" for s
    using that assms(6-9) len mp(2,5) ids by (simp add: boot_start_def machine_ok_def ucast_addr_0)
  have "\<exists>s'. (boot_step idt_addr)\<^sup>*\<^sup>* s s' \<and> pc s' = Finished \<and>
      (\<forall>k<length ?ids. (k \<noteq> b \<longrightarrow> started (cpus (mpst s') ! k) = 1) \<and> dest_of (mpst s') k = ucast (?ids ! k))"
    if st: "boot_start b ?ids s" for s
  proof -
    obtain s' where s': "(boot_step idt_addr)\<^sup>*\<^sup>* s s'" "pc s' = Finished"
      using boot_finishes [OF boot_start_inv [OF st] boot_start_stack [OF st]] by blast
    then have inv: "boot_inv b ?ids s'"
      using boot_reachable [OF s'(1)] boot_start_inv [OF st] boot_start_stack [OF st] by blast
    then have "dest_of (mpst s') k = ucast (?ids ! k)" if "k < length ?ids" for k
      using that cpu_id_list_nth [of k "mpst s'"] by (simp add: boot_inv_def machine_ok_def dest_of_def)
    then show ?thesis
      using s' inv by (auto simp: boot_inv_def)
  qed
  then show ?thesis
    using mp(1) start by blast
qed

theorem smp_boot_witness:
  "\<exists>s s'. mpinit True example_bios example_mp = Some (mpst s) \<and> (boot_step 0x7000)\<^sup>*\<^sup>* s s' \<and> pc s' = Finished \<and>
     started (cpus (mpst s') ! 1) = 1 \<and> dest_of (mpst s') 1 = 5"
proof -
  let ?es = "[Proc_entry 0, Proc_entry 5, Ioapic_entry 9]"
  have lapic: "conf_lapicaddr example_bios 0xF0010 = 0xFEE00000"
    by code_simp
  have h: "length (cpus example_mp) = NCPU" "ncpu example_mp = 0" "\<forall>c\<in>set (cpus example_mp). started c = 0"
      "conf_entries example_bios (found_conf example_bios) = Some ?es" "conf_lapicaddr example_bios (found_conf example_bios) \<noteq> 0"
      "distinct (cpu_ids ?es)" "length (cpu_ids ?es) \<le> NCPU" "0 < length (cpu_ids ?es)"
    using lapic by (simp_all add: example_found example_entries example_mp_def NCPU_def)
  obtain mp where mp: "mpinit True example_bios example_mp = Some mp"
    and run: "\<forall>s. mpst s = mp \<and> pc s = Check 0 \<and> entered s = {} \<and> smp_stacktop s = smp_stacktop0 \<and> ipis_sent s = [] \<and>
      apic_answers mp (cpu_ids ?es ! 0) (bsp s) \<and> (\<forall>k<length (cpu_ids ?es). apic_answers mp (cpu_ids ?es ! k) (aps s k)) \<longrightarrow>
      (\<exists>s'. (boot_step 0x7000)\<^sup>*\<^sup>* s s' \<and> pc s' = Finished \<and>
        (\<forall>k<length (cpu_ids ?es). (k \<noteq> 0 \<longrightarrow> started (cpus (mpst s') ! k) = 1) \<and> dest_of (mpst s') k = ucast (cpu_ids ?es ! k)))"
    using smp_boot [OF example_found(1) h] by blast
  let ?s = "\<lparr>mpst = mp, bsp = example_cpu 0, aps = \<lambda>k. example_cpu (cpu_ids ?es ! k), pc = Check 0, entered = {},
     smp_stacktop = smp_stacktop0, esps = \<lambda>_. 0\<rparr>"
  have "ipis_sent ?s = []"
    by (simp add: ipis_sent_def ipis_def example_cpu_def quiet_machine_def)
  moreover have "apic_answers mp (cpu_ids ?es ! 0) (bsp ?s)" "\<forall>k<length (cpu_ids ?es). apic_answers mp (cpu_ids ?es ! k) (aps ?s k)"
    using example_cpu_answers [of mp 0] by (simp_all add: example_cpu_answers)
  ultimately obtain s' where "(boot_step 0x7000)\<^sup>*\<^sup>* ?s s'" "pc s' = Finished"
      "\<forall>k<length (cpu_ids ?es). (k \<noteq> 0 \<longrightarrow> started (cpus (mpst s') ! k) = 1) \<and> dest_of (mpst s') k = ucast (cpu_ids ?es ! k)"
    using spec [OF run, of ?s] by auto
  then show ?thesis
    using mp by (intro exI [of _ ?s] exI [of _ s']) (auto dest: spec [of _ 1])
qed

end
